(* ===== verification/Gateway_Prelude.thy ===== *)
theory Gateway_Prelude
  imports Main "HOL-Library.Word" "HOL-Library.AList"
begin

text \<open>
  Shared ground of the development: the machine integer types of the C++ code, the
  outcomes of a C++ call (a value, an exception, or undefined behaviour), byte order and
  object representation on a host of either endianness, the formatting of bytes as two
  hexadecimal digits, the conversion functions \<open>std::stoi\<close>, \<open>std::stoul\<close> and
  \<open>std::stoll\<close>, C++ durations, and \<open>std::unordered_map\<close> as an association list behind a
  locale that states the laws its clients rely on.
\<close>

unbundle bit_operations_syntax

named_theorems wire_simps \<open>byte order and object representation\<close>
named_theorems cpp_defs \<open>definitions of the modelled C++ primitives\<close>

section \<open>Machine integers and outcomes\<close>

type_synonym u8 = "8 word"
type_synonym u16 = "16 word"
type_synonym u32 = "32 word"
type_synonym u64 = "64 word"

text \<open>
  What a C++ call can end in besides a value. \<open>Undefined\<close> stands for undefined behaviour
  (signed overflow, a shift by the width or more, a division by zero, an access outside a
  buffer): the model stops there, since nothing can be said of the program afterwards. \<open>SigPipeKill\<close> is the end of the
  process by the signal \<open>SIGPIPE\<close>.
\<close>

datatype cpp_error =
    InvalidArgument
  | OutOfRange
  | RuntimeError string
  | Undefined
  | SigPipeKill

type_synonym 'a outcome = "cpp_error + 'a"

definition bind_outcome :: "'a outcome \<Rightarrow> ('a \<Rightarrow> 'b outcome) \<Rightarrow> 'b outcome" where
  [cpp_defs]: "bind_outcome r f = (case r of Inl e \<Rightarrow> Inl e | Inr x \<Rightarrow> f x)"

text \<open>The ranges of \<open>int\<close> (32 bits) and \<open>int64_t\<close>, and signed arithmetic that is
  undefined outside them.\<close>

definition in_int32 :: "int \<Rightarrow> bool" where
  "in_int32 x \<longleftrightarrow> - (2 ^ 31) \<le> x \<and> x < 2 ^ 31"

definition in_int64 :: "int \<Rightarrow> bool" where
  "in_int64 x \<longleftrightarrow> - (2 ^ 63) \<le> x \<and> x < 2 ^ 63"

definition i64 :: "int \<Rightarrow> int outcome" where
  "i64 x = (if in_int64 x then Inr x else Inl Undefined)"

text \<open>C++ integer division truncates towards zero.\<close>

definition cdiv :: "int \<Rightarrow> int \<Rightarrow> int" where
  "cdiv a b = (if 0 \<le> a then a div b else - ((- a) div b))"

text \<open>Time points and durations of \<open>std::chrono::steady_clock\<close> count nanoseconds;
  \<open>duration_cast\<close> to a coarser unit truncates.\<close>

type_synonym time_ns = int

definition ns_to_us :: "time_ns \<Rightarrow> int" where
  "ns_to_us d = cdiv d 1000"

definition ns_to_s :: "time_ns \<Rightarrow> int" where
  "ns_to_s d = cdiv d 1000000000"

section \<open>Byte order and object representation\<close>

datatype endian = LittleEndian | BigEndian

definition be_bytes16 :: "u16 \<Rightarrow> u8 list" where
  "be_bytes16 w = [ucast (drop_bit 8 w), ucast w]"

definition be_bytes32 :: "u32 \<Rightarrow> u8 list" where
  "be_bytes32 w =
     [ucast (drop_bit 24 w), ucast (drop_bit 16 w), ucast (drop_bit 8 w), ucast w]"

fun be_load16 :: "u8 list \<Rightarrow> u16" where
  "be_load16 [a, b] = push_bit 8 (ucast a) OR ucast b"
| "be_load16 _ = 0"

fun be_load32 :: "u8 list \<Rightarrow> u32" where
  "be_load32 [a, b, c, d] =
     push_bit 24 (ucast a) OR push_bit 16 (ucast b) OR push_bit 8 (ucast c) OR ucast d"
| "be_load32 _ = 0"

text \<open>The bytes of an integer in the memory of a host, and reading them back, as
  \<open>std::memcpy\<close> from and to a packed struct does.\<close>

definition mem16 :: "endian \<Rightarrow> u16 \<Rightarrow> u8 list" where
  "mem16 e w = (case e of LittleEndian \<Rightarrow> rev (be_bytes16 w) | BigEndian \<Rightarrow> be_bytes16 w)"

definition mem32 :: "endian \<Rightarrow> u32 \<Rightarrow> u8 list" where
  "mem32 e w = (case e of LittleEndian \<Rightarrow> rev (be_bytes32 w) | BigEndian \<Rightarrow> be_bytes32 w)"

definition load16 :: "endian \<Rightarrow> u8 list \<Rightarrow> u16" where
  "load16 e bs = (case e of LittleEndian \<Rightarrow> be_load16 (rev bs) | BigEndian \<Rightarrow> be_load16 bs)"

definition load32 :: "endian \<Rightarrow> u8 list \<Rightarrow> u32" where
  "load32 e bs = (case e of LittleEndian \<Rightarrow> be_load32 (rev bs) | BigEndian \<Rightarrow> be_load32 bs)"

text \<open>\<open>htons\<close>, \<open>ntohs\<close>, \<open>htonl\<close> and \<open>ntohl\<close>: the identity on a big-endian host, a
  byte swap on a little-endian one.\<close>

definition bswap16 :: "u16 \<Rightarrow> u16" where
  "bswap16 w = be_load16 (rev (be_bytes16 w))"

definition bswap32 :: "u32 \<Rightarrow> u32" where
  "bswap32 w = be_load32 (rev (be_bytes32 w))"

definition htons :: "endian \<Rightarrow> u16 \<Rightarrow> u16" where
  "htons e w = (case e of LittleEndian \<Rightarrow> bswap16 w | BigEndian \<Rightarrow> w)"

definition ntohs :: "endian \<Rightarrow> u16 \<Rightarrow> u16" where
  "ntohs e w = (case e of LittleEndian \<Rightarrow> bswap16 w | BigEndian \<Rightarrow> w)"

definition htonl :: "endian \<Rightarrow> u32 \<Rightarrow> u32" where
  "htonl e w = (case e of LittleEndian \<Rightarrow> bswap32 w | BigEndian \<Rightarrow> w)"

definition ntohl :: "endian \<Rightarrow> u32 \<Rightarrow> u32" where
  "ntohl e w = (case e of LittleEndian \<Rightarrow> bswap32 w | BigEndian \<Rightarrow> w)"

lemma i64_eq [simp]:
  "i64 x = Inr y \<longleftrightarrow> in_int64 x \<and> y = x" "i64 x = Inl e \<longleftrightarrow> \<not> in_int64 x \<and> e = Undefined"
  by (auto simp: i64_def)

lemma bind_outcome_Inr: "bind_outcome r f = Inr y \<longleftrightarrow> (\<exists>x. r = Inr x \<and> f x = Inr y)"
  by (cases r) (simp_all add: bind_outcome_def)

lemma bind_outcome_Inl: "bind_outcome r f = Inl y \<longleftrightarrow> r = Inl y \<or> (\<exists>x. r = Inr x \<and> f x = Inl y)"
  by (cases r) (simp_all add: bind_outcome_def)

lemma cdiv_nonneg: "0 \<le> a \<Longrightarrow> cdiv a b = a div b"
  by (simp add: cdiv_def)

lemma bit_u8_beyond: "8 \<le> n \<Longrightarrow> \<not> bit (a :: u8) n"
  using bit_imp_le_length [of a n] by auto

lemma length_be_bytes [simp]:
  "length (be_bytes16 w) = 2" "length (be_bytes32 v) = 4"
  by (simp_all add: be_bytes16_def be_bytes32_def)

lemma be_load16_bytes [simp]: "be_load16 (be_bytes16 w) = w"
  by (rule bit_word_eqI) (auto simp: be_bytes16_def bit_simps)

lemma be_load32_bytes [simp]: "be_load32 (be_bytes32 w) = w"
proof (rule bit_word_eqI)
  fix n assume "n < LENGTH(32)"
  then consider "n < 8" | "8 \<le> n" "n < 16" | "16 \<le> n" "n < 24" | "24 \<le> n" "n < 32"
    by force
  then show "bit (be_load32 (be_bytes32 w)) n = bit w n"
    by cases (auto simp: be_bytes32_def bit_simps)
qed

lemma be_bytes16_load [simp]: "length bs = 2 \<Longrightarrow> be_bytes16 (be_load16 bs) = bs"
proof -
  assume "length bs = 2"
  then obtain a b where bs: "bs = [a, b]" by (auto simp: numeral_eq_Suc length_Suc_conv)
  show ?thesis
    unfolding bs be_bytes16_def be_load16.simps list.inject
    by (intro conjI refl bit_word_eqI) (auto simp: bit_simps bit_u8_beyond)
qed

lemma be_bytes32_load [simp]: "length bs = 4 \<Longrightarrow> be_bytes32 (be_load32 bs) = bs"
proof -
  assume "length bs = 4"
  then obtain a b c d where bs: "bs = [a, b, c, d]" by (auto simp: numeral_eq_Suc length_Suc_conv)
  show ?thesis
    unfolding bs be_bytes32_def be_load32.simps list.inject
    by (intro conjI refl bit_word_eqI) (auto simp: bit_simps bit_u8_beyond)
qed

text \<open>The byte order functions and the object representation cancel: what a host stores of a
  converted integer is its big-endian bytes, whatever the host's own byte order.\<close>

lemma mem16_htons [wire_simps]: "mem16 e (htons e w) = be_bytes16 w"
  by (cases e) (simp_all add: mem16_def htons_def bswap16_def)

lemma mem32_htonl [wire_simps]: "mem32 e (htonl e w) = be_bytes32 w"
  by (cases e) (simp_all add: mem32_def htonl_def bswap32_def)

lemma ntohs_load16 [wire_simps]: "length bs = 2 \<Longrightarrow> ntohs e (load16 e bs) = be_load16 bs"
  by (cases e) (simp_all add: ntohs_def load16_def bswap16_def)

lemma ntohl_load32 [wire_simps]: "length bs = 4 \<Longrightarrow> ntohl e (load32 e bs) = be_load32 bs"
  by (cases e) (simp_all add: ntohl_def load32_def bswap32_def)

lemma load_mem [simp]: "load16 e (mem16 e v) = v" "load32 e (mem32 e w) = w"
  by (cases e; simp add: load16_def mem16_def load32_def mem32_def)+

lemma length_mem [simp]: "length (mem16 e v) = 2" "length (mem32 e w) = 4"
  by (cases e; simp add: mem16_def mem32_def)+

lemma mem_load: "length bs = 4 \<Longrightarrow> mem32 e (load32 e bs) = bs"
  by (cases e) (simp_all add: mem32_def load32_def)

lemma ntohs_htons [simp]: "ntohs e (htons e w) = w"
  by (cases e) (simp_all add: ntohs_def htons_def bswap16_def)

lemma ntohl_htonl [simp]: "ntohl e (htonl e w) = w"
  by (cases e) (simp_all add: ntohl_def htonl_def bswap32_def)

lemma htonl_ntohl [simp]: "htonl e (ntohl e w) = w"
  using ntohl_htonl [of e w] by (simp add: htonl_def ntohl_def)

section \<open>Bytes as text\<close>

text \<open>\<open>std::hex << std::setw(2) << std::setfill('0') << (int)b\<close> on a fresh stream: two
  lower-case digits.\<close>

definition hex_digit :: "nat \<Rightarrow> char" where
  "hex_digit n = ''0123456789abcdef'' ! n"

definition hex2 :: "u8 \<Rightarrow> string" where
  "hex2 b = [hex_digit (unat b div 16), hex_digit (unat b mod 16)]"

definition hex_bytes :: "u8 list \<Rightarrow> string" where
  "hex_bytes bs = concat (map hex2 bs)"

text \<open>A \<open>std::string\<close> holds bytes; \<open>static_cast<uint8_t>\<close> reads one as an unsigned value.\<close>

definition u8_of_char :: "char \<Rightarrow> u8" where
  "u8_of_char c = of_nat (of_char c)"

definition char_of_u8 :: "u8 \<Rightarrow> char" where
  "char_of_u8 b = char_of (unat b)"

text \<open>\<open>c_str()\<close> or a character array as a C function reads it: up to the first NUL.\<close>

definition c_string :: "string \<Rightarrow> string" where
  "c_string s = takeWhile (\<lambda>c. c \<noteq> CHR 0x00) s"

lemma char_of_u8_of_char [simp]: "char_of_u8 (u8_of_char c) = c"
  by (simp add: char_of_u8_def u8_of_char_def unat_of_nat)

lemma u8_of_char_of_u8 [simp]: "u8_of_char (char_of_u8 b) = b"
  by (simp add: char_of_u8_def u8_of_char_def unsigned_less [of b, simplified] flip: unat_mod)

lemma hex_digit_inj: "m < 16 \<Longrightarrow> n < 16 \<Longrightarrow> hex_digit m = hex_digit n \<Longrightarrow> m = n"
  unfolding hex_digit_def by (subst (asm) nth_eq_iff_index_eq) simp_all

lemma length_hex2 [simp]: "length (hex2 b) = 2"
  by (simp add: hex2_def)

lemma hex2_inj: "hex2 a = hex2 b \<Longrightarrow> a = b"
proof -
  assume "hex2 a = hex2 b"
  moreover have "unat a < 256" "unat b < 256"
    using unsigned_less [of a] unsigned_less [of b] by simp_all
  ultimately have "unat a div 16 = unat b div 16" "unat a mod 16 = unat b mod 16"
    by (auto simp: hex2_def intro: hex_digit_inj)
  then have "unat a = unat b" by (metis div_mult_mod_eq)
  then show "a = b" by (rule unsigned_word_eqI)
qed

lemma length_hex_bytes [simp]: "length (hex_bytes bs) = 2 * length bs"
  by (induction bs) (simp_all add: hex_bytes_def)

lemma hex_bytes_inj: "hex_bytes xs = hex_bytes ys \<Longrightarrow> xs = ys"
proof (induction xs arbitrary: ys)
  case Nil
  then show ?case by (cases ys) (auto simp: hex_bytes_def hex2_def)
next
  case (Cons x xs)
  then obtain y zs where ys: "ys = y # zs"
    by (cases ys) (auto simp: hex_bytes_def hex2_def)
  with Cons.prems have "hex2 x @ hex_bytes xs = hex2 y @ hex_bytes zs"
    by (simp add: hex_bytes_def)
  then have "hex2 x = hex2 y" "hex_bytes xs = hex_bytes zs" by simp_all
  with Cons.IH ys show ?case by (auto dest: hex2_inj)
qed

section \<open>String to integer conversions\<close>

text \<open>\<open>std::stoi\<close>, \<open>std::stoll\<close> and \<open>std::stoul\<close> skip white space, read an optional
  sign and the longest run of decimal digits, ignore what follows, and throw
  \<open>std::invalid_argument\<close> when there is no digit and \<open>std::out_of_range\<close> when the value
  does not fit. \<open>std::stoul\<close> accepts a minus sign and negates modulo \<open>2^64\<close>.\<close>

definition is_space :: "char \<Rightarrow> bool" where
  "is_space c \<longleftrightarrow> c \<in> {CHR '' '', CHR 0x09, CHR 0x0A, CHR 0x0B, CHR 0x0C, CHR 0x0D}"

definition is_digit :: "char \<Rightarrow> bool" where
  "is_digit c \<longleftrightarrow> 48 \<le> (of_char c :: nat) \<and> (of_char c :: nat) \<le> 57"

fun digits_val :: "int \<Rightarrow> string \<Rightarrow> int" where
  "digits_val acc [] = acc"
| "digits_val acc (c # cs) =
     (if is_digit c then digits_val (10 * acc + (int (of_char c) - 48)) cs else acc)"

definition unsigned_part :: "string \<Rightarrow> int option" where
  "unsigned_part s =
     (case s of [] \<Rightarrow> None | c # _ \<Rightarrow> if is_digit c then Some (digits_val 0 s) else None)"

definition strto :: "string \<Rightarrow> (bool \<times> int) option" where
  "strto s =
     (case dropWhile is_space s of
        [] \<Rightarrow> None
      | c # cs \<Rightarrow>
          if c = CHR ''-'' then map_option (Pair True) (unsigned_part cs)
          else if c = CHR ''+'' then map_option (Pair False) (unsigned_part cs)
          else map_option (Pair False) (unsigned_part (c # cs)))"

definition signed_value :: "bool \<times> int \<Rightarrow> int" where
  "signed_value p = (if fst p then - snd p else snd p)"

definition stoi :: "string \<Rightarrow> int outcome" where
  "stoi s =
     (case strto s of
        None \<Rightarrow> Inl InvalidArgument
      | Some p \<Rightarrow> if in_int32 (signed_value p) then Inr (signed_value p) else Inl OutOfRange)"

definition stoll :: "string \<Rightarrow> int outcome" where
  "stoll s =
     (case strto s of
        None \<Rightarrow> Inl InvalidArgument
      | Some p \<Rightarrow> if in_int64 (signed_value p) then Inr (signed_value p) else Inl OutOfRange)"

definition stoul :: "string \<Rightarrow> u64 outcome" where
  "stoul s =
     (case strto s of
        None \<Rightarrow> Inl InvalidArgument
      | Some p \<Rightarrow>
          if snd p < 2 ^ 64 then Inr (of_int (signed_value p)) else Inl OutOfRange)"

lemma stoi_range: "stoi s = Inr v \<Longrightarrow> in_int32 v"
  by (auto simp: stoi_def split: option.splits if_splits)

lemma stoll_range: "stoll s = Inr v \<Longrightarrow> in_int64 v"
  by (auto simp: stoll_def split: option.splits if_splits)

section \<open>Keyed containers\<close>

text \<open>
  What the code relies on of \<open>std::unordered_map\<close>: look-up, insertion that overwrites,
  erasure and size. Iteration order is not part of the contract. The client lemmas are
  proved once here; the interpretation is the association-list model used for
  \<open>connections_\<close>, \<open>callbacks_\<close> and \<open>kv_store_\<close>.
\<close>

type_synonym ('k, 'v) umap = "('k \<times> 'v) list"

definition um_find :: "('k, 'v) umap \<Rightarrow> 'k \<Rightarrow> 'v option" where
  "um_find m k = map_of m k"

definition um_put :: "'k \<Rightarrow> 'v \<Rightarrow> ('k, 'v) umap \<Rightarrow> ('k, 'v) umap" where
  "um_put k v m = AList.update k v m"

definition um_erase :: "'k \<Rightarrow> ('k, 'v) umap \<Rightarrow> ('k, 'v) umap" where
  "um_erase k m = AList.delete k m"

definition um_size :: "('k, 'v) umap \<Rightarrow> nat" where
  "um_size m = length m"

definition um_ok :: "('k, 'v) umap \<Rightarrow> bool" where
  "um_ok m \<longleftrightarrow> distinct (map fst m)"

locale keyed_store =
  fixes empty :: "'m"
    and find :: "'m \<Rightarrow> 'k \<Rightarrow> 'v option"
    and put :: "'k \<Rightarrow> 'v \<Rightarrow> 'm \<Rightarrow> 'm"
    and erase :: "'k \<Rightarrow> 'm \<Rightarrow> 'm"
    and size :: "'m \<Rightarrow> nat"
    and ok :: "'m \<Rightarrow> bool"
  assumes find_empty [simp]: "find empty k = None"
    and find_put [simp]: "find (put k v m) = (find m)(k \<mapsto> v)"
    and find_erase [simp]: "find (erase k m) = (find m)(k := None)"
    and size_dom: "ok m \<Longrightarrow> size m = card (dom (find m))"
    and finite_dom: "finite (dom (find m))"
    and ok_empty [simp]: "ok empty"
    and ok_put [simp]: "ok m \<Longrightarrow> ok (put k v m)"
    and ok_erase [simp]: "ok m \<Longrightarrow> ok (erase k m)"
begin

lemma size_empty: "size empty = 0"
  by (simp add: size_dom dom_def)

lemma size_put: "ok m \<Longrightarrow> size (put k v m) = (if find m k = None then Suc (size m) else size m)"
  by (auto simp: size_dom finite_dom card_insert_if domIff)

lemma size_erase: "ok m \<Longrightarrow> size (erase k m) = (if find m k = None then size m else size m - 1)"
  by (auto simp: size_dom finite_dom domIff)

lemma erase_put_same: "find (erase k (put k v m)) = (find m)(k := None)"
  by simp

lemma size_zero: "ok m \<Longrightarrow> size m = 0 \<longleftrightarrow> (\<forall>k. find m k = None)"
  using finite_dom [of m] by (auto simp: size_dom)

end

interpretation um: keyed_store "[] :: ('k, 'v) umap" um_find um_put um_erase um_size um_ok
proof
  fix m :: "('k, 'v) umap" and k :: 'k and v :: 'v
  show "um_find [] k = (None :: 'v option)" by (simp add: um_find_def)
  show "um_find (um_put k v m) = (um_find m)(k \<mapsto> v)"
    by (simp add: um_find_def um_put_def fun_eq_iff update_conv)
  show "um_find (um_erase k m) = (um_find m)(k := None)"
    by (simp add: um_find_def um_erase_def fun_eq_iff delete_conv)
  show "finite (dom (um_find m))" by (simp add: um_find_def [abs_def] finite_dom_map_of)
  show "um_ok m \<Longrightarrow> um_size m = card (dom (um_find m))"
    by (simp add: um_size_def um_ok_def um_find_def [abs_def] dom_map_of_conv_image_fst
        distinct_card flip: set_map)
  show "um_ok ([] :: ('k, 'v) umap)" by (simp add: um_ok_def)
  show "um_ok m \<Longrightarrow> um_ok (um_put k v m)" by (simp add: um_ok_def um_put_def distinct_update)
  show "um_ok m \<Longrightarrow> um_ok (um_erase k m)" by (simp add: um_ok_def um_erase_def distinct_delete)
qed

section \<open>Event machines\<close>

text \<open>
  Concurrent components are partial functions on events: \<open>act e s\<close> is the state after one
  atomic step, \<open>None\<close> when the step is not possible. An invariant of the start states that
  every step keeps holds after every run.
\<close>

fun run_events :: "('e \<Rightarrow> 's \<Rightarrow> 's option) \<Rightarrow> 'e list \<Rightarrow> 's \<Rightarrow> 's option" where
  "run_events act [] s = Some s"
| "run_events act (e # es) s = (case act e s of None \<Rightarrow> None | Some t \<Rightarrow> run_events act es t)"

lemma run_append: "run_events act (es @ fs) s = (case run_events act es s of None \<Rightarrow> None | Some t \<Rightarrow> run_events act fs t)"
  by (induction es arbitrary: s) (simp_all split: option.splits)

locale event_machine =
  fixes act :: "'e \<Rightarrow> 's \<Rightarrow> 's option"
    and start :: "'s \<Rightarrow> bool"
    and inv :: "'s \<Rightarrow> bool"
  assumes inv_start: "start s \<Longrightarrow> inv s"
    and inv_act: "inv s \<Longrightarrow> act e s = Some t \<Longrightarrow> inv t"
begin

lemma run_keeps: "inv s \<Longrightarrow> run_events act es s = Some t \<Longrightarrow> inv t"
  by (induction es arbitrary: s) (auto split: option.splits dest: inv_act)

lemma run_inv: "start s \<Longrightarrow> run_events act es s = Some t \<Longrightarrow> inv t"
  using inv_start run_keeps by blast

end

end
