(* ===== verification/Packet_Protocol.thy ===== *)
theory Packet_Protocol
  imports Gateway_Prelude
begin

text \<open>
  The binary application protocol of \<open>include/protocol/Packet.hpp\<close>: a packed six-byte
  header (version, type, payload length in network byte order) followed by the payload.
  The header's length field is kept as the code keeps it, already converted to network
  byte order, and \<open>std::memcpy\<close> of the header is the object representation on a host of
  the given byte order. A write past the end of the buffer of \<open>serialize\<close> is
  \<open>Undefined\<close>.
\<close>

section \<open>Data and operations\<close>

definition MAX_PAYLOAD_SIZE :: u32 where
  "MAX_PAYLOAD_SIZE = 65536"

definition PROTOCOL_VERSION :: u8 where
  "PROTOCOL_VERSION = 1"

datatype PacketType = HELLO | AUTH | DATA | PING | PONG | ERROR

definition packet_type_code :: "PacketType \<Rightarrow> u8" where
  "packet_type_code t =
     (case t of HELLO \<Rightarrow> 1 | AUTH \<Rightarrow> 2 | DATA \<Rightarrow> 3 | PING \<Rightarrow> 4 | PONG \<Rightarrow> 5 | ERROR \<Rightarrow> 6)"

record PacketHeader =
  version :: u8
  type_code :: u8
  hdr_length :: u32

record Packet =
  header :: PacketHeader
  payload :: "u8 list"

definition sizeof_PacketHeader :: nat where
  "sizeof_PacketHeader = 6"

text \<open>The packed header in memory, and a header read from memory.\<close>

definition header_bytes :: "endian \<Rightarrow> PacketHeader \<Rightarrow> u8 list" where
  "header_bytes e h = [version h, type_code h] @ mem32 e (hdr_length h)"

definition header_of_bytes :: "endian \<Rightarrow> u8 list \<Rightarrow> PacketHeader" where
  "header_of_bytes e bs =
     \<lparr> version = bs ! 0, type_code = bs ! 1, hdr_length = load32 e (take 4 (drop 2 bs)) \<rparr>"

text \<open>The constructors: default, from bytes (which rejects an oversized payload), from a
  string.\<close>

definition default_packet :: Packet where
  "default_packet =
     \<lparr> header = \<lparr> version = PROTOCOL_VERSION, type_code = packet_type_code DATA, hdr_length = 0 \<rparr>,
       payload = [] \<rparr>"

definition make_packet :: "endian \<Rightarrow> PacketType \<Rightarrow> u8 list \<Rightarrow> Packet outcome" where
  "make_packet e t data =
     (if length data > unat MAX_PAYLOAD_SIZE then Inl InvalidArgument
      else Inr \<lparr> header = \<lparr> version = PROTOCOL_VERSION, type_code = packet_type_code t,
                          hdr_length = htonl e (of_nat (length data)) \<rparr>,
                payload = data \<rparr>)"

definition make_packet_str :: "endian \<Rightarrow> PacketType \<Rightarrow> string \<Rightarrow> Packet outcome" where
  "make_packet_str e t s = make_packet e t (map u8_of_char s)"

definition get_payload_length :: "endian \<Rightarrow> Packet \<Rightarrow> u32" where
  "get_payload_length e p = ntohl e (hdr_length (header p))"

definition get_type :: "Packet \<Rightarrow> u8" where
  "get_type p = type_code (header p)"

text \<open>\<open>memcpy\<close> of \<open>src\<close> into \<open>buf\<close> at an offset: outside the buffer it is undefined.\<close>

definition memcpy_at :: "u8 list \<Rightarrow> nat \<Rightarrow> u8 list \<Rightarrow> u8 list outcome" where
  "memcpy_at buf off src =
     (if off + length src \<le> length buf
      then Inr (take off buf @ src @ drop (off + length src) buf)
      else Inl Undefined)"

definition serialize :: "endian \<Rightarrow> Packet \<Rightarrow> u8 list outcome" where
  "serialize e p =
     (let buffer = replicate (sizeof_PacketHeader + unat (get_payload_length e p)) 0 in
      bind_outcome (memcpy_at buffer 0 (header_bytes e (header p))) (\<lambda>buffer.
        if payload p \<noteq> [] then memcpy_at buffer sizeof_PacketHeader (payload p)
        else Inr buffer))"

text \<open>\<open>deserialize\<close> returns whether it succeeded and the new value of \<open>out_packet\<close>, which
  keeps its old value on failure.\<close>

definition deserialize :: "endian \<Rightarrow> u8 list \<Rightarrow> Packet \<Rightarrow> bool \<times> Packet" where
  "deserialize e buffer out =
     (if length buffer < sizeof_PacketHeader then (False, out)
      else
        let raw_hdr = header_of_bytes e (take sizeof_PacketHeader buffer) in
        if version raw_hdr \<noteq> PROTOCOL_VERSION then (False, out)
        else
          let payload_len = ntohl e (hdr_length raw_hdr) in
          if payload_len > MAX_PAYLOAD_SIZE then (False, out)
          else if length buffer < sizeof_PacketHeader + unat payload_len then (False, out)
          else (True, out\<lparr> header := raw_hdr,
                          payload := take (unat payload_len) (drop sizeof_PacketHeader buffer) \<rparr>))"

definition payload_as_string :: "Packet \<Rightarrow> string" where
  "payload_as_string p = map char_of_u8 (payload p)"

text \<open>A packet as the constructors make it: the length field describes the payload, which
  is within the limit. The data members are public, so the type itself does not enforce
  this.\<close>

definition packet_ok :: "endian \<Rightarrow> Packet \<Rightarrow> bool" where
  "packet_ok e p \<longleftrightarrow>
     version (header p) = PROTOCOL_VERSION \<and>
     unat (get_payload_length e p) = length (payload p) \<and>
     length (payload p) \<le> unat MAX_PAYLOAD_SIZE"

text \<open>The format as an abstract specification, independent of the host: version byte, type
  byte, big-endian length, payload.\<close>

definition wire_format :: "u8 \<Rightarrow> u8 list \<Rightarrow> u8 list" where
  "wire_format t data = [PROTOCOL_VERSION, t] @ be_bytes32 (of_nat (length data)) @ data"

text \<open>The host-independent condition for a buffer to start with a complete packet.\<close>

definition wire_ok :: "u8 list \<Rightarrow> bool" where
  "wire_ok buf \<longleftrightarrow> 6 \<le> length buf \<and> buf ! 0 = PROTOCOL_VERSION \<and>
     be_load32 (take 4 (drop 2 buf)) \<le> MAX_PAYLOAD_SIZE \<and>
     6 + unat (be_load32 (take 4 (drop 2 buf))) \<le> length buf"

text \<open>The packets a program can get hold of through the interface of the class.\<close>

inductive packet_from :: "endian \<Rightarrow> Packet \<Rightarrow> bool" for e where
  from_default: "packet_from e default_packet"
| from_bytes: "make_packet e t data = Inr p \<Longrightarrow> packet_from e p"
| from_string: "make_packet_str e t s = Inr p \<Longrightarrow> packet_from e p"
| from_wire: "packet_from e out \<Longrightarrow> deserialize e buf out = (ok, p) \<Longrightarrow> packet_from e p"

section \<open>Lemmas\<close>

lemmas packet_consts = MAX_PAYLOAD_SIZE_def PROTOCOL_VERSION_def sizeof_PacketHeader_def

lemma length_header_bytes [simp]: "length (header_bytes e h) = 6"
  by (simp add: header_bytes_def)

lemma header_of_header_bytes [simp]: "header_of_bytes e (header_bytes e h) = h"
  by (simp add: header_of_bytes_def header_bytes_def)

lemma take_append_exact: "length xs = n \<Longrightarrow> take n (xs @ ys) = xs"
  by simp

lemma packet_type_code_inj: "packet_type_code s = packet_type_code t \<Longrightarrow> s = t"
  by (cases s; cases t) (simp_all add: packet_type_code_def)

lemma unat_of_nat_u32: "n < 2 ^ 32 \<Longrightarrow> unat (of_nat n :: u32) = n"
  by (simp add: unat_of_nat)

lemma make_packet_ok: "make_packet e t data = Inr p \<Longrightarrow> packet_ok e p"
  by (auto simp: make_packet_def packet_ok_def get_payload_length_def packet_consts
      unat_of_nat_u32 split: if_splits)

lemma default_packet_ok: "packet_ok e default_packet"
  by (cases e) (simp_all add: packet_ok_def default_packet_def get_payload_length_def
      ntohl_def bswap32_def be_bytes32_def packet_consts)

lemma serialize_ok:
  assumes "packet_ok e p"
  shows "serialize e p = Inr (header_bytes e (header p) @ payload p)"
  using assms
  by (auto simp: packet_ok_def serialize_def memcpy_at_def bind_outcome_def Let_def
      sizeof_PacketHeader_def)

lemma header_bytes_of_header: "length bs = 6 \<Longrightarrow> header_bytes e (header_of_bytes e bs) = bs"
proof -
  assume "length bs = 6"
  then obtain a b ws where bs: "bs = a # b # ws" "length ws = 4"
    by (auto simp: numeral_eq_Suc length_Suc_conv)
  then show ?thesis by (simp add: header_bytes_def header_of_bytes_def mem_load)
qed

lemma header_of_bytes_fields:
  assumes "length bs = 6"
  shows "version (header_of_bytes e bs) = bs ! 0"
    and "ntohl e (hdr_length (header_of_bytes e bs)) = be_load32 (drop 2 bs)"
  using assms by (simp_all add: header_of_bytes_def ntohl_load32)

lemma deserialize_wire:
  "deserialize e buf out =
     (if wire_ok buf
      then (True, out\<lparr> header := header_of_bytes e (take 6 buf),
                      payload := take (unat (be_load32 (take 4 (drop 2 buf)))) (drop 6 buf) \<rparr>)
      else (False, out))"
proof (cases "length buf < 6")
  case False
  then have "drop 2 (take 6 buf) = take 4 (drop 2 buf)" by (simp add: drop_take)
  with False show ?thesis
    by (auto simp: deserialize_def wire_ok_def Let_def header_of_bytes_fields
        sizeof_PacketHeader_def)
qed (simp add: deserialize_def wire_ok_def sizeof_PacketHeader_def)

lemma deserialize_ok:
  assumes "deserialize e buf out = (ok, p)" and "packet_ok e out"
  shows "packet_ok e p"
proof (cases "wire_ok buf")
  case True
  define n where "n = be_load32 (take 4 (drop 2 buf))"
  from True have n: "6 \<le> length buf" "6 + unat n \<le> length buf" "n \<le> MAX_PAYLOAD_SIZE" "buf ! 0 = PROTOCOL_VERSION"
    by (simp_all add: wire_ok_def n_def)
  have p: "p = out\<lparr> header := header_of_bytes e (take 6 buf), payload := take (unat n) (drop 6 buf) \<rparr>"
    using assms(1) True by (simp add: deserialize_wire n_def)
  have "get_payload_length e p = n"
    using n(1) by (simp add: p get_payload_length_def header_of_bytes_fields(2) drop_take n_def)
  with n show ?thesis
    by (simp add: packet_ok_def p header_of_bytes_fields(1) word_le_nat_alt)
qed (use assms in \<open>simp add: deserialize_wire\<close>)

lemma packet_from_ok: "packet_from e p \<Longrightarrow> packet_ok e p"
  by (induction rule: packet_from.induct)
    (auto simp: default_packet_ok make_packet_str_def intro: make_packet_ok deserialize_ok)

lemma unat_payload_len:
  "length data \<le> unat MAX_PAYLOAD_SIZE \<Longrightarrow> unat (of_nat (length data) :: u32) = length data"
  by (simp add: unat_of_nat_u32 packet_consts)

lemma wire_format_parts:
  assumes "length data \<le> unat MAX_PAYLOAD_SIZE"
  shows "length (wire_format t data) = 6 + length data"
    and "wire_format t data ! 0 = PROTOCOL_VERSION" and "wire_format t data ! 1 = t"
    and "be_load32 (take 4 (drop 2 (wire_format t data @ rest))) = of_nat (length data)"
    and "drop 6 (wire_format t data @ rest) = data @ rest"
  using assms by (simp_all add: wire_format_def unat_of_nat_u32 packet_consts)

lemma wire_ok_format:
  "length data \<le> unat MAX_PAYLOAD_SIZE \<Longrightarrow> wire_ok (wire_format t data @ rest)"
  using wire_format_parts(1,2) [of data] wire_format_parts(4) [of data t rest]
    unat_payload_len [of data]
  by (auto simp: wire_ok_def nth_append word_le_nat_alt)

lemma wire_ok_iff:
  "wire_ok buf \<longleftrightarrow>
     (\<exists>t data rest. buf = wire_format t data @ rest \<and> length data \<le> unat MAX_PAYLOAD_SIZE)"
proof
  assume ok: "wire_ok buf"
  then have "6 \<le> length buf" by (simp add: wire_ok_def)
  then obtain v t xs where xs: "buf = v # t # xs" "4 \<le> length xs"
    by (cases buf; cases "tl buf") auto
  then obtain ws rest where buf: "buf = v # t # ws @ rest" "length ws = 4"
    using append_take_drop_id [of 4 xs] by (metis length_take min.absorb2)
  define n where "n = unat (be_load32 ws)"
  from ok buf have n: "n \<le> length rest" "n \<le> unat MAX_PAYLOAD_SIZE" "v = PROTOCOL_VERSION"
    by (simp_all add: wire_ok_def n_def word_le_nat_alt)
  moreover have "be_bytes32 (of_nat n) = ws" using buf by (simp add: n_def)
  ultimately have "buf = wire_format t (take n rest) @ drop n rest"
    using buf by (simp add: wire_format_def)
  then show "\<exists>t data rest. buf = wire_format t data @ rest \<and> length data \<le> unat MAX_PAYLOAD_SIZE"
    using n by (metis length_take min.absorb2)
qed (auto intro: wire_ok_format)

lemma wire_ok_strict_prefix:
  assumes "length data \<le> unat MAX_PAYLOAD_SIZE" and "n < length (wire_format t data)"
  shows "\<not> wire_ok (take n (wire_format t data))"
proof
  assume ok: "wire_ok (take n (wire_format t data))"
  then have "6 \<le> n" by (simp add: wire_ok_def)
  then have "take 4 (drop 2 (take n (wire_format t data))) = take 4 (drop 2 (wire_format t data))"
    by (simp add: drop_take min_def)
  with ok assms show False
    using wire_format_parts(4) [of data t "[]"] wire_format_parts(1) [of data]
      unat_payload_len [of data]
    by (simp add: wire_ok_def)
qed

lemma serialize_constructed:
  assumes "make_packet e t data = Inr p"
  shows "serialize e p = Inr (wire_format (packet_type_code t) data)"
proof -
  have "packet_ok e p" using assms by (rule make_packet_ok)
  then have "serialize e p = Inr (header_bytes e (header p) @ payload p)" by (rule serialize_ok)
  moreover have "header_bytes e (header p) @ payload p = wire_format (packet_type_code t) data"
    using assms by (auto simp: make_packet_def header_bytes_def wire_format_def mem32_htonl
        split: if_splits)
  ultimately show ?thesis by simp
qed

text \<open>What is read from a buffer that starts with a packet.\<close>

lemma deserialize_format:
  assumes "length data \<le> unat MAX_PAYLOAD_SIZE"
  shows "\<exists>q. deserialize e (wire_format t data @ rest) out = (True, q) \<and> payload q = data \<and> get_type q = t \<and>
     get_payload_length e q = of_nat (length data) \<and> packet_ok e q"
proof -
  define w where "w = wire_format t data"
  let ?q = "out\<lparr>header := header_of_bytes e (take 6 w), payload := data\<rparr>"
  note parts = wire_format_parts [OF assms, where t = t, folded w_def] and len = unat_payload_len [OF assms]
  have "deserialize e (w @ rest) out = (True, ?q)"
    using parts len wire_ok_format [OF assms, of t rest, folded w_def] by (simp add: deserialize_wire)
  moreover have "get_type ?q = t" "version (header ?q) = PROTOCOL_VERSION"
    using parts by (simp_all add: get_type_def header_of_bytes_def)
  moreover have "get_payload_length e ?q = of_nat (length data)"
    using parts(1) parts(4) [of "[]"]
    by (simp add: get_payload_length_def header_of_bytes_fields(2) drop_take)
  ultimately show ?thesis using len assms by (auto simp: packet_ok_def w_def)
qed

lemma deserialize_constructed:
  assumes "make_packet e1 t data = Inr p" and "serialize e1 p = Inr bs"
  shows "\<exists>q. deserialize e2 (bs @ rest) out = (True, q) \<and> payload q = data \<and>
     get_type q = packet_type_code t \<and> get_payload_length e2 q = of_nat (length data) \<and>
     packet_ok e2 q"
proof -
  from assms(1) have "length data \<le> unat MAX_PAYLOAD_SIZE" by (auto simp: make_packet_def split: if_splits)
  moreover have "bs = wire_format (packet_type_code t) data" using serialize_constructed [OF assms(1)] assms(2) by simp
  ultimately show ?thesis using deserialize_format by blast
qed

section \<open>Properties\<close>

text \<open>
  C5: the bytes \<open>serialize\<close> puts on the wire for a packet the constructor accepted are
  version, type, big-endian length and payload, on a host of either byte order, and no
  write leaves the buffer.
\<close>

theorem serialize_wire_format:
  assumes "make_packet e t data = Inr p"
  shows "serialize e p = Inr (wire_format (packet_type_code t) data)"
  using assms by (rule serialize_constructed)

theorem serialize_wire_format_witness:
  "\<exists>p. make_packet LittleEndian DATA [65] = Inr p \<and>
     serialize LittleEndian p = Inr [1, 3, 0, 0, 0, 1, 65]"
proof -
  obtain p where p: "make_packet LittleEndian DATA [65] = Inr p"
    by (simp add: make_packet_def packet_consts)
  moreover have "wire_format (packet_type_code DATA) [65] = [1, 3, 0, 0, 0, 1, 65]"
    by (simp add: wire_format_def packet_type_code_def be_bytes32_def packet_consts)
  ultimately show ?thesis using serialize_wire_format [OF p] by simp
qed

text \<open>
  C1: round trip between any two hosts: a constructed packet, serialized on one host and
  read on another from a buffer that may hold further bytes, comes back with its type,
  its length and its payload.
\<close>

theorem packet_roundtrip:
  assumes "make_packet e1 t data = Inr p" and "serialize e1 p = Inr bs"
  shows "\<exists>q. deserialize e2 (bs @ rest) out = (True, q) \<and> payload q = data \<and>
     get_type q = packet_type_code t \<and> get_payload_length e2 q = of_nat (length data) \<and>
     packet_ok e2 q"
  using assms by (rule deserialize_constructed)

theorem packet_roundtrip_witness:
  "\<exists>p bs q. make_packet LittleEndian HELLO [7, 8] = Inr p \<and> serialize LittleEndian p = Inr bs \<and>
     deserialize BigEndian (bs @ [9]) default_packet = (True, q) \<and> payload q = [7, 8]"
proof -
  obtain p where p: "make_packet LittleEndian HELLO [7, 8] = Inr p"
    by (simp add: make_packet_def packet_consts)
  then have s: "serialize LittleEndian p = Inr (wire_format (packet_type_code HELLO) [7, 8])"
    by (rule serialize_constructed)
  from packet_roundtrip [OF p s, of BigEndian "[9]" default_packet] p s show ?thesis by blast
qed

text \<open>
  C4: \<open>deserialize\<close> accepts exactly the buffers that start with a complete packet in wire
  format with a payload within \<open>MAX_PAYLOAD_SIZE\<close>. Of such a buffer it stores the type and the payload, whatever
  \<open>out_packet\<close> was before; every other buffer (short header, wrong version, oversized or incomplete payload) is
  rejected and leaves \<open>out_packet\<close> as it was, on either host.
\<close>

theorem deserialize_accepts_iff:
  "(fst (deserialize e buf out) \<longleftrightarrow>
     (\<exists>t data rest. buf = wire_format t data @ rest \<and> length data \<le> unat MAX_PAYLOAD_SIZE)) \<and>
   (\<forall>t data rest. buf = wire_format t data @ rest \<and> length data \<le> unat MAX_PAYLOAD_SIZE \<longrightarrow>
     (\<exists>q. deserialize e buf out = (True, q) \<and> payload q = data \<and> get_type q = t \<and>
       get_payload_length e q = of_nat (length data))) \<and>
   (\<not> fst (deserialize e buf out) \<longrightarrow> snd (deserialize e buf out) = out)"
proof (intro conjI allI impI)
  show "fst (deserialize e buf out) \<longleftrightarrow>
     (\<exists>t data rest. buf = wire_format t data @ rest \<and> length data \<le> unat MAX_PAYLOAD_SIZE)"
    by (simp add: deserialize_wire wire_ok_iff)
  show "\<not> fst (deserialize e buf out) \<Longrightarrow> snd (deserialize e buf out) = out" by (simp add: deserialize_wire split: if_splits)
qed (use deserialize_format in blast)

theorem deserialize_accepts_iff_witness:
  "snd (deserialize BigEndian [2, 3, 0, 0, 0, 0] default_packet) = default_packet \<and>
   (\<exists>q. deserialize BigEndian (wire_format 9 [7] @ [8]) default_packet = (True, q) \<and> payload q = [7] \<and> get_type q = 9)"
proof -
  have "\<not> fst (deserialize BigEndian [2, 3, 0, 0, 0, 0] default_packet)" by (simp add: deserialize_wire wire_ok_def packet_consts)
  moreover have "length [7 :: u8] \<le> unat MAX_PAYLOAD_SIZE" by (simp add: packet_consts)
  ultimately show ?thesis
    using deserialize_accepts_iff [of BigEndian "[2, 3, 0, 0, 0, 0]" default_packet]
      deserialize_accepts_iff [of BigEndian "wire_format 9 [7] @ [8]" default_packet] by blast
qed

text \<open>
  C34: what \<open>deserialize\<close> accepts is bounded: the payload it allocates has at most 65536 bytes
  and lies inside the received buffer, and serializing the result gives back the bytes that
  were read.
\<close>

theorem deserialize_bounds:
  assumes "deserialize e buf out = (True, p)"
  shows "length (payload p) \<le> 65536 \<and> 6 + length (payload p) \<le> length buf \<and>
    serialize e p = Inr (take (6 + length (payload p)) buf)"
proof -
  from assms have ok: "wire_ok buf" by (auto simp: deserialize_wire split: if_splits)
  define n where "n = unat (be_load32 (take 4 (drop 2 buf)))"
  from ok have n: "n \<le> 65536" "6 + n \<le> length buf"
    by (simp_all add: wire_ok_def n_def word_le_nat_alt packet_consts)
  have p: "header p = header_of_bytes e (take 6 buf)" "payload p = take n (drop 6 buf)"
    using assms ok by (auto simp: deserialize_wire n_def)
  have len: "length (payload p) = n" using n p by simp
  have "packet_ok e p"
    using ok n p len
    by (simp add: packet_ok_def get_payload_length_def header_of_bytes_fields wire_ok_def
        n_def drop_take packet_consts)
  then have "serialize e p = Inr (header_bytes e (header p) @ payload p)" by (rule serialize_ok)
  moreover have "header_bytes e (header p) @ payload p = take (6 + n) buf"
    using n by (simp add: p header_bytes_of_header take_add)
  ultimately show ?thesis using n by (simp add: len)
qed

theorem deserialize_bounds_witness:
  "\<exists>p. deserialize LittleEndian [1, 3, 0, 0, 0, 1, 65, 66] default_packet = (True, p) \<and>
     length (payload p) \<le> 65536 \<and> serialize LittleEndian p = Inr [1, 3, 0, 0, 0, 1, 65]"
proof -
  let ?buf = "[1, 3, 0, 0, 0, 1, 65, 66] :: u8 list"
  have "wire_ok ?buf" by (simp add: wire_ok_def packet_consts)
  then obtain p where p: "deserialize LittleEndian ?buf default_packet = (True, p)"
    by (simp add: deserialize_wire)
  then have "payload p = [65]" using \<open>wire_ok ?buf\<close>
    by (auto simp: deserialize_wire default_packet_def)
  with p deserialize_bounds [OF p] show ?thesis by auto
qed

text \<open>
  C35: framing: while only part of a packet has arrived, \<open>deserialize\<close> reports failure and
  leaves the output packet as it was, whatever the cut.
\<close>

theorem deserialize_partial:
  assumes "make_packet e1 t data = Inr p" and "serialize e1 p = Inr bs" and "n < length bs"
  shows "deserialize e2 (take n bs) out = (False, out)"
proof -
  from assms(1) have "length data \<le> unat MAX_PAYLOAD_SIZE"
    by (auto simp: make_packet_def split: if_splits)
  moreover have "bs = wire_format (packet_type_code t) data"
    using serialize_constructed [OF assms(1)] assms(2) by simp
  ultimately show ?thesis
    using assms(3) by (simp add: deserialize_wire wire_ok_strict_prefix)
qed

theorem deserialize_partial_witness:
  "deserialize BigEndian (take 6 (wire_format 1 [7, 8])) default_packet = (False, default_packet)"
proof -
  obtain p where p: "make_packet LittleEndian HELLO [7, 8] = Inr p"
    by (simp add: make_packet_def packet_consts)
  have s: "serialize LittleEndian p = Inr (wire_format 1 [7, 8])"
    using serialize_constructed [OF p] by (simp add: packet_type_code_def)
  show ?thesis by (rule deserialize_partial [OF p s]) (simp add: wire_format_def)
qed

text \<open>
  the data members are public, and \<open>serialize\<close> trusts the length field: for a packet
  whose payload is longer than the field says, the second \<open>memcpy\<close> writes past the end of
  the buffer.
\<close>

theorem serialize_overflow:
  assumes "unat (get_payload_length e p) < length (payload p)"
  shows "serialize e p = Inl Undefined"
  using assms
  by (auto simp: serialize_def memcpy_at_def bind_outcome_def Let_def sizeof_PacketHeader_def)

theorem serialize_overflow_witness:
  "serialize LittleEndian (default_packet\<lparr>payload := [1]\<rparr>) = Inl Undefined"
  by (rule serialize_overflow)
    (simp add: get_payload_length_def default_packet_def ntohl_def bswap32_def be_bytes32_def)

text \<open>
  C6: every packet a program obtains through the interface is well formed: however it was
  constructed, or parsed into from any bytes, successfully or not, it has the current version, its
  length field is the length of its payload, the payload is within the limit, and \<open>serialize\<close> stays
  within the buffer it allocates.
\<close>

theorem packets_well_formed:
  assumes "packet_from e p"
  shows "packet_ok e p \<and> serialize e p = Inr (header_bytes e (header p) @ payload p)"
  using packet_from_ok [OF assms] serialize_ok by blast

theorem packets_well_formed_witness:
  "packet_ok LittleEndian (snd (deserialize LittleEndian [1, 3, 0, 0, 0, 1, 65] default_packet))"
  using packets_well_formed [OF packet_from.from_wire [OF packet_from.from_default surjective_pairing]] by blast

end
