(* ===== verification/Route_Table.thy ===== *)
theory Route_Table
  imports Gateway_Prelude
begin

text \<open>
  The routing engine of \<open>include/routing/RouteTable.hpp\<close>: a binary trie over the bits of
  IPv4 addresses with longest-prefix-match look-up, and the demonstration program
  \<open>src/phase10_routing_engine.cpp\<close>. \<open>inet_pton\<close> is a parameter: it maps a C string to the
  32-bit value it stores in network byte order, or \<open>None\<close> when it does not return 1.
  The reference specification is a linear scan of the routes in the order in which they
  were added; the trie is proved to compute the same answer.
\<close>

section \<open>Data and operations\<close>

record Route =
  network :: u32
  route_mask :: u32
  prefix_len :: int
  next_hop :: string

definition matches :: "Route \<Rightarrow> u32 \<Rightarrow> bool" where
  "matches r dest_ip \<longleftrightarrow> dest_ip AND route_mask r = network r"

datatype TrieNode = TrieNode (child0: "TrieNode option") (child1: "TrieNode option")
  (route: "Route option")

definition new_node :: TrieNode where
  "new_node = TrieNode None None None"

definition child :: "bool \<Rightarrow> TrieNode \<Rightarrow> TrieNode option" where
  "child d n = (if d then child1 n else child0 n)"

definition set_child :: "bool \<Rightarrow> TrieNode \<Rightarrow> TrieNode \<Rightarrow> TrieNode" where
  "set_child d c n =
     (if d then TrieNode (child0 n) (Some c) (route n)
      else TrieNode (Some c) (child1 n) (route n))"

definition set_route :: "Route \<Rightarrow> TrieNode \<Rightarrow> TrieNode" where
  "set_route r n = TrieNode (child0 n) (child1 n) (Some r)"

text \<open>\<open>(w >> i) & 1\<close>, used as an index into the two children.\<close>

definition direction :: "u32 \<Rightarrow> nat \<Rightarrow> bool" where
  "direction w i \<longleftrightarrow> drop_bit i w AND 1 = 1"

text \<open>The two loops over the bits. The second argument is the number of bits not yet
  looked at, so that the loop variable \<open>bit\<close> is one less; the insertion loop runs for
  \<open>prefix_len\<close> iterations.\<close>

definition child_or_new :: "bool \<Rightarrow> TrieNode \<Rightarrow> TrieNode" where
  "child_or_new d n = (case child d n of None \<Rightarrow> new_node | Some c \<Rightarrow> c)"

fun insert_walk :: "u32 \<Rightarrow> nat \<Rightarrow> nat \<Rightarrow> Route \<Rightarrow> TrieNode \<Rightarrow> TrieNode" where
  "insert_walk net b 0 r node = set_route r node"
| "insert_walk net b (Suc p) r node =
     (let d = direction net (b - 1)
      in set_child d (insert_walk net (b - 1) p r (child_or_new d node)) node)"

definition pick :: "Route option \<Rightarrow> Route option \<Rightarrow> Route option" where
  "pick found best = (case found of Some r \<Rightarrow> Some r | None \<Rightarrow> best)"

fun lookup_walk :: "u32 \<Rightarrow> nat \<Rightarrow> TrieNode option \<Rightarrow> Route option \<Rightarrow> Route option" where
  "lookup_walk dest b None best = best"
| "lookup_walk dest 0 (Some node) best = pick (route node) best"
| "lookup_walk dest (Suc b) (Some node) best =
     lookup_walk dest b (child (direction dest b) node) (pick (route node) best)"

definition lookup_ip :: "TrieNode \<Rightarrow> u32 \<Rightarrow> Route option" where
  "lookup_ip root dest_ip = lookup_walk dest_ip 32 (Some root) None"

definition prefix_mask :: "int \<Rightarrow> u32 outcome" where
  "prefix_mask p =
     (if p = 0 then Inr 0
      else if 0 < p \<and> p \<le> 32 then Inr (push_bit (nat (32 - p)) (NOT 0))
      else Inl Undefined)"

definition split_cidr :: "string \<Rightarrow> (string \<times> int) outcome" where
  "split_cidr cidr =
     (let ip_str = takeWhile (\<lambda>c. c \<noteq> CHR ''/'') cidr in
      if length ip_str = length cidr then Inr (cidr, 32)
      else bind_outcome (stoi (drop (length ip_str + 1) cidr)) (\<lambda>p. Inr (ip_str, p)))"

definition add_route ::
  "(string \<Rightarrow> u32 option) \<Rightarrow> endian \<Rightarrow> string \<Rightarrow> string \<Rightarrow> TrieNode \<Rightarrow> (bool \<times> TrieNode) outcome"
where
  "add_route inet_pton e cidr hop root =
     bind_outcome (split_cidr cidr) (\<lambda>(ip_str, p).
       case inet_pton (c_string ip_str) of
         None \<Rightarrow> Inr (False, root)
       | Some raw \<Rightarrow>
           let network_ip = ntohl e raw in
           bind_outcome (prefix_mask p) (\<lambda>m.
             let net = network_ip AND m;
                 r = \<lparr> network = net, route_mask = m, prefix_len = p, next_hop = hop \<rparr>
             in Inr (True, insert_walk net 32 (nat p) r root)))"

definition lookup :: "(string \<Rightarrow> u32 option) \<Rightarrow> endian \<Rightarrow> TrieNode \<Rightarrow> string \<Rightarrow> Route option" where
  "lookup inet_pton e root dest_ip_str =
     (case inet_pton (c_string dest_ip_str) of
        None \<Rightarrow> None
      | Some raw \<Rightarrow> lookup_ip root (ntohl e raw))"

text \<open>\<open>RoutingTable()\<close>: a root node without children or route.\<close>

definition empty_table :: TrieNode where
  "empty_table = new_node"

text \<open>\<open>phase10_routing_engine.cpp\<close>: the table \<open>main\<close> builds, the addresses it looks up, and
  the line \<open>print_lookup\<close> prints (the network is printed from its network-order value).\<close>

datatype LookupLine = MATCH string string u32 int | NO_ROUTE string

definition print_lookup ::
  "(string \<Rightarrow> u32 option) \<Rightarrow> endian \<Rightarrow> TrieNode \<Rightarrow> string \<Rightarrow> LookupLine" where
  "print_lookup inet_pton e table dest =
     (case lookup inet_pton e table dest of
        Some r \<Rightarrow> MATCH dest (next_hop r) (htonl e (network r)) (prefix_len r)
      | None \<Rightarrow> NO_ROUTE dest)"

definition phase10_routes :: "(string \<times> string) list" where
  "phase10_routes =
     [(''0.0.0.0/0'', ''eth0-default''), (''10.0.0.0/8'', ''eth1-internal''),
      (''10.10.0.0/16'', ''eth2-datacenter''), (''10.10.1.0/24'', ''eth3-subnet''),
      (''192.168.0.0/16'', ''eth4-home''), (''192.168.1.0/24'', ''eth5-office''),
      (''172.16.0.0/12'', ''eth6-cloud'')]"

definition phase10_lookups :: "string list" where
  "phase10_lookups =
     [''10.10.1.55'', ''10.10.2.1'', ''10.99.0.1'', ''192.168.1.100'', ''192.168.5.5'', ''8.8.8.8'',
      ''172.20.1.1'', ''999.999.999.999'', ''127.0.0.1'', ''255.255.255.255'']"

section \<open>Specification\<close>

text \<open>A route as \<open>add_route\<close> builds it for a prefix length in range.\<close>

definition route_ok :: "Route \<Rightarrow> bool" where
  "route_ok r \<longleftrightarrow> 0 \<le> prefix_len r \<and> prefix_len r \<le> 32 \<and>
     route_mask r = push_bit (nat (32 - prefix_len r)) (NOT 0) \<and>
     network r AND route_mask r = network r"

text \<open>The table as the list of routes in order of insertion, scanned linearly: a matching
  route replaces the best one so far unless its prefix is shorter.\<close>

definition prefer_route :: "Route \<Rightarrow> Route option \<Rightarrow> Route option" where
  "prefer_route r old =
     (case old of None \<Rightarrow> Some r | Some q \<Rightarrow> if prefix_len q \<le> prefix_len r then Some r else Some q)"

fun lpm_scan :: "Route list \<Rightarrow> u32 \<Rightarrow> Route option \<Rightarrow> Route option" where
  "lpm_scan [] dest best = best"
| "lpm_scan (r # rs) dest best =
     lpm_scan rs dest (if matches r dest then prefer_route r best else best)"

definition insert_route :: "Route \<Rightarrow> TrieNode \<Rightarrow> TrieNode" where
  "insert_route r root = insert_walk (network r) 32 (nat (prefix_len r)) r root"

text \<open>Trie invariant: a route is stored at the depth of its prefix length.\<close>

definition route_depth_ok :: "nat \<Rightarrow> TrieNode \<Rightarrow> bool" where
  "route_depth_ok b n \<longleftrightarrow> (case route n of None \<Rightarrow> True | Some r \<Rightarrow> prefix_len r = 32 - int b)"

fun node_ok :: "nat \<Rightarrow> TrieNode \<Rightarrow> bool" where
  "node_ok 0 n = route_depth_ok 0 n"
| "node_ok (Suc b) n \<longleftrightarrow>
     route_depth_ok (Suc b) n \<and>
     (case child0 n of None \<Rightarrow> True | Some c \<Rightarrow> node_ok b c) \<and>
     (case child1 n of None \<Rightarrow> True | Some c \<Rightarrow> node_ok b c)"

abbreviation table_ok :: "TrieNode \<Rightarrow> bool" where
  "table_ok \<equiv> node_ok 32"

text \<open>The first \<open>p\<close> of the top \<open>b\<close> bits of two addresses agree.\<close>

fun agree :: "u32 \<Rightarrow> u32 \<Rightarrow> nat \<Rightarrow> nat \<Rightarrow> bool" where
  "agree x y b 0 = True"
| "agree x y b (Suc p) \<longleftrightarrow> direction x (b - 1) = direction y (b - 1) \<and> agree x y (b - 1) p"

text \<open>The look-up from a node on, with a missing child read as an empty node.\<close>

definition below :: "u32 \<Rightarrow> nat \<Rightarrow> TrieNode \<Rightarrow> Route option" where
  "below d b n = lookup_walk d b (Some n) None"

text \<open>What a CIDR string denotes: an exception, no route (invalid address), or a route; a
  sequence of \<open>add_route\<close> calls; the routes it accepted.\<close>

definition cidr_route ::
  "(string \<Rightarrow> u32 option) \<Rightarrow> endian \<Rightarrow> string \<Rightarrow> string \<Rightarrow> Route option outcome" where
  "cidr_route inet_pton e cidr hop =
     bind_outcome (split_cidr cidr) (\<lambda>(ip_str, p).
       case inet_pton (c_string ip_str) of
         None \<Rightarrow> Inr None
       | Some raw \<Rightarrow> bind_outcome (prefix_mask p) (\<lambda>m.
           Inr (Some \<lparr> network = ntohl e raw AND m, route_mask = m, prefix_len = p,
                       next_hop = hop \<rparr>)))"

fun add_routes ::
  "(string \<Rightarrow> u32 option) \<Rightarrow> endian \<Rightarrow> (string \<times> string) list \<Rightarrow> TrieNode \<Rightarrow> TrieNode outcome" where
  "add_routes inet_pton e [] t = Inr t"
| "add_routes inet_pton e (c # cs) t =
     bind_outcome (add_route inet_pton e (fst c) (snd c) t) (\<lambda>(_, t').
       add_routes inet_pton e cs t')"

fun accepted_routes ::
  "(string \<Rightarrow> u32 option) \<Rightarrow> endian \<Rightarrow> (string \<times> string) list \<Rightarrow> Route list" where
  "accepted_routes inet_pton e [] = []"
| "accepted_routes inet_pton e (c # cs) =
     (case cidr_route inet_pton e (fst c) (snd c) of
        Inr (Some r) \<Rightarrow> r # accepted_routes inet_pton e cs
      | _ \<Rightarrow> accepted_routes inet_pton e cs)"

text \<open>A concrete address function for the witnesses: the documented values of \<open>inet_pton\<close> at
  the addresses the programs use.\<close>

definition known_addrs :: "(string \<times> u32) list" where
  "known_addrs =
     [(''0.0.0.0'', 0), (''10.0.0.0'', 0x0A000000), (''10.10.0.0'', 0x0A0A0000),
      (''10.10.1.0'', 0x0A0A0100), (''192.168.0.0'', 0xC0A80000), (''192.168.1.0'', 0xC0A80100),
      (''172.16.0.0'', 0xAC100000), (''10.10.1.55'', 0x0A0A0137), (''10.10.2.1'', 0x0A0A0201),
      (''10.99.0.1'', 0x0A630001), (''192.168.1.100'', 0xC0A80164), (''192.168.5.5'', 0xC0A80505),
      (''8.8.8.8'', 0x08080808), (''172.20.1.1'', 0xAC140101), (''127.0.0.1'', 0x7F000001),
      (''255.255.255.255'', 0xFFFFFFFF)]"

definition known_pton :: "endian \<Rightarrow> string \<Rightarrow> u32 option" where
  "known_pton e s = map_option (htonl e) (map_of known_addrs s)"

section \<open>Lemmas\<close>

lemma direction_bit [simp]: "direction w i \<longleftrightarrow> bit w i"
  by (simp add: direction_def and_one_eq bit_iff_odd_drop_bit odd_iff_mod_2_eq_one)

lemma child_set_child [simp]:
  "child d (set_child d' c n) = (if d = d' then Some c else child d n)"
  by (simp add: child_def set_child_def)

lemma child_set_route [simp]: "child d (set_route r n) = child d n"
  by (simp add: child_def set_route_def)

lemma route_set [simp]: "route (set_child d c n) = route n" "route (set_route r n) = Some r"
  by (simp_all add: set_child_def set_route_def)

lemma new_node_sel [simp]: "child d new_node = None" "route new_node = None"
  by (simp_all add: new_node_def child_def)

lemma node_ok_Suc:
  "node_ok (Suc b) n \<longleftrightarrow> route_depth_ok (Suc b) n \<and> (\<forall>d c. child d n = Some c \<longrightarrow> node_ok b c)"
  by (auto simp: child_def split: option.splits)

declare node_ok.simps(2) [simp del]

lemma node_ok_new [simp]: "node_ok b new_node"
  by (cases b) (simp_all add: node_ok_Suc route_depth_ok_def)

lemma node_ok_child_or_new: "node_ok (Suc b) n \<Longrightarrow> node_ok b (child_or_new d n)"
  by (simp add: child_or_new_def node_ok_Suc split: option.split)

lemma node_ok_set_child: "node_ok (Suc b) n \<Longrightarrow> node_ok b c \<Longrightarrow> node_ok (Suc b) (set_child d c n)"
  by (simp add: node_ok_Suc route_depth_ok_def)

lemma node_ok_set_route:
  "node_ok b n \<Longrightarrow> prefix_len r = 32 - int b \<Longrightarrow> node_ok b (set_route r n)"
  by (cases b) (simp_all add: node_ok_Suc route_depth_ok_def)

lemma node_ok_insert_walk:
  "node_ok b n \<Longrightarrow> p \<le> b \<Longrightarrow> prefix_len r = 32 - int b + int p \<Longrightarrow>
   node_ok b (insert_walk net b p r n)"
proof (induction p arbitrary: b n)
  case 0
  then show ?case by (simp add: node_ok_set_route)
next
  case (Suc p)
  then obtain b' where b: "b = Suc b'" by (cases b) auto
  with Suc.prems have "node_ok b' (insert_walk net b' p r (child_or_new (bit net b') n))"
    by (intro Suc.IH node_ok_child_or_new) simp_all
  with b Suc.prems show ?case by (simp add: Let_def node_ok_set_child)
qed

lemma pick_simps [simp]: "pick (Some r) best = Some r" "pick None best = best" "pick x None = x"
  by (simp_all add: pick_def split: option.split)

lemma pick_assoc: "pick x (pick y z) = pick (pick x y) z"
  by (simp add: pick_def split: option.split)

lemma lookup_walk_pick: "lookup_walk d b n best = pick (lookup_walk d b n None) best"
proof (induction b arbitrary: n best)
  case 0
  show ?case by (cases n) simp_all
next
  case (Suc b)
  show ?case
  proof (cases n)
    case (Some m)
    let ?c = "child (bit d b) m"
    have "lookup_walk d (Suc b) n best = pick (lookup_walk d b ?c None) (pick (route m) best)"
      using Suc [of ?c "pick (route m) best"] Some by simp
    also have "\<dots> = pick (pick (lookup_walk d b ?c None) (route m)) best"
      by (rule pick_assoc)
    also have "pick (lookup_walk d b ?c None) (route m) = lookup_walk d (Suc b) n None"
      using Suc [of ?c "route m"] Some by simp
    finally show ?thesis .
  qed simp
qed

lemma below_0 [simp]: "below d 0 n = route n"
  by (simp add: below_def)

lemma below_new [simp]: "below d b new_node = None"
  by (cases b) (simp_all add: below_def)

lemma below_Suc: "below d (Suc b) n = pick (below d b (child_or_new (bit d b) n)) (route n)"
proof -
  have "lookup_walk d b (child (bit d b) n) None = below d b (child_or_new (bit d b) n)"
    by (cases "child (bit d b) n") (simp_all add: child_or_new_def, simp add: below_def)
  then show ?thesis
    using lookup_walk_pick [of d b "child (bit d b) n" "route n"] by (simp add: below_def)
qed

lemma child_or_new_set [simp]:
  "child_or_new d (set_child d' c n) = (if d = d' then c else child_or_new d n)"
  "child_or_new d (set_route r n) = child_or_new d n"
  by (simp_all add: child_or_new_def)

lemma below_depth: "node_ok b n \<Longrightarrow> below d b n = Some r \<Longrightarrow> 32 - int b \<le> prefix_len r"
proof (induction b arbitrary: n)
  case (Suc b)
  let ?c = "child_or_new (bit d b) n"
  show ?case
  proof (cases "below d b ?c")
    case None
    with Suc.prems show ?thesis by (auto simp: below_Suc node_ok_Suc route_depth_ok_def)
  next
    case (Some r')
    with Suc.prems have "r' = r" by (simp add: below_Suc)
    with Some Suc.IH [OF node_ok_child_or_new [OF Suc.prems(1)]] show ?thesis by fastforce
  qed
qed (simp add: route_depth_ok_def)

lemma below_insert:
  "node_ok b n \<Longrightarrow> p \<le> b \<Longrightarrow> prefix_len r = 32 - int b + int p \<Longrightarrow>
   below d b (insert_walk net b p r n) =
     (if agree net d b p then prefer_route r (below d b n) else below d b n)"
proof (induction p arbitrary: b n)
  case 0
  show ?case
  proof (cases b)
    case 0
    with "0.prems" show ?thesis
      by (auto simp: prefer_route_def route_depth_ok_def split: option.split)
  next
    case (Suc b')
    have deep: "\<not> prefix_len q \<le> prefix_len r" if "below d b' (child_or_new (bit d b') n) = Some q" for q
      using below_depth [OF node_ok_child_or_new that] "0.prems" Suc by simp
    show ?thesis
      using "0.prems" Suc deep
      by (cases "below d b' (child_or_new (bit d b') n)")
        (auto simp: below_Suc prefer_route_def node_ok_Suc route_depth_ok_def split: option.split)
  qed
next
  case (Suc p)
  then obtain b' where b: "b = Suc b'" by (cases b) auto
  let ?c = "\<lambda>v. child_or_new v n"
  have IH: "below d b' (insert_walk net b' p r (?c (bit net b'))) =
      (if agree net d b' p then prefer_route r (below d b' (?c (bit net b'))) else below d b' (?c (bit net b')))"
    using Suc.prems b by (intro Suc.IH node_ok_child_or_new) simp_all
  have "prefix_len q \<le> prefix_len r" if "route n = Some q" for q
    using Suc.prems b that by (simp add: node_ok_Suc route_depth_ok_def)
  then have "pick (prefer_route r x) (route n) = prefer_route r (pick x (route n))" for x
    by (cases x; cases "route n") (auto simp: prefer_route_def)
  then show ?case
    using IH b by (auto simp: below_Suc Let_def)
qed

lemma agree_iff:
  "p \<le> b \<Longrightarrow> agree x y b p \<longleftrightarrow> (\<forall>i. b - p \<le> i \<and> i < b \<longrightarrow> bit x i = bit y i)"
proof (induction p arbitrary: b)
  case (Suc p)
  then obtain b' where b: "b = Suc b'" by (cases b) auto
  with Suc have "agree x y b' p \<longleftrightarrow> (\<forall>i. b' - p \<le> i \<and> i < b' \<longrightarrow> bit x i = bit y i)" by simp
  moreover have "b' - p \<le> i \<and> i < Suc b' \<longleftrightarrow> (b' - p \<le> i \<and> i < b') \<or> i = b'" for i
    by auto
  ultimately show ?case using b by auto
qed auto

lemma agree_matches:
  assumes "route_ok r"
  shows "agree (network r) d 32 (nat (prefix_len r)) \<longleftrightarrow> matches r d"
proof -
  let ?k = "nat (32 - prefix_len r)"
  have k: "32 - nat (prefix_len r) = ?k" and p: "nat (prefix_len r) \<le> 32"
    using assms by (auto simp: route_ok_def nat_diff_distrib)
  have m: "route_mask r = push_bit ?k (NOT 0)" and n: "network r AND route_mask r = network r"
    using assms unfolding route_ok_def by blast+
  have net: "bit (network r) i \<longleftrightarrow> bit (network r) i \<and> ?k \<le> i" if "i < 32" for i
  proof -
    have "bit (network r) i \<longleftrightarrow> bit (network r AND route_mask r) i" by (simp only: n)
    then show ?thesis using that by (simp add: m bit_simps not_less)
  qed
  have "matches r d \<longleftrightarrow> (\<forall>i<32. bit d i \<and> ?k \<le> i \<longleftrightarrow> bit (network r) i)"
    by (auto simp: matches_def m bit_eq_iff bit_simps not_less)
  also have "\<dots> \<longleftrightarrow> (\<forall>i. ?k \<le> i \<and> i < 32 \<longrightarrow> bit (network r) i = bit d i)"
    using net by blast
  finally show ?thesis using agree_iff [OF p, of "network r" d] k by simp
qed

lemma lookup_insert_route:
  assumes "table_ok t" and "route_ok r"
  shows "lookup_ip (insert_route r t) d =
    (if matches r d then prefer_route r (lookup_ip t d) else lookup_ip t d)"
  using below_insert [of 32 t "nat (prefix_len r)" r d "network r"] agree_matches [of r d] assms
  by (auto simp: lookup_ip_def insert_route_def below_def route_ok_def)

lemma table_ok_insert: "table_ok t \<Longrightarrow> route_ok r \<Longrightarrow> table_ok (insert_route r t)"
  unfolding insert_route_def by (rule node_ok_insert_walk) (auto simp: route_ok_def)

lemma prefix_mask_eq:
  "prefix_mask p = (if 0 \<le> p \<and> p \<le> 32 then Inr (push_bit (nat (32 - p)) (NOT 0)) else Inl Undefined)"
proof (cases "p = 0")
  case True
  moreover have "(push_bit 32 (NOT 0) :: u32) = 0"
    by (rule bit_word_eqI) (simp add: bit_simps)
  ultimately show ?thesis by (simp add: prefix_mask_def)
qed (simp add: prefix_mask_def)

lemma cidr_route_ok: "cidr_route pton e cidr hop = Inr (Some r) \<Longrightarrow> route_ok r"
  by (auto simp: cidr_route_def bind_outcome_def prefix_mask_eq route_ok_def ac_simps
      split: sum.splits option.splits if_splits)

lemma add_route_cidr:
  "add_route pton e cidr hop t =
     bind_outcome (cidr_route pton e cidr hop) (\<lambda>x.
       Inr (case x of None \<Rightarrow> (False, t) | Some r \<Rightarrow> (True, insert_route r t)))"
  by (auto simp: add_route_def cidr_route_def bind_outcome_def insert_route_def Let_def
      split: sum.split option.split prod.split)

lemma table_ok_empty [simp]: "table_ok empty_table"
  by (simp add: empty_table_def)

lemma lookup_empty [simp]: "lookup_ip empty_table d = None"
  using below_new [of d 32] by (simp add: lookup_ip_def empty_table_def below_def)

lemma lpm_scan_result:
  assumes "lpm_scan rs d best = x" and "\<And>q. best = Some q \<Longrightarrow> matches q d"
  shows "(case x of
     None \<Rightarrow> best = None \<and> (\<forall>q \<in> set rs. \<not> matches q d)
   | Some r \<Rightarrow> matches r d \<and> (r \<in> set rs \<or> best = Some r) \<and>
       (\<forall>q. q \<in> set rs \<or> best = Some q \<longrightarrow> matches q d \<longrightarrow> prefix_len q \<le> prefix_len r))"
  using assms
proof (induction rs arbitrary: best)
  case (Cons r rs)
  then show ?case
    by (cases "matches r d"; cases best)
      (fastforce simp: prefer_route_def split: option.splits if_splits)+
qed (auto split: option.split)

subsection \<open>The contract of a longest-prefix-match table\<close>

text \<open>What a routing table promises: an insertion changes exactly the look-ups its route
  covers. Longest-prefix-match behaviour of any table built by insertions follows.\<close>

locale lpm_table =
  fixes empty :: "'t"
    and insert :: "Route \<Rightarrow> 't \<Rightarrow> 't"
    and look :: "'t \<Rightarrow> u32 \<Rightarrow> Route option"
    and ok :: "'t \<Rightarrow> bool"
  assumes ok_empty: "ok empty"
    and ok_insert: "ok t \<Longrightarrow> route_ok r \<Longrightarrow> ok (insert r t)"
    and look_empty: "look empty d = None"
    and look_insert: "ok t \<Longrightarrow> route_ok r \<Longrightarrow>
      look (insert r t) d = (if matches r d then prefer_route r (look t d) else look t d)"
begin

lemma fold_scan:
  assumes "ok t" and "\<forall>r \<in> set rs. route_ok r"
  shows "ok (fold insert rs t) \<and> look (fold insert rs t) d = lpm_scan rs d (look t d)"
  using assms by (induction rs arbitrary: t) (simp_all add: ok_insert look_insert)

lemma scan: "\<forall>r \<in> set rs. route_ok r \<Longrightarrow> look (fold insert rs empty) d = lpm_scan rs d None"
  using fold_scan [OF ok_empty, of rs d] by (simp add: look_empty)

lemma longest:
  assumes "\<forall>r \<in> set rs. route_ok r"
  shows "case look (fold insert rs empty) d of
      None \<Rightarrow> (\<forall>q \<in> set rs. \<not> matches q d)
    | Some r \<Rightarrow> r \<in> set rs \<and> matches r d \<and>
        (\<forall>q \<in> set rs. matches q d \<longrightarrow> prefix_len q \<le> prefix_len r)"
  using lpm_scan_result [OF scan [OF assms, symmetric], of d] by (auto split: option.splits)

end

interpretation trie: lpm_table empty_table insert_route lookup_ip table_ok
  by unfold_locales (simp_all add: table_ok_insert lookup_insert_route)

text \<open>A run of \<open>add_route\<close> calls is a fold of trie insertions over the accepted routes.\<close>

lemma accepted_ok: "\<forall>r \<in> set (accepted_routes pton e cs). route_ok r"
  by (induction cs) (auto dest: cidr_route_ok split: sum.split option.split)

lemma add_routes_fold:
  "add_routes pton e cs t = Inr t' \<Longrightarrow> t' = fold insert_route (accepted_routes pton e cs) t"
  by (induction cs arbitrary: t)
    (auto simp: add_route_cidr bind_outcome_def split: sum.splits option.splits)

lemma split_phase10:
  "map (\<lambda>(c, h). split_cidr c) phase10_routes =
     [Inr (''0.0.0.0'', 0), Inr (''10.0.0.0'', 8), Inr (''10.10.0.0'', 16), Inr (''10.10.1.0'', 24),
      Inr (''192.168.0.0'', 16), Inr (''192.168.1.0'', 24), Inr (''172.16.0.0'', 12)]"
  by code_simp

lemma c_string_known: "(s, w) \<in> set known_addrs \<Longrightarrow> c_string s = s"
  by (auto simp: known_addrs_def c_string_def)

lemma accepted_phase10:
  assumes "\<forall>(s, w) \<in> set known_addrs. pton s = Some (htonl e w)"
  shows "accepted_routes pton e phase10_routes =
     [\<lparr>network = 0, route_mask = 0, prefix_len = 0, next_hop = ''eth0-default''\<rparr>,
      \<lparr>network = 0x0A000000, route_mask = 0xFF000000, prefix_len = 8, next_hop = ''eth1-internal''\<rparr>,
      \<lparr>network = 0x0A0A0000, route_mask = 0xFFFF0000, prefix_len = 16, next_hop = ''eth2-datacenter''\<rparr>,
      \<lparr>network = 0x0A0A0100, route_mask = 0xFFFFFF00, prefix_len = 24, next_hop = ''eth3-subnet''\<rparr>,
      \<lparr>network = 0xC0A80000, route_mask = 0xFFFF0000, prefix_len = 16, next_hop = ''eth4-home''\<rparr>,
      \<lparr>network = 0xC0A80100, route_mask = 0xFFFFFF00, prefix_len = 24, next_hop = ''eth5-office''\<rparr>,
      \<lparr>network = 0xAC100000, route_mask = 0xFFF00000, prefix_len = 12, next_hop = ''eth6-cloud''\<rparr>]"
  using assms split_phase10
  by (simp add: phase10_routes_def known_addrs_def cidr_route_def bind_outcome_def c_string_def
      prefix_mask_def mask_eq_exp_minus_1)

lemma add_phase10:
  assumes "\<forall>(s, w) \<in> set known_addrs. pton s = Some (htonl e w)"
  shows "\<exists>t. add_routes pton e phase10_routes empty_table = Inr t"
  using assms split_phase10
  by (simp add: phase10_routes_def known_addrs_def add_route_cidr cidr_route_def bind_outcome_def
      c_string_def prefix_mask_def)

lemma phase10_scan:
  assumes "\<forall>(s, w) \<in> set known_addrs. pton s = Some (htonl e w)"
  defines "scan \<equiv> \<lambda>d. lpm_scan (accepted_routes pton e phase10_routes) d None"
  shows "scan 0x0A0A0137 =
      Some \<lparr>network = 0x0A0A0100, route_mask = 0xFFFFFF00, prefix_len = 24, next_hop = ''eth3-subnet''\<rparr>"
    and "scan 0x0A0A0201 =
      Some \<lparr>network = 0x0A0A0000, route_mask = 0xFFFF0000, prefix_len = 16, next_hop = ''eth2-datacenter''\<rparr>"
    and "scan 0x0A630001 =
      Some \<lparr>network = 0x0A000000, route_mask = 0xFF000000, prefix_len = 8, next_hop = ''eth1-internal''\<rparr>"
    and "scan 0xC0A80164 =
      Some \<lparr>network = 0xC0A80100, route_mask = 0xFFFFFF00, prefix_len = 24, next_hop = ''eth5-office''\<rparr>"
    and "scan 0xC0A80505 =
      Some \<lparr>network = 0xC0A80000, route_mask = 0xFFFF0000, prefix_len = 16, next_hop = ''eth4-home''\<rparr>"
    and "scan 0x08080808 =
      Some \<lparr>network = 0, route_mask = 0, prefix_len = 0, next_hop = ''eth0-default''\<rparr>"
    and "scan 0xAC140101 =
      Some \<lparr>network = 0xAC100000, route_mask = 0xFFF00000, prefix_len = 12, next_hop = ''eth6-cloud''\<rparr>"
    and "scan 0x7F000001 =
      Some \<lparr>network = 0, route_mask = 0, prefix_len = 0, next_hop = ''eth0-default''\<rparr>"
    and "scan 0xFFFFFFFF =
      Some \<lparr>network = 0, route_mask = 0, prefix_len = 0, next_hop = ''eth0-default''\<rparr>"
  unfolding scan_def accepted_phase10 [OF assms(1)]
  by (simp_all add: matches_def prefer_route_def)

lemma known_pton_ok: "\<forall>(s, w) \<in> set known_addrs. known_pton e s = Some (htonl e w)"
  by (simp add: known_pton_def known_addrs_def)

section \<open>Properties\<close>

text \<open>
  C2: the trie agrees with the reference: after any sequence of \<open>add_route\<close> calls on an
  empty table that throws no exception, \<open>lookup_ip\<close> returns for every address what the
  linear scan of the accepted routes returns.
\<close>

theorem trie_refines_scan:
  assumes "add_routes pton e cs empty_table = Inr t"
  shows "lookup_ip t d = lpm_scan (accepted_routes pton e cs) d None"
  using add_routes_fold [OF assms] trie.scan [OF accepted_ok] by simp

text \<open>
  C3: longest prefix match: a look-up that succeeds returns an accepted route that covers the
  address, and no accepted route that covers it has a longer prefix; it fails exactly when no
  accepted route covers the address.
\<close>

theorem lookup_longest_prefix:
  assumes "add_routes pton e cs empty_table = Inr t"
  shows "case lookup_ip t d of
      None \<Rightarrow> (\<forall>q \<in> set (accepted_routes pton e cs). \<not> matches q d)
    | Some r \<Rightarrow> r \<in> set (accepted_routes pton e cs) \<and> matches r d \<and>
        (\<forall>q \<in> set (accepted_routes pton e cs). matches q d \<longrightarrow> prefix_len q \<le> prefix_len r)"
  using add_routes_fold [OF assms] trie.longest [OF accepted_ok, of pton e cs d] by simp

text \<open>
  \<open>add_route\<close> runs into undefined behaviour (a shift by a negative amount or by more than
  31) exactly for a valid address with a prefix length outside 0 to 32, which it does not
  check.
\<close>

theorem add_route_undefined_iff:
  "add_route pton e cidr hop t = Inl Undefined \<longleftrightarrow>
     (\<exists>ip p raw. split_cidr cidr = Inr (ip, p) \<and> pton (c_string ip) = Some raw \<and> (p < 0 \<or> 32 < p))"
  by (auto simp: add_route_def bind_outcome_def prefix_mask_eq split_cidr_def stoi_def Let_def
      split: sum.splits option.splits if_splits prod.splits)

text \<open>
  the demonstration program: with \<open>inet_pton\<close> as documented at the addresses it uses and
  rejecting the malformed one, the seven routes are accepted and the ten look-ups print the
  next hops and prefixes of the longest matches.
\<close>

theorem phase10_output:
  assumes "\<forall>(s, w) \<in> set known_addrs. pton s = Some (htonl e w)"
    and "pton ''999.999.999.999'' = None"
  shows "\<exists>t. add_routes pton e phase10_routes empty_table = Inr t \<and>
    map (print_lookup pton e t) phase10_lookups =
     [MATCH ''10.10.1.55'' ''eth3-subnet'' (htonl e 0x0A0A0100) 24,
      MATCH ''10.10.2.1'' ''eth2-datacenter'' (htonl e 0x0A0A0000) 16,
      MATCH ''10.99.0.1'' ''eth1-internal'' (htonl e 0x0A000000) 8,
      MATCH ''192.168.1.100'' ''eth5-office'' (htonl e 0xC0A80100) 24,
      MATCH ''192.168.5.5'' ''eth4-home'' (htonl e 0xC0A80000) 16,
      MATCH ''8.8.8.8'' ''eth0-default'' (htonl e 0) 0,
      MATCH ''172.20.1.1'' ''eth6-cloud'' (htonl e 0xAC100000) 12,
      NO_ROUTE ''999.999.999.999'',
      MATCH ''127.0.0.1'' ''eth0-default'' (htonl e 0) 0,
      MATCH ''255.255.255.255'' ''eth0-default'' (htonl e 0) 0]"
proof -
  obtain t where t: "add_routes pton e phase10_routes empty_table = Inr t"
    using add_phase10 [OF assms(1)] by blast
  have scan: "lookup_ip t d = lpm_scan (accepted_routes pton e phase10_routes) d None" for d
    using add_routes_fold [OF t] trie.scan [OF accepted_ok] by simp
  have ip: "print_lookup pton e t s =
      (case lpm_scan (accepted_routes pton e phase10_routes) w None of
         Some r \<Rightarrow> MATCH s (next_hop r) (htonl e (network r)) (prefix_len r) | None \<Rightarrow> NO_ROUTE s)"
    if "(s, w) \<in> set known_addrs" for s w
    using assms(1) that by (auto simp: print_lookup_def lookup_def c_string_known scan)
  have "print_lookup pton e t ''999.999.999.999'' = NO_ROUTE ''999.999.999.999''"
    using assms(2) by (simp add: print_lookup_def lookup_def c_string_def)
  then show ?thesis
    using t ip
    by (simp add: phase10_lookups_def phase10_scan [OF assms(1)] known_addrs_def)
qed

theorem phase10_output_witness:
  "\<exists>t. add_routes (known_pton LittleEndian) LittleEndian phase10_routes empty_table = Inr t \<and>
     print_lookup (known_pton LittleEndian) LittleEndian t ''999.999.999.999'' =
       NO_ROUTE ''999.999.999.999''"
proof -
  have "known_pton LittleEndian ''999.999.999.999'' = None"
    by (simp add: known_pton_def known_addrs_def)
  from phase10_output [OF known_pton_ok this] show ?thesis
    by (auto simp: phase10_lookups_def)
qed

theorem trie_refines_scan_witness:
  "\<exists>t. add_routes (known_pton BigEndian) BigEndian phase10_routes empty_table = Inr t \<and>
     lookup_ip t 0x08080808 =
       lpm_scan (accepted_routes (known_pton BigEndian) BigEndian phase10_routes) 0x08080808 None"
proof -
  obtain t where t: "add_routes (known_pton BigEndian) BigEndian phase10_routes empty_table = Inr t"
    using add_phase10 [OF known_pton_ok] by blast
  with trie_refines_scan [OF t] show ?thesis by blast
qed

theorem lookup_longest_prefix_witness:
  "\<exists>t. add_routes (known_pton BigEndian) BigEndian phase10_routes empty_table = Inr t \<and>
     (case lookup_ip t 0x0A0A0137 of None \<Rightarrow> False | Some r \<Rightarrow> matches r 0x0A0A0137)"
proof -
  let ?p = "known_pton BigEndian"
  obtain t where t: "add_routes ?p BigEndian phase10_routes empty_table = Inr t"
    using add_phase10 [OF known_pton_ok] by blast
  have "\<exists>q \<in> set (accepted_routes ?p BigEndian phase10_routes). matches q 0x0A0A0137"
    by (simp add: accepted_phase10 [OF known_pton_ok] matches_def)
  with t lookup_longest_prefix [OF t, of "0x0A0A0137"] show ?thesis
    by (auto split: option.splits)
qed

end
