(* ===== verification/Rate_Limiter.thy ===== *)
theory Rate_Limiter
  imports Complex_Main Gateway_Prelude
begin

text \<open>
  The token bucket of \<open>include/ratelimit/RateLimiter.hpp\<close>. The first part models
  \<open>refill\<close> and \<open>try_consume\<close> as one thread executes them, with the clock reading as an
  argument and signed 64-bit overflow as \<open>Undefined\<close>. The second part models the same code
  as threads that interleave at their accesses to the two atomics \<open>tokens_micro_\<close> and
  \<open>last_refill_\<close>: one action of the machine is one atomic access (sequentially consistent
  interleaving; a \<open>compare_exchange_weak\<close> may fail spuriously).
\<close>

section \<open>One thread\<close>

definition MICRO :: int where
  "MICRO = 1000000"

record TokenBucket =
  capacity_micro :: int
  refill_rate_per_s_micro :: int
  tokens_micro :: int
  last_refill :: time_ns

definition make_limiter :: "int \<Rightarrow> int \<Rightarrow> time_ns \<Rightarrow> TokenBucket outcome" where
  "make_limiter capacity_tokens refill_rate_per_s now =
     bind_outcome (i64 (capacity_tokens * MICRO)) (\<lambda>cap.
     bind_outcome (i64 (refill_rate_per_s * MICRO)) (\<lambda>rate.
       Inr \<lparr> capacity_micro = cap, refill_rate_per_s_micro = rate, tokens_micro = cap,
             last_refill = now \<rparr>))"

text \<open>The amount \<open>refill\<close> computes from the two clock readings: \<open>None\<close> for its two early
  returns, undefined when the product overflows.\<close>

definition refill_amount :: "int \<Rightarrow> time_ns \<Rightarrow> time_ns \<Rightarrow> int option outcome" where
  "refill_amount r now lst =
     (let elapsed = ns_to_us (now - lst) in
      if elapsed \<le> 0 then Inr None
      else bind_outcome (i64 (r * elapsed)) (\<lambda>prod.
        let to_add = cdiv prod 1000000 in
        if to_add \<le> 0 then Inr None else Inr (Some to_add)))"

definition refill :: "time_ns \<Rightarrow> TokenBucket \<Rightarrow> TokenBucket outcome" where
  "refill now b =
     bind_outcome (refill_amount (refill_rate_per_s_micro b) now (last_refill b)) (\<lambda>amount.
       case amount of
         None \<Rightarrow> Inr b
       | Some to_add \<Rightarrow>
           bind_outcome (i64 (tokens_micro b + to_add)) (\<lambda>sum.
             Inr (b\<lparr> last_refill := now, tokens_micro := min sum (capacity_micro b) \<rparr>)))"

definition try_consume :: "int \<Rightarrow> time_ns \<Rightarrow> TokenBucket \<Rightarrow> (bool \<times> TokenBucket) outcome" where
  "try_consume tokens_needed now b =
     bind_outcome (refill now b) (\<lambda>b.
     bind_outcome (i64 (tokens_needed * MICRO)) (\<lambda>needed_micro.
       if tokens_micro b < needed_micro then Inr (False, b)
       else bind_outcome (i64 (tokens_micro b - needed_micro)) (\<lambda>desired.
         Inr (True, b\<lparr> tokens_micro := desired \<rparr>))))"

text \<open>\<open>current_tokens\<close>: the level in tokens, as an exact quotient.\<close>

definition current_tokens :: "TokenBucket \<Rightarrow> real" where
  "current_tokens b = of_int (tokens_micro b) / of_int MICRO"

text \<open>A sequence of requests \<open>(tokens_needed, clock reading)\<close>; the result is the list of
  answers and the final bucket.\<close>

fun requests :: "(int \<times> time_ns) list \<Rightarrow> TokenBucket \<Rightarrow> (bool list \<times> TokenBucket) outcome" where
  "requests [] b = Inr ([], b)"
| "requests (q # qs) b =
     bind_outcome (try_consume (fst q) (snd q) b) (\<lambda>(ok, b').
     bind_outcome (requests qs b') (\<lambda>(oks, b''). Inr (ok # oks, b'')))"

fun granted :: "(int \<times> time_ns) list \<Rightarrow> bool list \<Rightarrow> int" where
  "granted (q # qs) (ok # oks) = (if ok then fst q else 0) + granted qs oks"
| "granted _ _ = 0"

definition bucket_ok :: "TokenBucket \<Rightarrow> bool" where
  "bucket_ok b \<longleftrightarrow> 0 \<le> tokens_micro b \<and> tokens_micro b \<le> capacity_micro b \<and>
     in_int64 (capacity_micro b) \<and> 0 \<le> refill_rate_per_s_micro b"

text \<open>The potential of a bucket at a time \<open>T\<close>: what it holds and what the rate could still add
  until then, in micro-tokens times \<open>10^9\<close>.\<close>

definition potential :: "time_ns \<Rightarrow> TokenBucket \<Rightarrow> int" where
  "potential T b = tokens_micro b * 1000000000 + refill_rate_per_s_micro b * (T - last_refill b)"

section \<open>Interleaved threads\<close>

text \<open>Where a thread is in \<open>try_consume\<close>: before reading the clock; after it, before loading
  \<open>last_refill_\<close>; before storing it; before loading the tokens in \<open>refill\<close>; in the refill
  loop; before loading the tokens in \<open>try_consume\<close>; in the consume loop; returned.\<close>

datatype pc =
    Start
  | GotNow time_ns
  | StoreLast time_ns int
  | LoadForRefill int
  | CasRefill int int
  | LoadForConsume
  | CasConsume int
  | Done bool

record limiter_sys =
  sh_cap :: int
  sh_rate :: int
  sh_clock :: time_ns
  sh_tokens :: int
  sh_last :: time_ns
  pcs :: "nat \<Rightarrow> pc"
  need :: "nat \<Rightarrow> int"
  granted_micro :: int
  added_micro :: int

text \<open>An action: which thread moves, what the monotonic clock has advanced to, and whether a
  weak compare-and-swap fails spuriously. \<open>granted_micro\<close> and \<open>added_micro\<close> are history
  variables.\<close>

datatype action = Act nat time_ns bool

definition at_pc :: "nat \<Rightarrow> pc \<Rightarrow> limiter_sys \<Rightarrow> limiter_sys" where
  "at_pc i p s = s\<lparr> pcs := (pcs s)(i := p) \<rparr>"

fun limiter_act :: "action \<Rightarrow> limiter_sys \<Rightarrow> limiter_sys outcome" where
  "limiter_act (Act i t spurious) s0 =
     (let s = s0\<lparr> sh_clock := max (sh_clock s0) t \<rparr> in
      case pcs s i of
        Start \<Rightarrow> Inr (at_pc i (GotNow (sh_clock s)) s)
      | GotNow now \<Rightarrow>
          bind_outcome (refill_amount (sh_rate s) now (sh_last s)) (\<lambda>amount.
            Inr (at_pc i (case amount of None \<Rightarrow> LoadForConsume | Some a \<Rightarrow> StoreLast now a) s))
      | StoreLast now a \<Rightarrow> Inr (at_pc i (LoadForRefill a) (s\<lparr> sh_last := now \<rparr>))
      | LoadForRefill a \<Rightarrow> Inr (at_pc i (CasRefill a (sh_tokens s)) s)
      | CasRefill a current \<Rightarrow>
          bind_outcome (i64 (current + a)) (\<lambda>sum.
            let desired = min sum (sh_cap s) in
            if sh_tokens s = current \<and> \<not> spurious
            then Inr (at_pc i LoadForConsume
                   (s\<lparr> sh_tokens := desired, added_micro := added_micro s + (desired - current) \<rparr>))
            else Inr (at_pc i (CasRefill a (sh_tokens s)) s))
      | LoadForConsume \<Rightarrow> Inr (at_pc i (CasConsume (sh_tokens s)) s)
      | CasConsume current \<Rightarrow>
          bind_outcome (i64 (need s i * MICRO)) (\<lambda>needed_micro.
            if current < needed_micro then Inr (at_pc i (Done False) s)
            else bind_outcome (i64 (current - needed_micro)) (\<lambda>desired.
              if sh_tokens s = current \<and> \<not> spurious
              then Inr (at_pc i (Done True)
                     (s\<lparr> sh_tokens := desired, granted_micro := granted_micro s + needed_micro \<rparr>))
              else Inr (at_pc i (CasConsume (sh_tokens s)) s)))
      | Done ok \<Rightarrow> Inr s)"

fun limiter_run :: "action list \<Rightarrow> limiter_sys \<Rightarrow> limiter_sys outcome" where
  "limiter_run [] s = Inr s"
| "limiter_run (a # as) s = bind_outcome (limiter_act a s) (limiter_run as)"

inductive limiter_step :: "limiter_sys \<Rightarrow> limiter_sys \<Rightarrow> bool" where
  act: "limiter_act a s = Inr t \<Longrightarrow> limiter_step s t"

definition limiter_init :: "int \<Rightarrow> int \<Rightarrow> time_ns \<Rightarrow> (nat \<Rightarrow> int) \<Rightarrow> limiter_sys" where
  "limiter_init c r now n =
     \<lparr> sh_cap = c * MICRO, sh_rate = r * MICRO, sh_clock = now, sh_tokens = c * MICRO, sh_last = now,
       pcs = (\<lambda>_. Start), need = n, granted_micro = 0, added_micro = 0 \<rparr>"

inductive_cases limiter_stepE: "limiter_step s t"

text \<open>The shared state as the single-threaded bucket.\<close>

definition bucket_of :: "limiter_sys \<Rightarrow> TokenBucket" where
  "bucket_of s = \<lparr> capacity_micro = sh_cap s, refill_rate_per_s_micro = sh_rate s,
     tokens_micro = sh_tokens s, last_refill = sh_last s \<rparr>"

text \<open>The states reachable from a limiter constructed with capacity \<open>c\<close> and rate \<open>r\<close>, shared
  by threads that ask for \<open>n i\<close> tokens.\<close>

inductive limiter_reach :: "int \<Rightarrow> int \<Rightarrow> time_ns \<Rightarrow> (nat \<Rightarrow> int) \<Rightarrow> limiter_sys \<Rightarrow> bool"
  for c r now n where
  init: "limiter_reach c r now n (limiter_init c r now n)"
| step: "limiter_reach c r now n s \<Longrightarrow> limiter_step s t \<Longrightarrow> limiter_reach c r now n t"

text \<open>The invariant of the shared state: the level stays between empty and full, and every
  micro-token is accounted for.\<close>

definition limiter_inv :: "int \<Rightarrow> limiter_sys \<Rightarrow> bool" where
  "limiter_inv c s \<longleftrightarrow> sh_cap s = c * MICRO \<and> 0 \<le> sh_tokens s \<and> sh_tokens s \<le> sh_cap s \<and>
     (\<forall>i. 0 \<le> need s i) \<and> sh_tokens s + granted_micro s = sh_cap s + added_micro s \<and>
     (\<forall>i a. pcs s i = LoadForRefill a \<or> (\<exists>now. pcs s i = StoreLast now a) \<or>
        (\<exists>k. pcs s i = CasRefill a k) \<longrightarrow> 0 < a)"

section \<open>Lemmas\<close>

lemma refill_amount_Some:
  assumes "refill_amount r now lst = Inr (Some a)"
  shows "0 < a" and "lst < now" and "0 \<le> r \<Longrightarrow> a * 1000000000 \<le> r * (now - lst)"
proof -
  define el where "el = ns_to_us (now - lst)"
  have el: "0 < el" and a: "a = cdiv (r * el) 1000000" "0 < a"
    using assms by (auto simp: refill_amount_def Let_def bind_outcome_Inr el_def split: if_splits)
  then show "0 < a" by simp
  have pos: "0 < now - lst"
    using el by (simp add: el_def ns_to_us_def cdiv_def split: if_splits)
  then show "lst < now" by simp
  have "el * 1000 \<le> now - lst" using pos by (simp add: el_def ns_to_us_def cdiv_nonneg)
  moreover assume r: "0 \<le> r"
  ultimately have "r * (el * 1000) \<le> r * (now - lst)" by (intro mult_left_mono)
  moreover have "a * 1000000 \<le> r * el" using a el r by (simp add: cdiv_nonneg)
  ultimately show "a * 1000000000 \<le> r * (now - lst)" by linarith
qed

lemma refill_cases:
  assumes "refill now b = Inr b'"
  obtains (same) "b' = b"
    | (filled) a where "refill_amount (refill_rate_per_s_micro b) now (last_refill b) = Inr (Some a)"
        "b' = b\<lparr> last_refill := now, tokens_micro := min (tokens_micro b + a) (capacity_micro b) \<rparr>"
  using assms by (auto simp: refill_def bind_outcome_Inr split: option.splits)

lemma try_consume_cases:
  assumes "try_consume n now b = Inr (ok, b')"
  obtains b1 where "refill now b = Inr b1" "ok \<longleftrightarrow> n * MICRO \<le> tokens_micro b1"
    "b' = (if ok then b1\<lparr> tokens_micro := tokens_micro b1 - n * MICRO \<rparr> else b1)"
  using assms by (auto simp: try_consume_def bind_outcome_Inr not_le split: if_splits)

lemma refill_frame:
  "refill now b = Inr b' \<Longrightarrow> capacity_micro b' = capacity_micro b \<and>
     refill_rate_per_s_micro b' = refill_rate_per_s_micro b"
  by (erule refill_cases) simp_all

lemma refill_ok: "bucket_ok b \<Longrightarrow> refill now b = Inr b' \<Longrightarrow> bucket_ok b'"
  by (erule refill_cases) (auto simp: bucket_ok_def dest: refill_amount_Some(1))

lemma refill_potential:
  assumes "refill now b = Inr b'" and "0 \<le> refill_rate_per_s_micro b"
  shows "potential T b' \<le> potential T b"
  using assms(1)
proof (cases rule: refill_cases)
  case (filled a)
  define r where "r = refill_rate_per_s_micro b"
  have a: "a * 1000000000 \<le> r * (now - last_refill b)"
    using refill_amount_Some(3) [OF filled(1)] assms(2) by (simp add: r_def)
  have "potential T b' \<le> (tokens_micro b + a) * 1000000000 + r * (T - now)"
    using filled(2) by (simp add: potential_def r_def min_def algebra_simps)
  also have "\<dots> = tokens_micro b * 1000000000 + a * 1000000000 + r * (T - now)"
    by (simp add: algebra_simps)
  also have "\<dots> \<le> tokens_micro b * 1000000000 + r * (now - last_refill b) + r * (T - now)"
    using a by simp
  also have "\<dots> = potential T b"
    by (simp add: potential_def r_def algebra_simps)
  finally show ?thesis .
qed simp

lemma try_consume_step:
  assumes "try_consume n now b = Inr (ok, b')" and "bucket_ok b" and "0 \<le> n"
  shows "bucket_ok b'" and "potential T b' + (if ok then n else 0) * 10 ^ 15 \<le> potential T b"
    and "last_refill b' = last_refill b \<or> last_refill b' = now"
    and "capacity_micro b' = capacity_micro b"
    and "refill_rate_per_s_micro b' = refill_rate_per_s_micro b"
proof -
  from assms(1) obtain b1 where b1: "refill now b = Inr b1" "ok \<longleftrightarrow> n * MICRO \<le> tokens_micro b1"
    "b' = (if ok then b1\<lparr> tokens_micro := tokens_micro b1 - n * MICRO \<rparr> else b1)"
    by (rule try_consume_cases)
  have ok1: "bucket_ok b1" using assms(2) b1(1) by (rule refill_ok)
  with b1 assms(3) show "bucket_ok b'" by (auto simp: bucket_ok_def MICRO_def)
  have "potential T b1 \<le> potential T b"
    using refill_potential [OF b1(1)] assms(2) by (simp add: bucket_ok_def)
  with b1 show "potential T b' + (if ok then n else 0) * 10 ^ 15 \<le> potential T b"
    by (simp add: potential_def MICRO_def algebra_simps)
  show "last_refill b' = last_refill b \<or> last_refill b' = now"
    using b1(1) by (cases rule: refill_cases) (simp_all add: b1(3))
  show "capacity_micro b' = capacity_micro b"
    "refill_rate_per_s_micro b' = refill_rate_per_s_micro b"
    using refill_frame [OF b1(1)] by (simp_all add: b1(3))
qed

lemma requests_potential:
  assumes "requests qs b = Inr (oks, b')" and "bucket_ok b" and "\<forall>q \<in> set qs. 0 \<le> fst q \<and> snd q \<le> T"
    and "last_refill b \<le> T"
  shows "bucket_ok b' \<and> last_refill b' \<le> T \<and> potential T b' + granted qs oks * 10 ^ 15 \<le> potential T b"
  using assms
proof (induction qs arbitrary: b oks)
  case (Cons q qs)
  from Cons.prems(1) obtain ok b1 oks1 where r: "try_consume (fst q) (snd q) b = Inr (ok, b1)"
      "requests qs b1 = Inr (oks1, b')" "oks = ok # oks1"
    by (auto simp: bind_outcome_Inr)
  note step = try_consume_step [OF r(1) Cons.prems(2)]
  have "last_refill b1 \<le> T" using step(3) Cons.prems by auto
  then have IH: "bucket_ok b' \<and> last_refill b' \<le> T \<and>
      potential T b' + granted qs oks1 * 10 ^ 15 \<le> potential T b1"
    using Cons.IH [OF r(2)] step(1) Cons.prems by simp
  moreover have "potential T b1 + (if ok then fst q else 0) * 10 ^ 15 \<le> potential T b"
    using step(2) Cons.prems by simp
  ultimately show ?case using r(3) by (simp add: distrib_right)
qed simp

lemma make_limiter_ok:
  assumes "make_limiter c r now = Inr b" and "0 \<le> c" and "0 \<le> r"
  shows "bucket_ok b" and "b = \<lparr> capacity_micro = c * MICRO, refill_rate_per_s_micro = r * MICRO,
     tokens_micro = c * MICRO, last_refill = now \<rparr>"
  using assms by (auto simp: make_limiter_def bind_outcome_Inr bucket_ok_def MICRO_def)

text \<open>The level after a refill, in closed form.\<close>

lemma refill_level:
  assumes "bucket_ok b" and "last_refill b \<le> now" and "refill now b = Inr b'"
  shows "tokens_micro b' = min (tokens_micro b +
    refill_rate_per_s_micro b * ((now - last_refill b) div 1000) div 1000000) (capacity_micro b)"
proof -
  let ?el = "(now - last_refill b) div 1000"
  have el: "ns_to_us (now - last_refill b) = ?el" "0 \<le> ?el"
    using assms(2) by (simp_all add: ns_to_us_def cdiv_nonneg)
  have r: "0 \<le> refill_rate_per_s_micro b * ?el"
    using assms(1) el by (simp add: bucket_ok_def)
  show ?thesis
    using assms(1,3) el r
    by (auto simp: refill_def refill_amount_def bind_outcome_Inr Let_def cdiv_nonneg bucket_ok_def
        split: if_splits)
qed

lemma refill_defined:
  assumes "bucket_ok b" and "last_refill b \<le> now"
    and "refill_rate_per_s_micro b * ((now - last_refill b) div 1000) < 2 ^ 63"
    and "capacity_micro b + 2 ^ 63 div 1000000 < 2 ^ 63"
  shows "\<exists>b'. refill now b = Inr b'"
proof -
  define P where "P = refill_rate_per_s_micro b * ((now - last_refill b) div 1000)"
  have el: "ns_to_us (now - last_refill b) = (now - last_refill b) div 1000"
    "0 \<le> (now - last_refill b) div 1000"
    using assms(2) by (simp_all add: ns_to_us_def cdiv_nonneg)
  have P: "0 \<le> P" using assms(1) el by (simp add: P_def bucket_ok_def)
  then have "in_int64 P" using assms(3) by (simp add: P_def in_int64_def)
  have "P div 1000000 \<le> 2 ^ 63 div 1000000"
    using assms(3) by (intro zdiv_mono1) (simp_all add: P_def)
  moreover have "0 \<le> P div 1000000" using P by simp
  ultimately have "in_int64 (tokens_micro b + P div 1000000)"
    using assms(1,4) by (simp add: bucket_ok_def in_int64_def)
  with \<open>in_int64 P\<close> show ?thesis
    using P by (simp add: refill_def refill_amount_def bind_outcome_def el i64_def cdiv_nonneg Let_def
        flip: P_def)
qed

lemma wait_serves:
  assumes "bucket_ok b" and "0 < n" and "n * MICRO \<le> capacity_micro b" and "last_refill b \<le> now"
    and "n * MICRO * 10 ^ 6 \<le> refill_rate_per_s_micro b * ((now - last_refill b) div 1000)"
    and "try_consume n now b = Inr (ok, b')"
  shows "ok"
proof -
  define q where "q = refill_rate_per_s_micro b * ((now - last_refill b) div 1000)"
  from assms(6) obtain b1 where b1: "refill now b = Inr b1" "ok \<longleftrightarrow> n * MICRO \<le> tokens_micro b1"
    by (rule try_consume_cases)
  have "n * MICRO \<le> q div 1000000" using assms(5) by (simp add: q_def)
  then have "n * MICRO \<le> tokens_micro b1"
    using refill_level [OF assms(1,4) b1(1)] assms(1,3) by (simp add: q_def bucket_ok_def)
  with b1(2) show ?thesis by simp
qed

section \<open>Properties of one thread\<close>

text \<open>
  C7: the token-bucket guarantee: whatever requests are made of a limiter constructed at
  \<open>t0\<close> with capacity \<open>c\<close> and rate \<open>r\<close>, the tokens granted up to time \<open>T\<close> are at most the
  burst \<open>c\<close> plus \<open>r\<close> per second elapsed (times in nanoseconds).
\<close>

theorem rate_bound:
  assumes "make_limiter c r t0 = Inr b" and "0 \<le> c" and "0 \<le> r" and "t0 \<le> T"
    and "requests qs b = Inr (oks, b')" and "\<forall>q \<in> set qs. 0 \<le> fst q \<and> snd q \<le> T"
  shows "granted qs oks * 10 ^ 9 \<le> c * 10 ^ 9 + r * (T - t0)"
proof -
  note b = make_limiter_ok [OF assms(1-3)]
  have "bucket_ok b' \<and> last_refill b' \<le> T \<and> potential T b' + granted qs oks * 10 ^ 15 \<le> potential T b"
    using requests_potential [OF assms(5) b(1) assms(6)] assms(4) by (simp add: b(2))
  moreover from this have "0 \<le> potential T b'" by (simp add: potential_def bucket_ok_def)
  moreover have "potential T b = (c * 10 ^ 9 + r * (T - t0)) * 10 ^ 6"
    by (simp add: b(2) potential_def MICRO_def algebra_simps)
  ultimately have "(granted qs oks * 10 ^ 9) * 10 ^ 6 \<le> (c * 10 ^ 9 + r * (T - t0)) * 10 ^ 6" by simp
  then show ?thesis by simp
qed

theorem rate_bound_witness:
  "\<exists>b b' oks. make_limiter 2 1 0 = Inr b \<and>
     requests [(1, 0), (1, 0), (1, 0), (1, 1000000000)] b = Inr (oks, b') \<and>
     oks = [True, True, False, True] \<and>
     granted [(1, 0), (1, 0), (1, 0), (1, 1000000000)] oks * 10 ^ 9 \<le> 2 * 10 ^ 9 + 1 * (1000000000 - 0)"
proof -
  let ?qs = "[(1, 0), (1, 0), (1, 0), (1, 1000000000)] :: (int \<times> time_ns) list"
  obtain b where b: "make_limiter 2 1 0 = Inr b"
    by (simp add: make_limiter_def bind_outcome_def i64_def in_int64_def MICRO_def)
  then have "b = \<lparr> capacity_micro = 2000000, refill_rate_per_s_micro = 1000000,
      tokens_micro = 2000000, last_refill = 0 \<rparr>"
    using make_limiter_ok(2) [OF b] by (simp add: MICRO_def)
  then obtain b' where r: "requests ?qs b = Inr ([True, True, False, True], b')"
    by (simp add: try_consume_def refill_def refill_amount_def bind_outcome_def i64_def
        in_int64_def MICRO_def ns_to_us_def cdiv_def)
  from rate_bound [OF b _ _ _ r, of 1000000000] b r show ?thesis by auto
qed

text \<open>
  the overflow horizon: for a fresh limiter of positive rate (capacity and request at most
  \<open>9 * 10^12\<close> tokens), a request runs into signed overflow exactly when it comes after an
  idle time of at least \<open>2^63 / (r * 10^6)\<close> microseconds. For 50 tokens per second this is a
  little over 51 hours.
\<close>

theorem idle_overflow_iff:
  assumes "make_limiter c r t0 = Inr b" and "0 \<le> c" and "c \<le> 9 * 10 ^ 12" and "0 < r"
    and "0 \<le> n" and "n \<le> 9 * 10 ^ 12" and "t0 \<le> now"
  shows "try_consume n now b = Inl Undefined \<longleftrightarrow> 2 ^ 63 \<le> r * 10 ^ 6 * ((now - t0) div 1000)"
proof -
  define el where "el = (now - t0) div 1000"
  have el: "ns_to_us (now - t0) = el" "0 \<le> el"
    using assms(7) by (simp_all add: el_def ns_to_us_def cdiv_nonneg)
  note b = make_limiter_ok(2) [OF assms(1,2) less_imp_le [OF assms(4)]]
  have nn: "in_int64 (n * MICRO)" and cn: "in_int64 (c * MICRO - n * MICRO)"
    using assms by (simp_all add: in_int64_def MICRO_def)
  define P where "P = r * MICRO * el"
  have P0: "0 \<le> P" using assms(4) el by (simp add: P_def MICRO_def)
  have P_eq: "r * 10 ^ 6 * el = P" by (simp add: P_def MICRO_def)
  show ?thesis
  proof (cases "P < 2 ^ 63")
    case True
    have ok: "bucket_ok b" using make_limiter_ok(1) [OF assms(1,2)] assms(4) by simp
    obtain b1 where b1: "refill now b = Inr b1"
      using refill_defined [OF ok, of now] True assms
      by (auto simp: b P_def el_def MICRO_def mult.assoc)
    have lvl: "0 \<le> tokens_micro b1" "tokens_micro b1 \<le> c * MICRO"
      using refill_ok [OF ok b1] refill_frame [OF b1] by (simp_all add: bucket_ok_def b)
    have "in_int64 (tokens_micro b1 - n * MICRO)"
      using assms lvl by (simp add: in_int64_def MICRO_def)
    then have "try_consume n now b \<noteq> Inl Undefined"
      using b1 nn by (auto simp: try_consume_def bind_outcome_Inl)
    with True show ?thesis unfolding el_def [symmetric] P_eq by simp
  next
    case False
    then have "\<not> in_int64 P" "el > 0" using el by (auto simp: in_int64_def P_def intro: ccontr)
    then have "refill now b = Inl Undefined"
      using el by (simp add: refill_def refill_amount_def b bind_outcome_def P_def i64_def)
    with False show ?thesis
      unfolding el_def [symmetric] P_eq by (simp add: try_consume_def bind_outcome_def)
  qed
qed

theorem idle_overflow_iff_witness:
  "\<exists>b. make_limiter 100 50 0 = Inr b \<and> try_consume 1 (52 * 3600 * 10 ^ 9) b = Inl Undefined"
proof -
  obtain b where b: "make_limiter 100 50 0 = Inr b"
    by (simp add: make_limiter_def bind_outcome_def i64_def in_int64_def MICRO_def)
  from idle_overflow_iff [OF b, of 1 "52 * 3600 * 10 ^ 9"] b show ?thesis by simp
qed

text \<open>
  C26: a request is served once the bucket has had the time to refill for it: if the elapsed
  microseconds since the last refill are worth \<open>n\<close> tokens and \<open>n\<close> fits the capacity, the
  call returns true (unless it overflowed).
\<close>

theorem consume_after_wait:
  assumes "bucket_ok b" and "0 < n" and "n * MICRO \<le> capacity_micro b" and "last_refill b \<le> now"
    and "n * MICRO * 10 ^ 6 \<le> refill_rate_per_s_micro b * ((now - last_refill b) div 1000)"
    and "try_consume n now b = Inr (ok, b')"
  shows "ok"
  using assms by (rule wait_serves)

theorem consume_after_wait_witness:
  "\<exists>b'. try_consume 1 1000000000 \<lparr> capacity_micro = 2000000, refill_rate_per_s_micro = 1000000,
      tokens_micro = 0, last_refill = 0 \<rparr> = Inr (True, b')"
proof -
  let ?b = "\<lparr> capacity_micro = 2000000, refill_rate_per_s_micro = 1000000,
      tokens_micro = 0, last_refill = 0 \<rparr>"
  obtain ok b' where t: "try_consume 1 1000000000 ?b = Inr (ok, b')"
    by (simp add: try_consume_def refill_def refill_amount_def bind_outcome_def i64_def
        in_int64_def MICRO_def ns_to_us_def cdiv_def)
  have "ok"
    by (rule consume_after_wait [OF _ _ _ _ _ t])
      (simp_all add: bucket_ok_def in_int64_def MICRO_def)
  with t show ?thesis by simp
qed

section \<open>Properties of interleaved threads\<close>

lemma limiter_inv_at_pc:
  assumes "limiter_inv c s"
    and "\<forall>a. p = LoadForRefill a \<or> (\<exists>now. p = StoreLast now a) \<or> (\<exists>k. p = CasRefill a k) \<longrightarrow> 0 < a"
  shows "limiter_inv c (at_pc i p s)"
  using assms by (simp add: limiter_inv_def at_pc_def)

lemma limiter_inv_frame:
  assumes "limiter_inv c s"
  shows "limiter_inv c (s\<lparr> sh_clock := t \<rparr>)" and "limiter_inv c (s\<lparr> sh_last := t \<rparr>)"
  using assms by (simp_all add: limiter_inv_def)

lemma cas_refill_inv:
  assumes "limiter_act (Act i now sp) s = Inr t" and "limiter_inv c s" and "pcs s i = CasRefill a k"
  shows "limiter_inv c t"
proof -
  have a: "0 < a" using assms(2,3) by (auto simp: limiter_inv_def)
  let ?d = "min (k + a) (sh_cap s)" and ?s = "s\<lparr> sh_clock := max (sh_clock s) now \<rparr>"
  have "t = (if sh_tokens s = k \<and> \<not> sp
      then at_pc i LoadForConsume (?s\<lparr> sh_tokens := ?d, added_micro := added_micro s + (?d - k) \<rparr>)
      else at_pc i (CasRefill a (sh_tokens s)) ?s)"
    using assms(1,3) by (auto simp: bind_outcome_Inr Let_def split: if_splits)
  with assms(2) a show ?thesis by (simp add: limiter_inv_def at_pc_def min_def)
qed

lemma cas_consume_inv:
  assumes "limiter_act (Act i now sp) s = Inr t" and "limiter_inv c s" and "pcs s i = CasConsume k"
  shows "limiter_inv c t"
proof -
  let ?m = "need s i * MICRO" and ?s = "s\<lparr> sh_clock := max (sh_clock s) now \<rparr>"
  have m: "0 \<le> ?m" using assms(2) by (simp add: limiter_inv_def MICRO_def)
  have "t = (if k < ?m then at_pc i (Done False) ?s
      else if sh_tokens s = k \<and> \<not> sp
      then at_pc i (Done True) (?s\<lparr> sh_tokens := k - ?m, granted_micro := granted_micro s + ?m \<rparr>)
      else at_pc i (CasConsume (sh_tokens s)) ?s)"
    using assms(1,3) by (auto simp: bind_outcome_Inr Let_def split: if_splits)
  with assms(2) m show ?thesis by (simp add: limiter_inv_def at_pc_def)
qed

lemma limiter_act_inv: "limiter_act a s = Inr t \<Longrightarrow> limiter_inv c s \<Longrightarrow> limiter_inv c t"
proof (induction a s rule: limiter_act.induct)
  case (1 i now sp s)
  then show ?case
  proof (cases "pcs s i")
    case (GotNow tm)
    with 1 obtain amount where "refill_amount (sh_rate s) tm (sh_last s) = Inr amount"
        "t = at_pc i (case amount of None \<Rightarrow> LoadForConsume | Some a \<Rightarrow> StoreLast tm a)
          (s\<lparr> sh_clock := max (sh_clock s) now \<rparr>)"
      by (auto simp: bind_outcome_Inr)
    with 1 refill_amount_Some(1) [of "sh_rate s" tm "sh_last s"] show ?thesis
      by (cases amount) (auto simp: limiter_inv_def at_pc_def)
  next
    case (CasRefill a k)
    with 1 show ?thesis by (rule cas_refill_inv)
  next
    case (CasConsume k)
    with 1 show ?thesis by (rule cas_consume_inv)
  next
    case Start
    with 1 show ?thesis by (auto intro!: limiter_inv_at_pc limiter_inv_frame)
  next
    case (StoreLast tm a)
    then have "0 < a" using 1(2) unfolding limiter_inv_def by blast
    with 1 StoreLast show ?thesis
      by (auto simp: Let_def intro!: limiter_inv_at_pc limiter_inv_frame)
  next
    case (LoadForRefill a)
    then have "0 < a" using 1(2) by (auto simp: limiter_inv_def)
    with 1 LoadForRefill show ?thesis
      by (auto simp: Let_def intro!: limiter_inv_at_pc limiter_inv_frame)
  next
    case LoadForConsume
    with 1 show ?thesis by (auto intro!: limiter_inv_at_pc limiter_inv_frame)
  next
    case (Done ok)
    with 1 show ?thesis by (auto intro!: limiter_inv_frame)
  qed
qed

lemma limiter_reach_inv:
  assumes "limiter_reach c r now n s" and "0 \<le> c" and "\<forall>i. 0 \<le> n i"
  shows "limiter_inv c s"
  using assms(1)
proof induction
  case init
  show ?case using assms(2,3) by (simp add: limiter_inv_def limiter_init_def MICRO_def)
next
  case (step s t)
  then show ?case by (auto elim: limiter_stepE intro: limiter_act_inv)
qed

lemma limiter_run_reach:
  "limiter_run as s = Inr t \<Longrightarrow> limiter_reach c r now n s \<Longrightarrow> limiter_reach c r now n t"
proof (induction as arbitrary: s)
  case (Cons a as)
  then obtain x where x: "limiter_act a s = Inr x" "limiter_run as x = Inr t"
    by (auto simp: bind_outcome_Inr)
  then have "limiter_reach c r now n x"
    using Cons.prems(2) by (blast intro: limiter_reach.step limiter_step.act)
  with Cons.IH x(2) show ?case by blast
qed simp

declare limiter_act.simps [simp del]

lemma solo_act: "sh_clock s = t \<Longrightarrow> limiter_act (Act i t False) s =
  (case pcs s i of
     Start \<Rightarrow> Inr (at_pc i (GotNow (sh_clock s)) s)
   | GotNow now \<Rightarrow> bind_outcome (refill_amount (sh_rate s) now (sh_last s)) (\<lambda>amount.
       Inr (at_pc i (case amount of None \<Rightarrow> LoadForConsume | Some a \<Rightarrow> StoreLast now a) s))
   | StoreLast now a \<Rightarrow> Inr (at_pc i (LoadForRefill a) (s\<lparr> sh_last := now \<rparr>))
   | LoadForRefill a \<Rightarrow> Inr (at_pc i (CasRefill a (sh_tokens s)) s)
   | CasRefill a k \<Rightarrow> bind_outcome (i64 (k + a)) (\<lambda>sum.
       if sh_tokens s = k
       then Inr (at_pc i LoadForConsume (s\<lparr> sh_tokens := min sum (sh_cap s),
              added_micro := added_micro s + (min sum (sh_cap s) - k) \<rparr>))
       else Inr (at_pc i (CasRefill a (sh_tokens s)) s))
   | LoadForConsume \<Rightarrow> Inr (at_pc i (CasConsume (sh_tokens s)) s)
   | CasConsume k \<Rightarrow> bind_outcome (i64 (need s i * MICRO)) (\<lambda>m.
       if k < m then Inr (at_pc i (Done False) s)
       else bind_outcome (i64 (k - m)) (\<lambda>d.
         if sh_tokens s = k
         then Inr (at_pc i (Done True) (s\<lparr> sh_tokens := d, granted_micro := granted_micro s + m \<rparr>))
         else Inr (at_pc i (CasConsume (sh_tokens s)) s)))
   | Done ok \<Rightarrow> Inr s)"
proof -
  assume "sh_clock s = t"
  then have "s\<lparr> sh_clock := max (sh_clock s) t \<rparr> = s" by (cases s) simp
  then show ?thesis
    unfolding limiter_act.simps Let_def by (cases "pcs s i") (simp_all cong: if_cong)
qed

lemma at_pc_simps [simp]:
  "pcs (at_pc i p s) i = p" "at_pc i p (at_pc i q s) = at_pc i p s"
  "sh_clock (at_pc i p s) = sh_clock s" "sh_tokens (at_pc i p s) = sh_tokens s"
  "sh_last (at_pc i p s) = sh_last s" "sh_rate (at_pc i p s) = sh_rate s"
  "sh_cap (at_pc i p s) = sh_cap s" "need (at_pc i p s) = need s"
  "granted_micro (at_pc i p s) = granted_micro s" "added_micro (at_pc i p s) = added_micro s"
  "bucket_of (at_pc i p s) = bucket_of s"
  by (simp_all add: at_pc_def bucket_of_def)

lemma solo_done: "sh_clock s = t \<Longrightarrow>
  limiter_run (replicate k (Act i t False)) (at_pc i (Done ok) s) = Inr (at_pc i (Done ok) s)"
  by (induction k) (simp_all add: solo_act bind_outcome_def)

lemma solo_consume:
  assumes "pcs s i = LoadForConsume"
  shows "case limiter_run (replicate (Suc (Suc k)) (Act i (sh_clock s) False)) s of
      Inl e \<Rightarrow> e = Undefined \<and> (\<not> in_int64 (need s i * MICRO) \<or>
        need s i * MICRO \<le> sh_tokens s \<and> \<not> in_int64 (sh_tokens s - need s i * MICRO))
    | Inr t \<Rightarrow> in_int64 (need s i * MICRO) \<and>
        (if sh_tokens s < need s i * MICRO then pcs t i = Done False \<and> bucket_of t = bucket_of s
         else in_int64 (sh_tokens s - need s i * MICRO) \<and> pcs t i = Done True \<and>
           bucket_of t = (bucket_of s)\<lparr> tokens_micro := sh_tokens s - need s i * MICRO \<rparr>)"
  using assms
  by (auto simp: solo_act bind_outcome_def i64_def solo_done bucket_of_def split: sum.splits if_splits)

text \<open>
  C8: in every interleaving of any number of threads, the bucket never holds less than nothing
  or more than its capacity, and no micro-token is spent twice: what was granted and what is
  left is what the bucket started with and what refills added.
\<close>

theorem concurrent_conservation:
  assumes "limiter_reach c r now n s" and "0 \<le> c" and "\<forall>i. 0 \<le> n i"
  shows "0 \<le> sh_tokens s \<and> sh_tokens s \<le> c * MICRO \<and>
    granted_micro s + sh_tokens s = c * MICRO + added_micro s"
  using limiter_reach_inv [OF assms] by (auto simp: limiter_inv_def)

theorem concurrent_conservation_witness:
  "\<exists>s. limiter_reach 10 5 0 (\<lambda>_. 4) s \<and> pcs s 0 = Done True \<and> pcs s 1 = Done True \<and>
     granted_micro s + sh_tokens s = 10 * MICRO + added_micro s \<and> sh_tokens s = 2 * MICRO"
proof -
  let ?as = "[Act 0 0 False, Act 1 0 False, Act 0 0 False, Act 1 0 False, Act 0 0 False,
    Act 1 0 False, Act 1 0 False, Act 0 0 False, Act 0 0 False]"
  have "case limiter_run ?as (limiter_init 10 5 0 (\<lambda>_. 4)) of Inl e \<Rightarrow> False
      | Inr s \<Rightarrow> pcs s 0 = Done True \<and> pcs s 1 = Done True \<and> sh_tokens s = 2000000"
    by code_simp
  then obtain s where s: "limiter_run ?as (limiter_init 10 5 0 (\<lambda>_. 4)) = Inr s"
      "pcs s 0 = Done True" "pcs s 1 = Done True" "sh_tokens s = 2000000"
    by (auto split: sum.splits)
  then have "limiter_reach 10 5 0 (\<lambda>_. 4) s"
    by (blast intro: limiter_run_reach limiter_reach.init)
  from concurrent_conservation [OF this] this s show ?thesis by (auto simp: MICRO_def)
qed

text \<open>From the end of a refill on, the machine and \<open>try_consume\<close> go the same way.\<close>

lemma solo_after_refill:
  assumes "pcs u i = LoadForConsume" and "need u i = need s i" and "sh_clock u = sh_clock s"
    and "limiter_run (replicate 7 (Act i (sh_clock s) False)) s = limiter_run (replicate (Suc (Suc k)) (Act i (sh_clock s) False)) u"
    and "refill (sh_clock s) (bucket_of s) = Inr (bucket_of u)"
  shows "case limiter_run (replicate 7 (Act i (sh_clock s) False)) s of
      Inl e \<Rightarrow> try_consume (need s i) (sh_clock s) (bucket_of s) = Inl e
    | Inr t \<Rightarrow> (\<exists>ok. pcs t i = Done ok \<and>
        try_consume (need s i) (sh_clock s) (bucket_of s) = Inr (ok, bucket_of t))"
proof -
  have "tokens_micro (bucket_of u) = sh_tokens u" by (simp add: bucket_of_def)
  then show ?thesis
    using solo_consume [OF assms(1), of k] unfolding assms(2,3) assms(4) try_consume_def assms(5)
    by (auto simp: bind_outcome_def i64_def split: sum.splits if_splits)
qed

text \<open>
  Run alone, a thread of the interleaved machine computes exactly \<open>try_consume\<close> at the
  current clock reading, with the same answer, the same bucket and the same overflows.
\<close>

theorem solo_run_refines:
  assumes "pcs s i = Start"
  shows "case limiter_run (replicate 7 (Act i (sh_clock s) False)) s of
      Inl e \<Rightarrow> try_consume (need s i) (sh_clock s) (bucket_of s) = Inl e
    | Inr t \<Rightarrow> (\<exists>ok. pcs t i = Done ok \<and>
        try_consume (need s i) (sh_clock s) (bucket_of s) = Inr (ok, bucket_of t))"
proof (cases "refill_amount (sh_rate s) (sh_clock s) (sh_last s)")
  case (Inl e)
  then show ?thesis
    using assms
    by (simp add: numeral_eq_Suc solo_act bind_outcome_def try_consume_def refill_def bucket_of_def)
next
  case (Inr amount)
  show ?thesis
  proof (cases amount)
    case None
    show ?thesis
    proof (rule solo_after_refill [of "at_pc i LoadForConsume s" _ _ 3])
    qed (use assms Inr None in \<open>simp_all add: numeral_eq_Suc solo_act bind_outcome_def refill_def bucket_of_def\<close>)
  next
    case (Some a)
    let ?s = "at_pc i LoadForConsume (s\<lparr> sh_last := sh_clock s,
      sh_tokens := min (sh_tokens s + a) (sh_cap s),
      added_micro := added_micro s + (min (sh_tokens s + a) (sh_cap s) - sh_tokens s) \<rparr>)"
    show ?thesis
    proof (cases "in_int64 (sh_tokens s + a)")
      case True
      show ?thesis
      proof (rule solo_after_refill [of ?s _ _ 0])
      qed (use assms Inr Some True in
        \<open>simp_all add: numeral_eq_Suc solo_act bind_outcome_def i64_def at_pc_def refill_def bucket_of_def\<close>)
    next
      case False
      then show ?thesis
        using assms Inr Some
        by (simp add: numeral_eq_Suc solo_act bind_outcome_def i64_def try_consume_def refill_def bucket_of_def)
    qed
  qed
qed

theorem solo_run_refines_witness:
  "case limiter_run (replicate 7 (Act 0 0 False)) (limiter_init 10 5 0 (\<lambda>_. 4)) of
      Inl e \<Rightarrow> False
    | Inr t \<Rightarrow> pcs t 0 = Done True \<and>
        try_consume 4 0 (bucket_of (limiter_init 10 5 0 (\<lambda>_. 4))) = Inr (True, bucket_of t)"
proof -
  let ?s = "limiter_init 10 5 0 (\<lambda>_. 4)"
  have "pcs ?s 0 = Start" "sh_clock ?s = 0" "need ?s 0 = 4" by (simp_all add: limiter_init_def)
  moreover have "case limiter_run (replicate 7 (Act 0 0 False)) ?s of Inl e \<Rightarrow> False
      | Inr t \<Rightarrow> pcs t 0 = Done True"
    by code_simp
  ultimately show ?thesis
    using solo_run_refines [of ?s 0] by (auto split: sum.splits)
qed

text \<open>
  C29: the refill race: \<open>last_refill_\<close> is read and stored without atomicity, so two threads can
  both add the tokens of the same interval. There is an interleaving of three threads that
  grants more than capacity plus rate times elapsed time, the bound that holds for one thread (\<open>rate_bound\<close>).
\<close>

theorem refill_race:
  "\<exists>n s. limiter_reach 10 5 0 n s \<and> (\<forall>i. 0 \<le> n i) \<and>
     (10 * 10 ^ 9 + 5 * sh_clock s) * 10 ^ 6 < granted_micro s * 10 ^ 9"
proof -
  let ?n = "\<lambda>i :: nat. if i = 0 then 10 else 5 :: int"
  let ?as = "replicate 4 (Act 0 0 False) @ [Act 1 1000000000 False, Act 2 0 False] @
    [Act 1 0 False, Act 2 0 False] @ replicate 3 (Act 1 0 False) @ replicate 3 (Act 2 0 False) @
    replicate 2 (Act 1 0 False) @ replicate 2 (Act 2 0 False)"
  have "case limiter_run ?as (limiter_init 10 5 0 ?n) of Inl e \<Rightarrow> False
      | Inr s \<Rightarrow> sh_clock s = 1000000000 \<and> granted_micro s = 20000000"
    by code_simp
  then obtain s where s: "limiter_run ?as (limiter_init 10 5 0 ?n) = Inr s"
      "sh_clock s = 1000000000" "granted_micro s = 20000000"
    by (auto split: sum.splits)
  then have "limiter_reach 10 5 0 ?n s"
    by (blast intro: limiter_run_reach limiter_reach.init)
  with s show ?thesis by (intro exI [of _ ?n] exI [of _ s]) simp
qed

end
