(* ===== verification/Auth_Session.thy ===== *)
theory Auth_Session
  imports Gateway_Prelude
begin

text \<open>
  The challenge-response authentication of \<open>include/auth/AuthSession.hpp\<close> and the scenarios
  of \<open>src/phase13_auth_system.cpp\<close>. The 64-bit value drawn from the random number generator
  and the readings of the steady clock are arguments. An empty shared secret makes
  \<open>compute_token\<close> divide by zero, which is \<open>Undefined\<close>.
\<close>

section \<open>Data and operations\<close>

text \<open>\<open>Nonce\<close>: eight bytes. \<open>generate_nonce\<close> stores the bytes of the random value from the
  lowest up.\<close>

type_synonym Nonce = "u8 list"

definition generate_nonce :: "u64 \<Rightarrow> Nonce" where
  "generate_nonce raw = map (\<lambda>i. ucast (drop_bit (i * 8) raw AND 0xFF)) [0..<8]"

definition nonce_to_hex :: "Nonce \<Rightarrow> string" where
  "nonce_to_hex n = hex_bytes n"

definition compute_token :: "Nonce \<Rightarrow> string \<Rightarrow> string outcome" where
  "compute_token nonce secret =
     (if secret = [] then Inl Undefined
      else
        let result = map (\<lambda>i. (nonce ! i) XOR u8_of_char (secret ! (i mod length secret))) [0..<8];
            result = map (\<lambda>i. (result ! i) XOR u8_of_char (secret ! ((i + 3) mod length secret))) [0..<8]
        in Inr (hex_bytes result))"

datatype AuthState = CHALLENGE_SENT | AUTHENTICATED | REJECTED | TIMED_OUT

definition auth_state_str :: "AuthState \<Rightarrow> string" where
  "auth_state_str s =
     (case s of
        CHALLENGE_SENT \<Rightarrow> ''CHALLENGE_SENT''
      | AUTHENTICATED \<Rightarrow> ''AUTHENTICATED''
      | REJECTED \<Rightarrow> ''REJECTED''
      | TIMED_OUT \<Rightarrow> ''TIMED_OUT'')"

text \<open>The states are a finite type, so that statements about all of them can be evaluated.\<close>

instantiation AuthState :: enum
begin

definition enum_AuthState :: "AuthState list" where
  "enum_AuthState = [CHALLENGE_SENT, AUTHENTICATED, REJECTED, TIMED_OUT]"

definition enum_all_AuthState :: "(AuthState \<Rightarrow> bool) \<Rightarrow> bool" where
  "enum_all_AuthState P \<longleftrightarrow> P CHALLENGE_SENT \<and> P AUTHENTICATED \<and> P REJECTED \<and> P TIMED_OUT"

definition enum_ex_AuthState :: "(AuthState \<Rightarrow> bool) \<Rightarrow> bool" where
  "enum_ex_AuthState P \<longleftrightarrow> P CHALLENGE_SENT \<or> P AUTHENTICATED \<or> P REJECTED \<or> P TIMED_OUT"

instance
proof
  show "(UNIV :: AuthState set) = set enum_class.enum"
    by (auto simp: enum_AuthState_def intro: AuthState.exhaust)
  show "distinct (enum_class.enum :: AuthState list)" by (simp add: enum_AuthState_def)
  show "enum_class.enum_all P \<longleftrightarrow> Ball UNIV P" for P :: "AuthState \<Rightarrow> bool"
    unfolding enum_all_AuthState_def by (metis AuthState.exhaust UNIV_I)
  show "enum_class.enum_ex P \<longleftrightarrow> Bex UNIV P" for P :: "AuthState \<Rightarrow> bool"
    unfolding enum_ex_AuthState_def by (metis AuthState.exhaust UNIV_I)
qed

end

record AuthSession =
  auth_fd :: int
  auth_secret :: string
  auth_nonce :: Nonce
  expected_token :: string
  auth_state :: AuthState
  auth_created_at :: time_ns

definition make_session :: "int \<Rightarrow> string \<Rightarrow> u64 \<Rightarrow> time_ns \<Rightarrow> AuthSession outcome" where
  "make_session fd shared_secret raw now =
     (let nonce = generate_nonce raw in
      bind_outcome (compute_token nonce shared_secret) (\<lambda>tok.
        Inr \<lparr> auth_fd = fd, auth_secret = shared_secret, auth_nonce = nonce,
              expected_token = tok, auth_state = CHALLENGE_SENT, auth_created_at = now \<rparr>))"

definition is_timed_out :: "int \<Rightarrow> time_ns \<Rightarrow> AuthSession \<Rightarrow> bool" where
  "is_timed_out timeout now s \<longleftrightarrow> timeout \<le> ns_to_s (now - auth_created_at s)"

definition submit_token :: "string \<Rightarrow> time_ns \<Rightarrow> AuthSession \<Rightarrow> bool \<times> AuthSession" where
  "submit_token client_token now s =
     (if auth_state s \<noteq> CHALLENGE_SENT then (False, s)
      else if is_timed_out 5 now s then (False, s\<lparr> auth_state := TIMED_OUT \<rparr>)
      else if client_token = expected_token s then (True, s\<lparr> auth_state := AUTHENTICATED \<rparr>)
      else (False, s\<lparr> auth_state := REJECTED \<rparr>))"

text \<open>A sequence of submissions to one session, with the answers.\<close>

fun submit_all :: "(string \<times> time_ns) list \<Rightarrow> AuthSession \<Rightarrow> bool list \<times> AuthSession" where
  "submit_all [] s = ([], s)"
| "submit_all (q # qs) s =
     (let (ok, s') = submit_token (fst q) (snd q) s; (oks, s'') = submit_all qs s' in (ok # oks, s''))"

subsection \<open>The scenarios of phase 13\<close>

definition SHARED_SECRET :: string where
  "SHARED_SECRET = ''qualcomm_gateway_s3cr3t''"

text \<open>Each test draws its random values \<open>raw\<close> and reads the clock when it creates a session
  (\<open>t0\<close>) and when it submits (\<open>t1\<close>).\<close>

definition test_valid_auth :: "u64 \<Rightarrow> time_ns \<Rightarrow> time_ns \<Rightarrow> (bool \<times> AuthState) outcome" where
  "test_valid_auth raw t0 t1 =
     bind_outcome (make_session 4 SHARED_SECRET raw t0) (\<lambda>session.
     bind_outcome (compute_token (auth_nonce session) SHARED_SECRET) (\<lambda>client_token.
       let (ok, session) = submit_token client_token t1 session in Inr (ok, auth_state session)))"

definition test_invalid_auth :: "u64 \<Rightarrow> time_ns \<Rightarrow> time_ns \<Rightarrow> (bool \<times> AuthState) outcome" where
  "test_invalid_auth raw t0 t1 =
     bind_outcome (make_session 5 SHARED_SECRET raw t0) (\<lambda>session.
     bind_outcome (compute_token (auth_nonce session) ''wrong_secret'') (\<lambda>attacker_token.
       let (ok, session) = submit_token attacker_token t1 session in Inr (ok, auth_state session)))"

definition test_replay_attack ::
  "u64 \<Rightarrow> time_ns \<Rightarrow> time_ns \<Rightarrow> u64 \<Rightarrow> time_ns \<Rightarrow> time_ns \<Rightarrow> (bool \<times> AuthState) outcome" where
  "test_replay_attack raw_a a0 a1 raw_b b0 b1 =
     bind_outcome (make_session 6 SHARED_SECRET raw_a a0) (\<lambda>session_a.
     bind_outcome (compute_token (auth_nonce session_a) SHARED_SECRET) (\<lambda>intercepted_token.
     let (_, session_a) = submit_token intercepted_token a1 session_a in
     bind_outcome (make_session 7 SHARED_SECRET raw_b b0) (\<lambda>session_b.
       let (ok, session_b) = submit_token intercepted_token b1 session_b
       in Inr (ok, auth_state session_b))))"

type_synonym Sessions = "(int, AuthSession) umap"

fun open_sessions :: "(int \<Rightarrow> u64) \<Rightarrow> time_ns \<Rightarrow> int list \<Rightarrow> Sessions \<Rightarrow> Sessions outcome" where
  "open_sessions raw t0 [] m = Inr m"
| "open_sessions raw t0 (fd # fds) m =
     bind_outcome (make_session fd SHARED_SECRET (raw fd) t0) (\<lambda>s.
       open_sessions raw t0 fds (um_put fd s m))"

text \<open>\<open>sessions[fd]->submit_token(...)\<close>: a missing entry would be a null pointer.\<close>

definition submit_at :: "int \<Rightarrow> string \<Rightarrow> time_ns \<Rightarrow> Sessions \<Rightarrow> Sessions outcome" where
  "submit_at fd tok now m =
     (case um_find m fd of
        None \<Rightarrow> Inl Undefined
      | Some s \<Rightarrow> Inr (um_put fd (snd (submit_token tok now s)) m))"

fun respond_all :: "time_ns \<Rightarrow> int list \<Rightarrow> Sessions \<Rightarrow> Sessions outcome" where
  "respond_all t1 [] m = Inr m"
| "respond_all t1 (fd # fds) m =
     (case um_find m fd of
        None \<Rightarrow> Inl Undefined
      | Some s \<Rightarrow> bind_outcome (compute_token (auth_nonce s) SHARED_SECRET) (\<lambda>tok.
          bind_outcome (submit_at fd tok t1 m) (respond_all t1 fds)))"

definition test_session_manager :: "(int \<Rightarrow> u64) \<Rightarrow> time_ns \<Rightarrow> time_ns \<Rightarrow> Sessions outcome" where
  "test_session_manager raw t0 t1 =
     bind_outcome (open_sessions raw t0 [10, 11, 12, 13, 14] []) (\<lambda>m.
     bind_outcome (respond_all t1 [10, 11, 12] m) (\<lambda>m.
       submit_at 13 ''deadbeefcafebabe'' t1 m))"

section \<open>Specification\<close>

text \<open>The bytes the secret contributes to a token.\<close>

definition token_pad :: "string \<Rightarrow> u8 list" where
  "token_pad secret = map (\<lambda>i. u8_of_char (secret ! (i mod length secret)) XOR
     u8_of_char (secret ! ((i + 3) mod length secret))) [0..<8]"

definition xor_bytes :: "u8 list \<Rightarrow> u8 list \<Rightarrow> u8 list" where
  "xor_bytes xs ys = map2 (XOR) xs ys"

text \<open>An eavesdropper's computation: reads the bytes of a token back from its hexadecimal
  form, and derives the token of another nonce. It does not know the secret.\<close>

definition unhex_digit :: "char \<Rightarrow> nat" where
  "unhex_digit c = (let n = of_char c in if n < (97 :: nat) then n - 48 else n - 87)"

fun unhex :: "string \<Rightarrow> u8 list" where
  "unhex (a # b # cs) = of_nat (16 * unhex_digit a + unhex_digit b) # unhex cs"
| "unhex _ = []"

definition forge_token :: "Nonce \<Rightarrow> string \<Rightarrow> Nonce \<Rightarrow> string" where
  "forge_token seen_nonce seen_token nonce =
     hex_bytes (xor_bytes (xor_bytes (unhex seen_token) seen_nonce) nonce)"

text \<open>The session the gateway scenario creates for a descriptor.\<close>

definition session_at :: "(int \<Rightarrow> u64) \<Rightarrow> time_ns \<Rightarrow> int \<Rightarrow> AuthSession" where
  "session_at raw t0 fd = \<lparr> auth_fd = fd, auth_secret = SHARED_SECRET, auth_nonce = generate_nonce (raw fd),
     expected_token = hex_bytes (xor_bytes (generate_nonce (raw fd)) (token_pad SHARED_SECRET)),
     auth_state = CHALLENGE_SENT, auth_created_at = t0 \<rparr>"

section \<open>Lemmas\<close>

lemma auth_state_str_inj: "inj auth_state_str"
proof -
  have "\<forall>s s'. auth_state_str s = auth_state_str s' \<longrightarrow> s = s'" by code_simp
  then show ?thesis by (simp add: inj_def)
qed

lemma upt8: "[0..<8] = [0, 1, 2, 3, 4, 5, 6, 7 :: nat]"
  by (simp add: upt_rec)

lemma length_generate_nonce [simp]: "length (generate_nonce raw) = 8"
  by (simp add: generate_nonce_def)

lemma length_token_pad [simp]: "length (token_pad s) = 8"
  by (simp add: token_pad_def)

lemma generate_nonce_bit:
  "i < 64 \<Longrightarrow> bit raw i \<longleftrightarrow> bit (generate_nonce raw ! (i div 8)) (i mod 8)"
proof -
  have "bit (mask 8 :: u64) (i mod 8)" unfolding bit_mask_iff by simp
  then have "bit (255 :: u64) (i mod 8)" by (simp add: mask_eq_exp_minus_1)
  then show "i < 64 \<Longrightarrow> bit raw i \<longleftrightarrow> bit (generate_nonce raw ! (i div 8)) (i mod 8)"
    by (simp add: generate_nonce_def bit_simps less_mult_imp_div_less order.strict_trans [of _ 8])
qed

lemma generate_nonce_inj: "generate_nonce r1 = generate_nonce r2 \<Longrightarrow> r1 = r2"
  by (rule bit_word_eqI) (simp add: generate_nonce_bit)

lemma compute_token_pad:
  assumes "secret \<noteq> []" and "length n = 8"
  shows "compute_token n secret = Inr (hex_bytes (xor_bytes n (token_pad secret)))"
proof -
  let ?k = "\<lambda>i. u8_of_char (secret ! (i mod length secret))"
  let ?l = "\<lambda>i. u8_of_char (secret ! ((i + 3) mod length secret))"
  have "map (\<lambda>i. (map (\<lambda>i. n ! i XOR ?k i) [0..<8] ! i) XOR ?l i) [0..<8] = xor_bytes n (token_pad secret)"
    using assms(2) by (intro nth_equalityI) (simp_all add: xor_bytes_def token_pad_def xor.assoc)
  then show ?thesis
    using assms(1) by (simp add: compute_token_def Let_def)
qed

lemma xor_bytes_cancel: "length xs \<le> length ys \<Longrightarrow> xor_bytes (xor_bytes xs ys) ys = xs"
proof (induction xs arbitrary: ys)
  case (Cons x xs)
  then show ?case by (cases ys) (simp_all add: xor_bytes_def xor.assoc)
qed (simp add: xor_bytes_def)

lemma xor_bytes_commute: "xor_bytes xs ys = xor_bytes ys xs"
proof (induction xs arbitrary: ys)
  case (Cons x xs)
  then show ?case by (cases ys) (simp_all add: xor_bytes_def xor.commute)
qed (simp add: xor_bytes_def)

lemma compute_token_inj:
  assumes "compute_token n1 s = Inr t" and "compute_token n2 s = Inr t"
    and "length n1 = 8" and "length n2 = 8"
  shows "n1 = n2"
proof -
  have "s \<noteq> []" using assms(1) by (auto simp: compute_token_def)
  then have "hex_bytes (xor_bytes n1 (token_pad s)) = hex_bytes (xor_bytes n2 (token_pad s))"
    using assms by (simp add: compute_token_pad)
  then have "xor_bytes n1 (token_pad s) = xor_bytes n2 (token_pad s)" by (rule hex_bytes_inj)
  then show ?thesis using xor_bytes_cancel assms(3,4) by (metis length_token_pad order_refl)
qed

lemma unhex_hex_digit: "n < 16 \<Longrightarrow> unhex_digit (hex_digit n) = n"
proof -
  have "\<forall>n \<in> set [0..<16]. unhex_digit (hex_digit n) = n" by code_simp
  then show "n < 16 \<Longrightarrow> unhex_digit (hex_digit n) = n" by simp
qed

lemma unhex_hex_bytes: "unhex (hex_bytes bs) = bs"
proof (induction bs)
  case (Cons b bs)
  have "unat b < 256" using unsigned_less [of b] by simp
  then have "unhex_digit (hex_digit (unat b div 16)) = unat b div 16"
    "unhex_digit (hex_digit (unat b mod 16)) = unat b mod 16"
    by (simp_all add: unhex_hex_digit)
  with Cons show ?case by (simp add: hex_bytes_def hex2_def)
qed (simp add: hex_bytes_def)

lemma compute_token_session:
  "make_session fd secret raw t0 = Inr s \<Longrightarrow> secret \<noteq> [] \<and> auth_nonce s = generate_nonce raw \<and>
     compute_token (generate_nonce raw) secret = Inr (expected_token s) \<and>
     auth_state s = CHALLENGE_SENT \<and> auth_created_at s = t0"
  by (auto simp: make_session_def bind_outcome_Inr compute_token_def Let_def)

lemma make_session_total: "secret \<noteq> [] \<Longrightarrow> \<exists>s. make_session fd secret raw t0 = Inr s"
  by (simp add: make_session_def compute_token_pad bind_outcome_def Let_def)

lemma submit_token_terminal:
  "auth_state s \<noteq> CHALLENGE_SENT \<Longrightarrow> submit_token tok now s = (False, s)"
  by (simp add: submit_token_def)

lemma submit_token_settles: "auth_state (snd (submit_token tok now s)) \<noteq> CHALLENGE_SENT"
  by (simp add: submit_token_def)

lemma submit_all_terminal:
  "auth_state s \<noteq> CHALLENGE_SENT \<Longrightarrow> submit_all qs s = (replicate (length qs) False, s)"
  by (induction qs) (simp_all add: submit_token_terminal)

lemma submit_token_fresh:
  assumes "make_session fd secret raw t0 = Inr s"
  shows "auth_state (snd (submit_token tok now s)) =
     (if 5 \<le> ns_to_s (now - t0) then TIMED_OUT
      else if compute_token (generate_nonce raw) secret = Inr tok then AUTHENTICATED else REJECTED)"
    and "fst (submit_token tok now s) \<longleftrightarrow>
      \<not> 5 \<le> ns_to_s (now - t0) \<and> compute_token (generate_nonce raw) secret = Inr tok"
  using compute_token_session [OF assms] by (auto simp: submit_token_def is_timed_out_def)

lemma SHARED_SECRET_ne [simp]: "SHARED_SECRET \<noteq> []"
  by (simp add: SHARED_SECRET_def)

lemma wrong_secret_pad: "token_pad SHARED_SECRET \<noteq> token_pad ''wrong_secret''"
  by code_simp

lemma wrong_secret_token:
  "length n = 8 \<Longrightarrow> compute_token n SHARED_SECRET \<noteq> compute_token n ''wrong_secret''"
  using wrong_secret_pad xor_bytes_cancel [of "token_pad SHARED_SECRET" n]
    xor_bytes_cancel [of "token_pad ''wrong_secret''" n]
  by (auto simp: compute_token_pad xor_bytes_commute [of n] dest: hex_bytes_inj)

lemma submit_at_known:
  "um_find m fd = Some s \<Longrightarrow> submit_at fd tok now m = Inr (um_put fd (snd (submit_token tok now s)) m)"
  by (simp add: submit_at_def)

lemma make_session_at: "make_session fd SHARED_SECRET (raw fd) t0 = Inr (session_at raw t0 fd)"
  by (simp add: make_session_def compute_token_pad bind_outcome_def Let_def session_at_def)

lemma session_manager_opens:
  "open_sessions raw t0 fds m = Inr (fold (\<lambda>fd. um_put fd (session_at raw t0 fd)) fds m)"
  by (induction fds arbitrary: m) (simp_all add: make_session_at bind_outcome_def)

lemma submit_session_at:
  "snd (submit_token tok t1 (session_at raw t0 fd)) = (session_at raw t0 fd)
     \<lparr> auth_state := (if 5 \<le> ns_to_s (t1 - t0) then TIMED_OUT
        else if compute_token (generate_nonce (raw fd)) SHARED_SECRET = Inr tok
        then AUTHENTICATED else REJECTED) \<rparr>"
  by (auto simp: submit_token_def is_timed_out_def session_at_def compute_token_pad)

section \<open>Properties\<close>

text \<open>
  C9: a session is decided by its first submission: it becomes authenticated exactly when the
  first token equals the token of its nonce and comes within five seconds, and nothing submitted
  afterwards changes the state or is accepted.
\<close>

theorem auth_first_submission:
  assumes "make_session fd secret raw t0 = Inr s"
  shows "submit_all ((tok, t) # qs) s =
     (let ok = (ns_to_s (t - t0) < 5 \<and> compute_token (generate_nonce raw) secret = Inr tok)
      in (ok # replicate (length qs) False,
          s\<lparr> auth_state := (if 5 \<le> ns_to_s (t - t0) then TIMED_OUT
                          else if ok then AUTHENTICATED else REJECTED) \<rparr>))"
proof -
  have "submit_token tok t s = (ns_to_s (t - t0) < 5 \<and> compute_token (generate_nonce raw) secret = Inr tok,
      s\<lparr> auth_state := (if 5 \<le> ns_to_s (t - t0) then TIMED_OUT
        else if compute_token (generate_nonce raw) secret = Inr tok then AUTHENTICATED else REJECTED) \<rparr>)"
    using compute_token_session [OF assms] by (auto simp: submit_token_def is_timed_out_def)
  then show ?thesis by (auto simp: submit_all_terminal Let_def)
qed

theorem auth_first_submission_witness:
  "\<exists>s tok. make_session 4 ''key'' 7 0 = Inr s \<and> compute_token (generate_nonce 7) ''key'' = Inr tok \<and>
     fst (submit_all [(tok, 1000000000), (tok, 2000000000)] s) = [True, False] \<and>
     auth_state (snd (submit_all [(tok, 1000000000), (tok, 2000000000)] s)) = AUTHENTICATED"
proof -
  obtain s where s: "make_session 4 ''key'' 7 0 = Inr s"
    using make_session_total by blast
  obtain tok where tok: "compute_token (generate_nonce 7) ''key'' = Inr tok"
    by (simp add: compute_token_def Let_def)
  from auth_first_submission [OF s, of tok 1000000000 "[(tok, 2000000000)]"] s tok show ?thesis
    by (auto simp: ns_to_s_def cdiv_def)
qed

text \<open>
  C25: a recorded token is of no use for another session: replayed verbatim to a session of the
  same secret with another random value, it is never accepted.
\<close>

theorem replay_rejected:
  assumes "make_session fda secret raw_a ta = Inr a" and "make_session fdb secret raw_b tb = Inr b"
    and "raw_a \<noteq> raw_b"
  shows "\<not> fst (submit_token (expected_token a) now b) \<and>
     auth_state (snd (submit_token (expected_token a) now b)) \<in> {REJECTED, TIMED_OUT}"
proof -
  note a = compute_token_session [OF assms(1)]
  have "compute_token (generate_nonce raw_b) secret \<noteq> Inr (expected_token a)"
  proof
    assume "compute_token (generate_nonce raw_b) secret = Inr (expected_token a)"
    then have "generate_nonce raw_a = generate_nonce raw_b"
      using a by (intro compute_token_inj [of _ secret "expected_token a"]) simp_all
    with assms(3) show False by (blast dest: generate_nonce_inj)
  qed
  then show ?thesis by (simp add: submit_token_fresh [OF assms(2)])
qed

theorem replay_rejected_witness:
  "\<exists>a b. make_session 6 SHARED_SECRET 1 0 = Inr a \<and> make_session 7 SHARED_SECRET 2 0 = Inr b \<and>
     \<not> fst (submit_token (expected_token a) 0 b)"
proof -
  obtain a b where ab: "make_session 6 SHARED_SECRET 1 0 = Inr a" "make_session 7 SHARED_SECRET 2 0 = Inr b"
    using make_session_total [OF SHARED_SECRET_ne] by metis
  from replay_rejected [OF ab, of 0] ab show ?thesis by auto
qed

text \<open>
  C30: the token is not a message authentication code: whoever sees one nonce and its token can
  compute, without the secret, the token a session of the same secret expects for any other nonce,
  and is authenticated with it.
\<close>

theorem token_forgery:
  assumes "make_session fda secret raw_a ta = Inr a" and "make_session fdb secret raw_b tb = Inr b"
    and "ns_to_s (now - tb) < 5"
  shows "auth_state (snd (submit_token
     (forge_token (auth_nonce a) (expected_token a) (auth_nonce b)) now b)) = AUTHENTICATED"
proof -
  note a = compute_token_session [OF assms(1)] and b = compute_token_session [OF assms(2)]
  let ?na = "generate_nonce raw_a" and ?nb = "generate_nonce raw_b" and ?p = "token_pad secret"
  have "expected_token a = hex_bytes (xor_bytes ?p ?na)"
    using a compute_token_pad [of secret ?na] by (simp add: xor_bytes_commute)
  then have "forge_token (auth_nonce a) (expected_token a) (auth_nonce b) = hex_bytes (xor_bytes ?p ?nb)"
    using a b by (simp add: forge_token_def unhex_hex_bytes xor_bytes_cancel)
  then have "compute_token ?nb secret =
      Inr (forge_token (auth_nonce a) (expected_token a) (auth_nonce b))"
    using b compute_token_pad [of secret ?nb] by (simp add: xor_bytes_commute)
  then show ?thesis using assms(3) by (simp add: submit_token_fresh [OF assms(2)])
qed

theorem token_forgery_witness:
  "\<exists>a b. make_session 6 SHARED_SECRET 1 0 = Inr a \<and> make_session 7 SHARED_SECRET 2 0 = Inr b \<and>
     auth_state (snd (submit_token
       (forge_token (auth_nonce a) (expected_token a) (auth_nonce b)) 0 b)) = AUTHENTICATED"
proof -
  obtain a b where ab: "make_session 6 SHARED_SECRET 1 0 = Inr a" "make_session 7 SHARED_SECRET 2 0 = Inr b"
    using make_session_total [OF SHARED_SECRET_ne] by metis
  from token_forgery [OF ab, of 0] ab show ?thesis by (auto simp: ns_to_s_def cdiv_def)
qed

text \<open>
  a secret of one or three characters gives no protection at all: its two passes cancel and
  the token a client has to return is the challenge itself in hexadecimal.
\<close>

theorem short_secret_is_public:
  assumes "length secret \<in> {1, 3}"
  shows "compute_token (generate_nonce raw) secret = Inr (nonce_to_hex (generate_nonce raw))"
proof -
  have "(i + 3) mod length secret = i mod length secret" for i using assms by auto
  then have "token_pad secret = replicate 8 0" by (simp add: token_pad_def map_replicate_trivial
      flip: map_replicate_const)
  moreover have "xor_bytes (generate_nonce raw) (replicate 8 0) = generate_nonce raw"
    by (intro nth_equalityI) (simp_all add: xor_bytes_def)
  ultimately show ?thesis using assms by (subst compute_token_pad) (auto simp: nonce_to_hex_def)
qed

theorem short_secret_is_public_witness:
  "compute_token (generate_nonce 0x0807060504030201) ''abc'' = Inr ''0102030405060708''"
proof -
  have "nonce_to_hex (generate_nonce 0x0807060504030201) = ''0102030405060708''"
    by code_simp
  then show ?thesis using short_secret_is_public [of "''abc''"] by simp
qed

text \<open>
  the scenarios of phase 13 end as their comments say when every answer comes within five
  seconds: the valid client is authenticated, the client of another secret rejected, the replayed
  token rejected when the two random values differ, and of the five sessions three are
  authenticated, one is rejected (unless its nonce happens to make the garbage the right token)
  and one stays open.
\<close>

theorem phase13_results:
  assumes "ns_to_s (t1 - t0) < 5" and "raw_a \<noteq> raw_b"
    and "compute_token (generate_nonce (raw 13)) SHARED_SECRET \<noteq> Inr ''deadbeefcafebabe''"
  shows "test_valid_auth raw1 t0 t1 = Inr (True, AUTHENTICATED) \<and>
    test_invalid_auth raw2 t0 t1 = Inr (False, REJECTED) \<and>
    test_replay_attack raw_a a0 a1 raw_b t0 t1 = Inr (False, REJECTED) \<and>
    (\<exists>m. test_session_manager raw t0 t1 = Inr m \<and>
      map (\<lambda>fd. map_option auth_state (um_find m fd)) [10, 11, 12, 13, 14] =
        [Some AUTHENTICATED, Some AUTHENTICATED, Some AUTHENTICATED, Some REJECTED, Some CHALLENGE_SENT])"
proof (intro conjI)
  note simps = make_session_at [of _ "\<lambda>_. _"] bind_outcome_def compute_token_pad
  have late: "\<not> 5 \<le> ns_to_s (t1 - t0)" using assms(1) by simp
  have nonce: "auth_nonce (session_at r t fd) = generate_nonce (r fd)"
    "auth_state (session_at r t fd) = CHALLENGE_SENT" for r t fd
    by (simp_all add: session_at_def)
  show "test_valid_auth raw1 t0 t1 = Inr (True, AUTHENTICATED)"
    using late by (simp add: test_valid_auth_def simps submit_token_def is_timed_out_def session_at_def)
  show "test_invalid_auth raw2 t0 t1 = Inr (False, REJECTED)"
    using late wrong_secret_token [of "generate_nonce raw2"]
    by (simp add: test_invalid_auth_def simps submit_token_def is_timed_out_def session_at_def)
  have "hex_bytes (xor_bytes (generate_nonce raw_a) (token_pad SHARED_SECRET)) \<noteq>
      hex_bytes (xor_bytes (generate_nonce raw_b) (token_pad SHARED_SECRET))"
    using assms(2) compute_token_inj [of "generate_nonce raw_a" SHARED_SECRET _ "generate_nonce raw_b"]
    by (auto simp: compute_token_pad dest: generate_nonce_inj)
  then show "test_replay_attack raw_a a0 a1 raw_b t0 t1 = Inr (False, REJECTED)"
    using late
    by (simp add: test_replay_attack_def simps submit_token_def is_timed_out_def session_at_def)
  show "\<exists>m. test_session_manager raw t0 t1 = Inr m \<and>
      map (\<lambda>fd. map_option auth_state (um_find m fd)) [10, 11, 12, 13, 14] =
        [Some AUTHENTICATED, Some AUTHENTICATED, Some AUTHENTICATED, Some REJECTED, Some CHALLENGE_SENT]"
    using late assms(3)
    by (simp add: test_session_manager_def session_manager_opens bind_outcome_def submit_at_def
        submit_session_at nonce compute_token_pad)
qed

theorem phase13_results_witness:
  "test_replay_attack 1 0 0 2 0 1000000000 = Inr (False, REJECTED) \<and>
   (\<exists>m. test_session_manager (\<lambda>_. 0) 0 1000000000 = Inr m \<and>
     map_option auth_state (um_find m 13) = Some REJECTED)"
proof -
  have "compute_token (generate_nonce 0) SHARED_SECRET \<noteq> Inr ''deadbeefcafebabe''"
    by code_simp
  then have "test_replay_attack 1 0 0 2 0 1000000000 = Inr (False, REJECTED) \<and>
     (\<exists>m. test_session_manager (\<lambda>_. 0) 0 1000000000 = Inr m \<and>
      map (\<lambda>fd. map_option auth_state (um_find m fd)) [10, 11, 12, 13, 14] =
        [Some AUTHENTICATED, Some AUTHENTICATED, Some AUTHENTICATED, Some REJECTED, Some CHALLENGE_SENT])"
    using phase13_results [of 1000000000 0 1 2 "\<lambda>_. 0"] by (simp add: ns_to_s_def cdiv_def)
  then show ?thesis by auto
qed

end
