(* ===== verification/Connection_Manager.thy ===== *)
theory Connection_Manager
  imports Gateway_Prelude
begin

text \<open>
  \<open>include/network/Connection.hpp\<close> and \<open>include/network/ConnectionManager.hpp\<close>. A
  \<open>std::shared_ptr<Connection>\<close> is an address in a store of connection objects, so that a
  handle obtained from the manager stays valid after the manager has dropped or replaced its
  entry. Allocation appends to the store; the end of an object's life has no effect of its own.
  Every member function of the manager runs under its mutex and is therefore one step.
\<close>

section \<open>Data and operations\<close>

datatype ConnectionState = Conn_CONNECTED | Conn_AUTHENTICATING | Conn_AUTHENTICATED | Conn_CLOSING | Conn_CLOSED

definition state_to_string :: "ConnectionState \<Rightarrow> string" where
  "state_to_string s =
     (case s of
        Conn_CONNECTED \<Rightarrow> ''CONNECTED''
      | Conn_AUTHENTICATING \<Rightarrow> ''AUTHENTICATING''
      | Conn_AUTHENTICATED \<Rightarrow> ''AUTHENTICATED''
      | Conn_CLOSING \<Rightarrow> ''CLOSING''
      | Conn_CLOSED \<Rightarrow> ''CLOSED'')"

record Connection =
  conn_fd :: int
  client_ip :: string
  client_port :: u16
  conn_state :: ConnectionState
  last_activity :: time_ns
  bytes_received :: u64
  bytes_sent :: u64
  packets_processed :: u64
  rx_buffer :: "u8 list"
  tx_buffer :: "u8 list"

definition make_connection :: "int \<Rightarrow> string \<Rightarrow> u16 \<Rightarrow> time_ns \<Rightarrow> Connection" where
  "make_connection fd ip prt now =
     \<lparr> conn_fd = fd, client_ip = ip, client_port = prt, conn_state = Conn_CONNECTED,
       last_activity = now, bytes_received = 0, bytes_sent = 0, packets_processed = 0,
       rx_buffer = [], tx_buffer = [] \<rparr>"

definition touch :: "time_ns \<Rightarrow> Connection \<Rightarrow> Connection" where
  "touch now c = c\<lparr> last_activity := now \<rparr>"

definition set_state :: "ConnectionState \<Rightarrow> time_ns \<Rightarrow> Connection \<Rightarrow> Connection" where
  "set_state new_state now c = touch now (c\<lparr> conn_state := new_state \<rparr>)"

definition get_idle_seconds :: "time_ns \<Rightarrow> Connection \<Rightarrow> int" where
  "get_idle_seconds now c = ns_to_s (now - last_activity c)"

definition record_recv :: "u64 \<Rightarrow> time_ns \<Rightarrow> Connection \<Rightarrow> Connection" where
  "record_recv bytes now c =
     touch now (c\<lparr> bytes_received := bytes_received c + bytes,
                  packets_processed := packets_processed c + 1 \<rparr>)"

definition record_send :: "u64 \<Rightarrow> time_ns \<Rightarrow> Connection \<Rightarrow> Connection" where
  "record_send bytes now c = touch now (c\<lparr> bytes_sent := bytes_sent c + bytes \<rparr>)"

text \<open>The store of connection objects and the manager's table of handles.\<close>

type_synonym handle = nat

record manager =
  objects :: "Connection list"
  connections :: "(int, handle) umap"

definition new_manager :: manager where
  "new_manager = \<lparr> objects = [], connections = [] \<rparr>"

definition add_connection :: "int \<Rightarrow> string \<Rightarrow> u16 \<Rightarrow> time_ns \<Rightarrow> manager \<Rightarrow> handle \<times> manager" where
  "add_connection fd ip prt now m =
     (let conn = length (objects m)
      in (conn, m\<lparr> objects := objects m @ [make_connection fd ip prt now],
                  connections := um_put fd conn (connections m) \<rparr>))"

definition get_connection :: "int \<Rightarrow> manager \<Rightarrow> handle option" where
  "get_connection fd m = um_find (connections m) fd"

definition remove_connection :: "int \<Rightarrow> manager \<Rightarrow> manager" where
  "remove_connection fd m = m\<lparr> connections := um_erase fd (connections m) \<rparr>"

definition active_connection_count :: "manager \<Rightarrow> nat" where
  "active_connection_count m = um_size (connections m)"

text \<open>The loop reads the clock once for every connection: \<open>now fd\<close> when it looks at \<open>fd\<close>.\<close>

definition get_expired_connections :: "int \<Rightarrow> (int \<Rightarrow> time_ns) \<Rightarrow> manager \<Rightarrow> int list" where
  "get_expired_connections timeout_sec now m =
     map fst (filter (\<lambda>(fd, conn). timeout_sec \<le> get_idle_seconds (now fd) (objects m ! conn)) (connections m))"

text \<open>A member function of a connection called through a handle.\<close>

definition via :: "handle \<Rightarrow> (Connection \<Rightarrow> Connection) \<Rightarrow> manager \<Rightarrow> manager" where
  "via h f m = m\<lparr> objects := (objects m)[h := f (objects m ! h)] \<rparr>"

section \<open>Specification\<close>

text \<open>What a client of the manager sees: a finite map from descriptors to connections.\<close>

definition view :: "manager \<Rightarrow> int \<Rightarrow> Connection option" where
  "view m fd = map_option (\<lambda>h. objects m ! h) (um_find (connections m) fd)"

definition manager_ok :: "manager \<Rightarrow> bool" where
  "manager_ok m \<longleftrightarrow> um_ok (connections m) \<and>
     (\<forall>fd h. um_find (connections m) fd = Some h \<longrightarrow> h < length (objects m) \<and> conn_fd (objects m ! h) = fd)"

text \<open>Requests to the manager, as the code makes them: a look-up followed by a call through the
  handle, when there is one.\<close>

datatype conn_call = Recv u64 time_ns | Sent u64 time_ns | SetState ConnectionState time_ns

datatype conn_op = AddConn int string u16 time_ns | RemoveConn int | OnConn int conn_call

fun apply_call :: "conn_call \<Rightarrow> Connection \<Rightarrow> Connection" where
  "apply_call (Recv n now) c = record_recv n now c"
| "apply_call (Sent n now) c = record_send n now c"
| "apply_call (SetState s now) c = set_state s now c"

fun do_op :: "conn_op \<Rightarrow> manager \<Rightarrow> manager" where
  "do_op (AddConn fd ip prt now) m = snd (add_connection fd ip prt now m)"
| "do_op (RemoveConn fd) m = remove_connection fd m"
| "do_op (OnConn fd call) m =
     (case get_connection fd m of None \<Rightarrow> m | Some h \<Rightarrow> via h (apply_call call) m)"

fun spec_op :: "conn_op \<Rightarrow> (int \<Rightarrow> Connection option) \<Rightarrow> int \<Rightarrow> Connection option" where
  "spec_op (AddConn fd ip prt now) v = v(fd \<mapsto> make_connection fd ip prt now)"
| "spec_op (RemoveConn fd) v = v(fd := None)"
| "spec_op (OnConn fd call) v = v(fd := map_option (apply_call call) (v fd))"

text \<open>The sizes of the chunks received on one descriptor since it was last added.\<close>

fun note_recv :: "int \<Rightarrow> conn_op \<Rightarrow> nat list \<Rightarrow> nat list" where
  "note_recv fd (AddConn g ip prt now) acc = (if g = fd then [] else acc)"
| "note_recv fd (OnConn g (Recv n now)) acc = (if g = fd then acc @ [unat n] else acc)"
| "note_recv fd _ acc = acc"

definition chunks_received :: "int \<Rightarrow> conn_op list \<Rightarrow> nat list" where
  "chunks_received fd cs = fold (note_recv fd) cs []"

definition counts :: "nat list \<Rightarrow> Connection \<Rightarrow> bool" where
  "counts acc c \<longleftrightarrow> bytes_received c = of_nat (sum_list acc) \<and> packets_processed c = of_nat (length acc)"

section \<open>Lemmas\<close>

lemmas connection_defs = make_connection_def touch_def set_state_def record_recv_def record_send_def

lemma conn_fd_simps [simp]:
  "conn_fd (make_connection fd ip prt now) = fd" "conn_fd (touch now c) = conn_fd c"
  "conn_fd (set_state st now c) = conn_fd c" "conn_fd (record_recv n now c) = conn_fd c"
  "conn_fd (record_send n now c) = conn_fd c"
  by (simp_all add: connection_defs)

lemma last_activity_simps [simp]:
  "last_activity (make_connection fd ip prt now) = now" "last_activity (touch now c) = now"
  "last_activity (set_state st now c) = now" "last_activity (record_recv n now c) = now"
  "last_activity (record_send n now c) = now"
  by (simp_all add: connection_defs)

lemma conn_fd_apply_call [simp]: "conn_fd (apply_call call c) = conn_fd c"
  by (cases call) simp_all

lemma new_manager_ok: "manager_ok new_manager"
  by (simp add: manager_ok_def new_manager_def)

lemma add_connection_ok:
  "manager_ok m \<Longrightarrow> manager_ok (snd (add_connection fd ip prt now m))"
  by (force simp: manager_ok_def add_connection_def Let_def nth_append)

lemma remove_connection_ok: "manager_ok m \<Longrightarrow> manager_ok (remove_connection fd m)"
  by (simp add: manager_ok_def remove_connection_def)

lemma via_ok:
  assumes "manager_ok m" and "\<And>c. conn_fd (f c) = conn_fd c"
  shows "manager_ok (via h f m)"
proof -
  have "conn_fd ((objects m)[h := f (objects m ! h)] ! k) = conn_fd (objects m ! k)"
    if "k < length (objects m)" for k
    using that assms(2) by (cases "k = h") simp_all
  with assms(1) show ?thesis by (simp add: manager_ok_def via_def)
qed

lemma do_op_ok: "manager_ok m \<Longrightarrow> manager_ok (do_op c m)"
  by (cases c) (auto simp: add_connection_ok remove_connection_ok split: option.splits intro!: via_ok)

lemma view_add:
  "manager_ok m \<Longrightarrow> view (snd (add_connection fd ip prt now m)) = (view m)(fd \<mapsto> make_connection fd ip prt now)"
  by (rule ext) (auto simp: view_def add_connection_def Let_def nth_append manager_ok_def
      intro!: option.map_cong)

lemma view_remove: "view (remove_connection fd m) = (view m)(fd := None)"
  by (rule ext) (simp add: view_def remove_connection_def)

text \<open>Two descriptors never share an object, so a call through the handle of one descriptor
  changes the view of this descriptor only.\<close>

lemma handles_distinct:
  "manager_ok m \<Longrightarrow> um_find (connections m) fd = Some h \<Longrightarrow> um_find (connections m) g = Some h \<Longrightarrow> fd = g"
  unfolding manager_ok_def by metis

lemma view_via:
  assumes "manager_ok m" and "um_find (connections m) fd = Some h"
  shows "view (via h f m) = (view m)(fd := map_option f (view m fd))"
proof
  fix g
  show "view (via h f m) g = ((view m)(fd := map_option f (view m fd))) g"
    using assms handles_distinct [OF assms(1), of _ h]
    by (cases "um_find (connections m) g")
      (auto simp: view_def via_def manager_ok_def nth_list_update)
qed

lemma view_do_op:
  assumes "manager_ok m"
  shows "view (do_op c m) = spec_op c (view m)"
proof (cases c)
  case (OnConn fd call)
  show ?thesis
  proof (cases "um_find (connections m) fd")
    case None
    then have "view m fd = None" by (simp add: view_def)
    with None OnConn show ?thesis by (simp add: get_connection_def fun_upd_idem)
  next
    case (Some h)
    with assms OnConn show ?thesis by (simp add: get_connection_def view_via)
  qed
qed (use assms in \<open>simp_all add: view_add view_remove\<close>)

lemma fold_do_op: "manager_ok m \<Longrightarrow>
  manager_ok (fold do_op cs m) \<and> view (fold do_op cs m) = fold spec_op cs (view m)"
  by (induction cs arbitrary: m) (simp_all add: do_op_ok view_do_op)

text \<open>Calls through a handle the manager no longer holds are invisible to it.\<close>

lemma view_via_stale:
  "\<forall>fd. um_find (connections m) fd \<noteq> Some h \<Longrightarrow> view (via h f m) = view m"
proof
  fix fd
  assume "\<forall>fd. um_find (connections m) fd \<noteq> Some h"
  then have "um_find (connections m) fd \<noteq> Some h" by blast
  then show "view (via h f m) fd = view m fd"
    by (cases "um_find (connections m) fd") (simp_all add: view_def via_def)
qed

lemma idle_iff: "0 < t \<Longrightarrow> t \<le> get_idle_seconds now c \<longleftrightarrow> last_activity c + t * 1000000000 \<le> now"
  by (auto simp: get_idle_seconds_def ns_to_s_def cdiv_def)

lemma set_expired:
  assumes "manager_ok m"
  shows "fd \<in> set (get_expired_connections t now m) \<longleftrightarrow>
    (\<exists>c. view m fd = Some c \<and> t \<le> get_idle_seconds (now fd) c)"
proof -
  have "(fd, h) \<in> set (connections m) \<longleftrightarrow> um_find (connections m) fd = Some h" for h
    using assms by (simp add: manager_ok_def um_ok_def um_find_def)
  then show ?thesis by (force simp: get_expired_connections_def view_def)
qed

lemma view_remove_all:
  "view (fold remove_connection fds m) = (\<lambda>fd. if fd \<in> set fds then None else view m fd)"
  by (induction fds arbitrary: m) (auto simp: view_remove fun_eq_iff)

lemma remove_all_ok: "manager_ok m \<Longrightarrow> manager_ok (fold remove_connection fds m)"
  by (induction fds arbitrary: m) (simp_all add: remove_connection_ok)

lemma count_view: "manager_ok m \<Longrightarrow> active_connection_count m = card (dom (view m))"
  by (simp add: active_connection_count_def manager_ok_def um.size_dom view_def [abs_def] dom_def)

lemma view_new [simp]: "view new_manager = Map.empty"
  by (simp add: view_def [abs_def] new_manager_def)

lemma reach_ok: "manager_ok (fold do_op cs new_manager)"
  using fold_do_op [OF new_manager_ok] by simp

lemma reach_view: "view (fold do_op cs new_manager) = fold spec_op cs Map.empty"
  using fold_do_op [OF new_manager_ok] by simp

lemma counts_calls:
  "counts [] (make_connection fd ip prt now)"
  "counts acc c \<Longrightarrow> counts (acc @ [unat n]) (record_recv n now c)"
  "counts acc c \<Longrightarrow> counts acc (record_send n now c)"
  "counts acc c \<Longrightarrow> counts acc (set_state st now c)"
  by (simp_all add: counts_def connection_defs)

lemma counts_step:
  "\<forall>c. v fd = Some c \<longrightarrow> counts acc c \<Longrightarrow> \<forall>c. spec_op x v fd = Some c \<longrightarrow> counts (note_recv fd x acc) c"
  by (induction fd x acc rule: note_recv.induct) (auto simp: counts_calls)

lemma spec_counts:
  "fold spec_op cs v fd = Some c \<Longrightarrow> \<forall>c. v fd = Some c \<longrightarrow> counts acc c \<Longrightarrow>
     counts (fold (note_recv fd) cs acc) c"
proof (induction cs arbitrary: v acc)
  case (Cons x cs)
  then show ?case using counts_step [of v fd acc x] by simp
qed simp

section \<open>Properties\<close>

text \<open>
  C10: refinement: whatever sequence of operations is applied to a new manager, what it holds for
  every descriptor is what the finite-map specification holds, and the count it reports is the
  number of descriptors it holds. In particular a call through the handle of one descriptor never
  changes the connection of another.
\<close>

theorem manager_refines:
  "view (fold do_op cs new_manager) = fold spec_op cs Map.empty \<and>
   active_connection_count (fold do_op cs new_manager) = card (dom (fold spec_op cs Map.empty))"
  by (simp add: count_view reach_ok reach_view)

text \<open>
  C36: reaping idle connections: removing what \<open>get_expired_connections\<close> returns leaves exactly
  the connections whose last activity is less than the timeout before the clock reading made for them.
\<close>

theorem reap_exact:
  assumes "0 < timeout" and "m = fold do_op cs new_manager"
  shows "view (fold remove_connection (get_expired_connections timeout now m) m) fd =
    (case view m fd of
       None \<Rightarrow> None
     | Some c \<Rightarrow> if last_activity c + timeout * 1000000000 \<le> now fd then None else Some c)"
proof -
  have "manager_ok m" using reach_ok assms(2) by simp
  then show ?thesis
    using assms(1) by (auto simp: view_remove_all set_expired idle_iff split: option.splits)
qed

theorem reap_exact_witness:
  "view (fold remove_connection (get_expired_connections 1 (\<lambda>fd. 1500000000 + fd)
      (fold do_op [AddConn 10 ''a'' 1 0, AddConn 11 ''b'' 2 900000000] new_manager))
      (fold do_op [AddConn 10 ''a'' 1 0, AddConn 11 ''b'' 2 900000000] new_manager)) 10 = None"
  using reap_exact [of 1 _ "[AddConn 10 ''a'' 1 0, AddConn 11 ''b'' 2 900000000]" "\<lambda>fd. 1500000000 + fd" 10]
  by (simp add: view_add add_connection_ok new_manager_ok)

text \<open>
  the traffic counters of a live connection are the number of bytes and of chunks received
  since the descriptor was last added, modulo \<open>2^64\<close>.
\<close>

theorem counters_exact:
  assumes "view (fold do_op cs new_manager) fd = Some c"
  shows "bytes_received c = of_nat (sum_list (chunks_received fd cs)) \<and>
    packets_processed c = of_nat (length (chunks_received fd cs))"
  using spec_counts [of cs Map.empty fd c "[]"] assms by (simp add: reach_view counts_def chunks_received_def)

theorem counters_exact_witness:
  "case view (fold do_op [AddConn 4 ''a'' 1 0, OnConn 4 (Recv 10 1), OnConn 4 (Recv 5 2)] new_manager) 4 of
     None \<Rightarrow> False
   | Some c \<Rightarrow> bytes_received c = 15 \<and> packets_processed c = 2"
proof -
  let ?cs = "[AddConn 4 ''a'' 1 0, OnConn 4 (Recv 10 1), OnConn 4 (Recv 5 2)]"
  obtain c where c: "view (fold do_op ?cs new_manager) 4 = Some c"
    unfolding reach_view by simp
  from counters_exact [OF c] show ?thesis unfolding c by (simp add: chunks_received_def)
qed

end
