(* ===== verification/Gateway_Tests.thy ===== *)
theory Gateway_Tests
  imports Packet_Protocol Route_Table Rate_Limiter Auth_Session Connection_Manager
begin

text \<open>
  The test programs that exercise several components: \<open>src/phase20_unit_tests.cpp\<close> and the
  scenarios of \<open>src/phase17_stress_fuzzer.cpp\<close>. Random values, clock readings, uninitialised
  bytes and \<open>inet_pton\<close> are arguments. A test suite is the list of the conditions it asserts,
  in order; dereferencing an empty \<open>std::optional\<close> is \<open>Undefined\<close>.
\<close>

section \<open>Phase 20: unit tests\<close>

definition test_suite_binary_protocol :: "endian \<Rightarrow> bool list outcome" where
  "test_suite_binary_protocol e =
     bind_outcome (make_packet_str e DATA ''Qualcomm Unit Test Payload'') (\<lambda>orig_pkt.
     bind_outcome (serialize e orig_pkt) (\<lambda>raw.
       let (ok, parsed_pkt) = deserialize e raw default_packet;
           raw2 = raw[0 := 99];
           (ok2, parsed_pkt2) = deserialize e raw2 parsed_pkt;
           (ok3, _) = deserialize e [1, 1, 0] parsed_pkt2
       in Inr [length raw = sizeof_PacketHeader + unat (get_payload_length e orig_pkt),
               ok,
               version (header parsed_pkt) = PROTOCOL_VERSION,
               get_type parsed_pkt = packet_type_code DATA,
               payload_as_string parsed_pkt = ''Qualcomm Unit Test Payload'',
               \<not> ok2, \<not> ok3]))"

definition phase20_routes :: "(string \<times> string) list" where
  "phase20_routes =
     [(''0.0.0.0/0'', ''eth0-default''), (''10.0.0.0/8'', ''eth1-broad''),
      (''10.10.0.0/16'', ''eth2-datacenter''), (''10.10.1.0/24'', ''eth3-subnet'')]"

text \<open>\<open>res.has_value()\<close> and then \<open>res->next_hop == hop\<close>.\<close>

definition check_hop :: "Route option \<Rightarrow> string \<Rightarrow> bool list outcome" where
  "check_hop res hop = (case res of None \<Rightarrow> Inl Undefined | Some r \<Rightarrow> Inr [True, next_hop r = hop])"

definition test_suite_routing_engine :: "(string \<Rightarrow> u32 option) \<Rightarrow> endian \<Rightarrow> bool list outcome" where
  "test_suite_routing_engine pton e =
     bind_outcome (add_routes pton e phase20_routes empty_table) (\<lambda>table.
     bind_outcome (check_hop (lookup pton e table ''10.10.1.50'') ''eth3-subnet'') (\<lambda>r1.
     bind_outcome (check_hop (lookup pton e table ''10.10.2.1'') ''eth2-datacenter'') (\<lambda>r2.
     bind_outcome (check_hop (lookup pton e table ''10.200.1.1'') ''eth1-broad'') (\<lambda>r3.
     bind_outcome (check_hop (lookup pton e table ''8.8.8.8'') ''eth0-default'') (\<lambda>r4.
       Inr (r1 @ r2 @ r3 @ r4))))))"

text \<open>The clock readings: at construction, at the six calls, and after the sleep.\<close>

definition test_suite_rate_limiter :: "time_ns \<Rightarrow> time_ns list \<Rightarrow> time_ns \<Rightarrow> time_ns \<Rightarrow> bool list outcome" where
  "test_suite_rate_limiter t0 ts t6 t7 =
     bind_outcome (make_limiter 5 5 t0) (\<lambda>limiter.
     bind_outcome (requests (map (Pair 1) ts) limiter) (\<lambda>(oks, limiter).
     bind_outcome (try_consume 1 t6 limiter) (\<lambda>(ok6, limiter).
     bind_outcome (try_consume 1 t7 limiter) (\<lambda>(ok7, limiter).
       Inr (oks @ [\<not> ok6, ok7])))))"

definition test_suite_auth_system ::
  "u64 \<Rightarrow> time_ns \<Rightarrow> time_ns \<Rightarrow> u64 \<Rightarrow> time_ns \<Rightarrow> time_ns \<Rightarrow> bool list outcome" where
  "test_suite_auth_system raw1 a0 a1 raw2 b0 b1 =
     bind_outcome (make_session 10 ''qualcomm_test_secret'' raw1 a0) (\<lambda>session.
     bind_outcome (compute_token (auth_nonce session) ''qualcomm_test_secret'') (\<lambda>valid_token.
     let (ok, session') = submit_token valid_token a1 session in
     bind_outcome (make_session 11 ''qualcomm_test_secret'' raw2 b0) (\<lambda>new_session.
       let (replayed, new_session') = submit_token valid_token b1 new_session
       in Inr [auth_state session = CHALLENGE_SENT,
               length (nonce_to_hex (auth_nonce session)) = 16,
               ok, auth_state session' = AUTHENTICATED,
               \<not> replayed, auth_state new_session' = REJECTED])))"

text \<open>The harness: \<open>TEST_ASSERT\<close> counts and goes on, so that a failed assertion does not end a suite. The counters have type
  \<open>int\<close>; an increment beyond its range is undefined.\<close>

record harness =
  g_tests_passed :: int
  g_tests_failed :: int

definition count_up :: "int \<Rightarrow> int outcome" where
  "count_up n = (if n < 2147483647 then Inr (n + 1) else Inl Undefined)"

definition TEST_ASSERT :: "bool \<Rightarrow> harness \<Rightarrow> harness outcome" where
  "TEST_ASSERT c h =
     (if c then bind_outcome (count_up (g_tests_passed h)) (\<lambda>n. Inr (h\<lparr> g_tests_passed := n \<rparr>))
      else bind_outcome (count_up (g_tests_failed h)) (\<lambda>n. Inr (h\<lparr> g_tests_failed := n \<rparr>)))"

fun assert_each :: "bool list \<Rightarrow> harness \<Rightarrow> harness outcome" where
  "assert_each [] h = Inr h"
| "assert_each (c # cs) h = bind_outcome (TEST_ASSERT c h) (assert_each cs)"

fun run_suites :: "bool list outcome list \<Rightarrow> harness \<Rightarrow> harness outcome" where
  "run_suites [] h = Inr h"
| "run_suites (s # ss) h = bind_outcome s (\<lambda>cs. bind_outcome (assert_each cs h) (run_suites ss))"

text \<open>\<open>main\<close> returns 0 when no assertion failed; the counters are those of the summary it prints.\<close>

definition phase20_main :: "bool list outcome list \<Rightarrow> (int \<times> harness) outcome" where
  "phase20_main suites =
     bind_outcome (run_suites suites \<lparr> g_tests_passed = 0, g_tests_failed = 0 \<rparr>)
       (\<lambda>h. Inr (if g_tests_failed h = 0 then 0 else 1, h))"

text \<open>The values \<open>inet_pton\<close> has at the addresses of the routing suite.\<close>

definition phase20_addrs :: "(string \<times> u32) list" where
  "phase20_addrs =
     [(''0.0.0.0'', 0), (''10.0.0.0'', 0x0A000000), (''10.10.0.0'', 0x0A0A0000),
      (''10.10.1.0'', 0x0A0A0100), (''10.10.1.50'', 0x0A0A0132), (''10.10.2.1'', 0x0A0A0201),
      (''10.200.1.1'', 0x0AC80101), (''8.8.8.8'', 0x08080808)]"

section \<open>Phase 17: stress tests\<close>

text \<open>The first three bytes arrays are fixed; of the oversized buffer the last four bytes are
  not initialised. The result is \<open>passed\<close>, \<open>total\<close> and the number of rejected random
  buffers.\<close>

definition run_packet_fuzzer :: "endian \<Rightarrow> u8 list \<Rightarrow> u8 list list \<Rightarrow> nat \<times> nat \<times> nat" where
  "run_packet_fuzzer e uninit fuzz =
     (let (okA, pkt_out) = deserialize e [1, 1, 0] default_packet;
          (okB, pkt_out) = deserialize e ([99, 1, 0, 0, 0, 4] @ map u8_of_char ''TEST'') pkt_out;
          oversized_buf = [PROTOCOL_VERSION, packet_type_code DATA] @ mem32 e (htonl e 100000) @ uninit;
          (okC, pkt_out) = deserialize e oversized_buf pkt_out;
          rejected_mutations = length (filter (\<lambda>d. \<not> fst (deserialize e d default_packet)) fuzz)
      in ((if okA then 0 else 1) + (if okB then 0 else 1) + (if okC then 0 else 1) + 1, 4,
          rejected_mutations))"

fun add_clients :: "(int \<Rightarrow> time_ns) \<Rightarrow> int list \<Rightarrow> manager \<Rightarrow> manager" where
  "add_clients t [] m = m"
| "add_clients t (fd # fds) m =
     add_clients t fds (snd (add_connection fd ''192.168.1.100'' (of_int (5000 + fd)) (t fd) m))"

text \<open>The counts before and after the clean-up; the test asserts that the latter is 1.\<close>

definition run_slowloris_timeout_test :: "(int \<Rightarrow> time_ns) \<Rightarrow> time_ns \<Rightarrow> (int \<Rightarrow> time_ns) \<Rightarrow> nat \<times> nat" where
  "run_slowloris_timeout_test t t_recv t_check =
     (let mgr = add_clients t [10, 11, 12, 13, 14] new_manager;
          count1 = active_connection_count mgr;
          mgr = (case get_connection 10 mgr of None \<Rightarrow> mgr | Some c10 \<Rightarrow> via c10 (record_recv 64 t_recv) mgr);
          expired = get_expired_connections 1 t_check mgr;
          mgr = fold remove_connection expired mgr
      in (count1, active_connection_count mgr))"

fun churn :: "(nat \<Rightarrow> time_ns) \<Rightarrow> nat list \<Rightarrow> manager \<Rightarrow> manager" where
  "churn t [] m = m"
| "churn t (i # is) m =
     (let fake_fd = 100 + int i mod 1000;
          m = snd (add_connection fake_fd ''10.0.0.1'' (of_nat (10000 + i mod 5000)) (t i) m)
      in churn t is (remove_connection fake_fd m))"

definition run_connection_churn_test :: "(nat \<Rightarrow> time_ns) \<Rightarrow> nat" where
  "run_connection_churn_test t = active_connection_count (churn t [0..<5000] new_manager)"

text \<open>A limiter of capacity 5 and rate 5 created at \<open>t0\<close>, last refilled at \<open>t\<close> at the latest.\<close>

definition limiter5 :: "time_ns \<Rightarrow> time_ns \<Rightarrow> TokenBucket \<Rightarrow> bool" where
  "limiter5 t0 t b \<longleftrightarrow> bucket_ok b \<and> capacity_micro b = 5000000 \<and> refill_rate_per_s_micro b = 5000000 \<and>
     t0 \<le> last_refill b \<and> last_refill b \<le> t"

section \<open>Lemmas\<close>

subsection \<open>The harness\<close>

lemma assert_each_counts:
  assumes "g_tests_passed h + int (length cs) \<le> 2147483647" and "g_tests_failed h + int (length cs) \<le> 2147483647"
  shows "assert_each cs h = Inr (h\<lparr> g_tests_passed := g_tests_passed h + int (length (filter (\<lambda>c. c) cs)),
     g_tests_failed := g_tests_failed h + int (length (filter Not cs)) \<rparr>)"
  using assms by (induction cs arbitrary: h) (simp_all add: TEST_ASSERT_def count_up_def bind_outcome_def)

lemma run_suites_counts:
  assumes "g_tests_passed h + int (length (concat css)) \<le> 2147483647" and "g_tests_failed h + int (length (concat css)) \<le> 2147483647"
  shows "run_suites (map Inr css) h = Inr (h\<lparr> g_tests_passed := g_tests_passed h + int (length (filter (\<lambda>c. c) (concat css))),
     g_tests_failed := g_tests_failed h + int (length (filter Not (concat css))) \<rparr>)"
  using assms
proof (induction css arbitrary: h)
  case (Cons cs css)
  let ?h = "h\<lparr> g_tests_passed := g_tests_passed h + int (length (filter (\<lambda>c. c) cs)),
    g_tests_failed := g_tests_failed h + int (length (filter Not cs)) \<rparr>"
  have "assert_each cs h = Inr ?h" using Cons.prems by (intro assert_each_counts) simp_all
  moreover have "g_tests_passed ?h + int (length (concat css)) \<le> 2147483647" "g_tests_failed ?h + int (length (concat css)) \<le> 2147483647"
    using Cons.prems by (auto intro: order_trans [rotated] add_mono)
  ultimately show ?case using Cons.IH [of ?h] by (simp add: bind_outcome_def add.assoc)
qed simp

subsection \<open>Packets\<close>

lemma binary_suite_steps:
  assumes "length d \<le> 65536"
  obtains p q where "make_packet e t d = Inr p" "serialize e p = Inr (wire_format (packet_type_code t) d)"
    "length (wire_format (packet_type_code t) d) = sizeof_PacketHeader + unat (get_payload_length e p)"
    "deserialize e (wire_format (packet_type_code t) d) default_packet = (True, q)" "payload q = d"
    "get_type q = packet_type_code t" "version (header q) = PROTOCOL_VERSION"
proof -
  let ?raw = "wire_format (packet_type_code t) d"
  obtain p where p: "make_packet e t d = Inr p" and d: "payload p = d"
    using assms by (simp add: make_packet_def packet_consts)
  have ser: "serialize e p = Inr ?raw" using p by (rule serialize_constructed)
  obtain q where q: "deserialize e ?raw default_packet = (True, q)" "payload q = d"
      "get_type q = packet_type_code t" "packet_ok e q"
    using deserialize_constructed [OF p ser, of e "[]" default_packet] by auto
  have "length ?raw = sizeof_PacketHeader + unat (get_payload_length e p)"
    using make_packet_ok [OF p] d by (simp add: packet_ok_def wire_format_def packet_consts)
  moreover have "version (header q) = PROTOCOL_VERSION" using q(4) by (simp add: packet_ok_def)
  ultimately show ?thesis by (rule that [OF p ser _ q(1-3)])
qed

lemma binary_protocol_passes:
  "test_suite_binary_protocol e = Inr [True, True, True, True, True, True, True]"
proof -
  define s where "s = ''Qualcomm Unit Test Payload''"
  define d where "d = map u8_of_char s"
  have "length d \<le> 65536" by (simp add: d_def s_def)
  then obtain p q where steps: "make_packet e DATA d = Inr p"
      "serialize e p = Inr (wire_format (packet_type_code DATA) d)"
      "length (wire_format (packet_type_code DATA) d) = sizeof_PacketHeader + unat (get_payload_length e p)"
      "deserialize e (wire_format (packet_type_code DATA) d) default_packet = (True, q)" "payload q = d"
      "get_type q = packet_type_code DATA" "version (header q) = PROTOCOL_VERSION"
    by (rule binary_suite_steps)
  have "\<not> fst (deserialize e ((wire_format (packet_type_code DATA) d)[0 := 99]) x)"
    "\<not> fst (deserialize e [1, 1, 0] x)" for x
    by (simp_all add: deserialize_wire wire_ok_def wire_format_def packet_consts)
  moreover have "payload_as_string q = s" using steps by (simp add: payload_as_string_def d_def o_def)
  ultimately show ?thesis
    unfolding test_suite_binary_protocol_def s_def [symmetric] make_packet_str_def d_def [symmetric]
    using steps by (simp add: bind_outcome_def case_prod_beta)
qed

subsection \<open>Routes\<close>

lemma split_phase20:
  "map (\<lambda>(c, h). split_cidr c) phase20_routes =
     [Inr (''0.0.0.0'', 0), Inr (''10.0.0.0'', 8), Inr (''10.10.0.0'', 16), Inr (''10.10.1.0'', 24)]"
  by code_simp

lemma accepted_phase20:
  assumes "\<forall>(s, w) \<in> set phase20_addrs. pton s = Some (htonl e w)"
  shows "accepted_routes pton e phase20_routes =
     [\<lparr>network = 0, route_mask = 0, prefix_len = 0, next_hop = ''eth0-default''\<rparr>,
      \<lparr>network = 0x0A000000, route_mask = 0xFF000000, prefix_len = 8, next_hop = ''eth1-broad''\<rparr>,
      \<lparr>network = 0x0A0A0000, route_mask = 0xFFFF0000, prefix_len = 16, next_hop = ''eth2-datacenter''\<rparr>,
      \<lparr>network = 0x0A0A0100, route_mask = 0xFFFFFF00, prefix_len = 24, next_hop = ''eth3-subnet''\<rparr>]"
  using assms split_phase20
  by (simp add: phase20_routes_def phase20_addrs_def cidr_route_def bind_outcome_def c_string_def
      prefix_mask_def mask_eq_exp_minus_1)

lemma routing_engine_passes:
  assumes "\<forall>(s, w) \<in> set phase20_addrs. pton s = Some (htonl e w)"
  shows "test_suite_routing_engine pton e = Inr [True, True, True, True, True, True, True, True]"
proof -
  obtain t where t: "add_routes pton e phase20_routes empty_table = Inr t"
    using assms split_phase20
    by (simp add: phase20_routes_def phase20_addrs_def add_route_cidr cidr_route_def bind_outcome_def
        c_string_def prefix_mask_def)
  have scan: "lookup_ip t d = lpm_scan (accepted_routes pton e phase20_routes) d None" for d
    using add_routes_fold [OF t] trie.scan [OF accepted_ok] by simp
  have look: "lookup pton e t s = lpm_scan (accepted_routes pton e phase20_routes) w None"
    if "(s, w) \<in> set phase20_addrs" for s w
  proof -
    have "c_string s = s" using that by (auto simp: phase20_addrs_def c_string_def)
    then show ?thesis using assms that by (auto simp: lookup_def scan)
  qed
  show ?thesis
    unfolding test_suite_routing_engine_def t
    by (simp add: look [where w = "0x0A0A0132"] look [where w = "0x0A0A0201"]
        look [where w = "0x0AC80101"] look [where w = "0x08080808"] phase20_addrs_def
        accepted_phase20 [OF assms] matches_def prefer_route_def check_hop_def bind_outcome_def)
qed

subsection \<open>The rate limiter\<close>

lemma consume5:
  assumes "limiter5 t0 t b" and "t \<le> now" and "now - t0 \<le> 10 ^ 15"
  shows "\<exists>ok b'. try_consume 1 now b = Inr (ok, b') \<and> limiter5 t0 now b' \<and>
    (1000000 \<le> tokens_micro b \<longrightarrow> ok \<and> tokens_micro b - 1000000 \<le> tokens_micro b')"
proof -
  have le: "t0 \<le> last_refill b" "last_refill b \<le> now" and ok: "bucket_ok b"
    and cap: "capacity_micro b = 5000000" "refill_rate_per_s_micro b = 5000000"
    using assms by (simp_all add: limiter5_def)
  have "(now - last_refill b) div 1000 \<le> 10 ^ 12" using le assms(3) by simp
  then obtain b1 where b1: "refill now b = Inr b1"
    using refill_defined [OF ok le(2)] cap by auto
  note frame = refill_frame [OF b1] and ok1 = refill_ok [OF ok b1]
  have lvl: "tokens_micro b \<le> tokens_micro b1"
    using refill_level [OF ok le(2) b1] ok cap le by (simp add: bucket_ok_def)
  have "0 \<le> tokens_micro b1" "tokens_micro b1 \<le> 5000000"
    using ok1 frame cap by (simp_all add: bucket_ok_def)
  then obtain c b' where t: "try_consume 1 now b = Inr (c, b')"
    by (cases "tokens_micro b1 < 1000000")
      (auto simp: try_consume_def b1 bind_outcome_def i64_def in_int64_def MICRO_def)
  have "limiter5 t0 now b'"
    using try_consume_step [OF t ok] cap le by (auto simp: limiter5_def)
  moreover have "1000000 \<le> tokens_micro b \<longrightarrow> c \<and> tokens_micro b - 1000000 \<le> tokens_micro b'"
    using t lvl by (elim try_consume_cases) (auto simp: b1 MICRO_def)
  ultimately show ?thesis using t by blast
qed

lemma burst5:
  assumes "limiter5 t0 t b" and "sorted (t # ts)" and "\<forall>x \<in> set ts. x - t0 \<le> 10 ^ 15"
    and "int (length ts) * 1000000 \<le> tokens_micro b"
  shows "\<exists>b'. requests (map (Pair 1) ts) b = Inr (replicate (length ts) True, b') \<and>
    limiter5 t0 (last (t # ts)) b'"
  using assms
proof (induction ts arbitrary: t b)
  case (Cons x ts)
  obtain ok b1 where c: "try_consume 1 x b = Inr (ok, b1)" "limiter5 t0 x b1"
      "ok" "tokens_micro b - 1000000 \<le> tokens_micro b1"
    using consume5 [OF Cons.prems(1), of x] Cons.prems by auto
  then obtain b' where "requests (map (Pair 1) ts) b1 = Inr (replicate (length ts) True, b')"
      "limiter5 t0 (last (x # ts)) b'"
    using Cons.IH [OF c(2)] Cons.prems by force
  with c show ?case by (simp add: bind_outcome_def)
qed simp

lemma rate_limiter_passes:
  assumes "length ts = 5" and "sorted (t0 # ts @ [t6])" and "t6 - t0 < 200000000"
    and "400000000 \<le> t7 - t6" and "t7 - t0 \<le> 10 ^ 15"
  shows "test_suite_rate_limiter t0 ts t6 t7 = Inr [True, True, True, True, True, True, True]"
proof -
  obtain b where b: "make_limiter 5 5 t0 = Inr b"
    by (simp add: make_limiter_def bind_outcome_def i64_def in_int64_def MICRO_def)
  note b_eq = make_limiter_ok(2) [OF b]
  have l: "limiter5 t0 t0 b"
    using make_limiter_ok(1) [OF b] by (simp add: b_eq limiter5_def MICRO_def)
  have ts: "\<forall>x \<in> set ts. t0 \<le> x \<and> x \<le> t6" "t0 \<le> t6" "sorted ts"
    using assms(2) by (simp_all add: sorted_append)
  obtain b1 where b1: "requests (map (Pair 1) ts) b = Inr (replicate 5 True, b1)"
      "limiter5 t0 (last (t0 # ts)) b1"
    using burst5 [OF l, of ts] ts assms by (force simp: b_eq MICRO_def)
  have "last (t0 # ts) \<le> t6" using ts by auto
  then obtain ok6 b2 where c6: "try_consume 1 t6 b1 = Inr (ok6, b2)" "limiter5 t0 t6 b2"
    using consume5 [OF b1(2), of t6] assms by force
  have "potential t6 b1 + granted (map (Pair 1) ts) (replicate 5 True) * 10 ^ 15 \<le> potential t6 b"
    using requests_potential [OF b1(1), of t6] l ts by (auto simp: limiter5_def)
  moreover have "granted (map (Pair 1) ts) (replicate 5 True) = 5"
    using assms(1) by (auto simp: length_Suc_conv numeral_eq_Suc)
  moreover have "potential t6 b2 + (if ok6 then 1 else 0) * 10 ^ 15 \<le> potential t6 b1"
    using try_consume_step(2) [OF c6(1)] b1(2) by (simp add: limiter5_def)
  moreover have "0 \<le> potential t6 b2"
    using c6(2) by (simp add: limiter5_def bucket_ok_def potential_def)
  moreover have "potential t6 b < 6 * 10 ^ 15"
    using assms(3) by (simp add: b_eq potential_def MICRO_def)
  ultimately have "\<not> ok6" by (auto split: if_splits)
  obtain ok7 b3 where c7: "try_consume 1 t7 b2 = Inr (ok7, b3)"
    using consume5 [OF c6(2), of t7] assms by force
  have "400000000 \<le> t7 - last_refill b2" using c6(2) assms(4) by (simp add: limiter5_def)
  then have "400000 \<le> (t7 - last_refill b2) div 1000" by linarith
  then have "ok7"
    using wait_serves [OF _ _ _ _ _ c7] c6(2) assms(4) by (simp add: limiter5_def MICRO_def)
  with \<open>\<not> ok6\<close> show ?thesis
    by (simp add: test_suite_rate_limiter_def b b1(1) c6(1) c7 bind_outcome_def numeral_eq_Suc)
qed

subsection \<open>Authentication\<close>

text \<open>The token of one session opens it and no session with another nonce.\<close>

lemma session_tokens:
  assumes "make_session fd1 secret raw1 a0 = Inr a" and "make_session fd2 secret raw2 b0 = Inr b"
    and "raw1 \<noteq> raw2" and "ns_to_s (a1 - a0) < 5" and "ns_to_s (b1 - b0) < 5"
  shows "fst (submit_token (expected_token a) a1 a)"
    and "auth_state (snd (submit_token (expected_token a) a1 a)) = AUTHENTICATED"
    and "\<not> fst (submit_token (expected_token a) b1 b)"
    and "auth_state (snd (submit_token (expected_token a) b1 b)) = REJECTED"
proof -
  note a = assms(1) and b = assms(2)
  note sa = compute_token_session [OF a]
  have "compute_token (generate_nonce raw2) secret \<noteq> Inr (expected_token a)"
    using sa compute_token_inj [of "generate_nonce raw1" secret "expected_token a" "generate_nonce raw2"]
      assms(3) generate_nonce_inj by auto
  then show "fst (submit_token (expected_token a) a1 a)"
      "auth_state (snd (submit_token (expected_token a) a1 a)) = AUTHENTICATED"
      "\<not> fst (submit_token (expected_token a) b1 b)"
      "auth_state (snd (submit_token (expected_token a) b1 b)) = REJECTED"
    using assms(4,5) sa by (simp_all add: submit_token_fresh [OF a] submit_token_fresh [OF b])
qed

lemma auth_system_passes:
  assumes "raw1 \<noteq> raw2" and "ns_to_s (a1 - a0) < 5" and "ns_to_s (b1 - b0) < 5"
  shows "test_suite_auth_system raw1 a0 a1 raw2 b0 b1 = Inr [True, True, True, True, True, True]"
proof -
  define secret where "secret = ''qualcomm_test_secret''"
  have ne: "secret \<noteq> []" by (simp add: secret_def)
  obtain a b where a: "make_session 10 secret raw1 a0 = Inr a" and b: "make_session 11 secret raw2 b0 = Inr b"
    using make_session_total [OF ne] by metis
  note sa = compute_token_session [OF a] and tok = session_tokens [OF a b assms]
  show ?thesis
    unfolding test_suite_auth_system_def secret_def [symmetric]
    using sa tok by (simp add: a b bind_outcome_def case_prod_beta nonce_to_hex_def)
qed

subsection \<open>Connections\<close>

lemma add_clients_view:
  "manager_ok m \<Longrightarrow> manager_ok (add_clients t fds m) \<and>
     view (add_clients t fds m) = (\<lambda>fd. if fd \<in> set fds
       then Some (make_connection fd ''192.168.1.100'' (of_int (5000 + fd)) (t fd)) else view m fd)"
  by (induction fds arbitrary: m) (auto simp: add_connection_ok view_add fun_eq_iff)

lemma churn_view:
  "manager_ok m \<Longrightarrow> view m = Map.empty \<Longrightarrow> manager_ok (churn t is m) \<and> view (churn t is m) = Map.empty"
proof (induction "is" arbitrary: m)
  case (Cons i "is")
  let ?fd = "100 + int i mod 1000"
  let ?m = "remove_connection ?fd (snd (add_connection ?fd ''10.0.0.1'' (of_nat (10000 + i mod 5000)) (t i) m))"
  have "manager_ok ?m" "view ?m = Map.empty"
    using Cons.prems by (simp_all add: remove_connection_ok add_connection_ok view_remove view_add)
  with Cons.IH [of ?m] show ?case by (simp add: Let_def)
qed simp

section \<open>Properties\<close>

text \<open>
  the unit tests of phase 20 exit with code 0: all 28 assertions hold, for both byte
  orders, when \<open>inet_pton\<close> has its documented values at the addresses used, the two nonces
  differ, the tokens are submitted within five seconds, the first six limiter calls happen within
  200 milliseconds and the sleep lasts at least 400.
\<close>

theorem phase20_exit_code:
  assumes "\<forall>(s, w) \<in> set phase20_addrs. pton s = Some (htonl e w)"
    and "length ts = 5" and "sorted (t0 # ts @ [t6])" and "t6 - t0 < 200000000"
    and "400000000 \<le> t7 - t6" and "t7 - t0 \<le> 10 ^ 15"
    and "raw1 \<noteq> raw2" and "ns_to_s (a1 - a0) < 5" and "ns_to_s (b1 - b0) < 5"
  shows "phase20_main [test_suite_binary_protocol e, test_suite_routing_engine pton e,
    test_suite_rate_limiter t0 ts t6 t7, test_suite_auth_system raw1 a0 a1 raw2 b0 b1] =
    Inr (0, \<lparr> g_tests_passed = 28, g_tests_failed = 0 \<rparr>)"
  unfolding phase20_main_def binary_protocol_passes routing_engine_passes [OF assms(1)]
    rate_limiter_passes [OF assms(2-6)] auth_system_passes [OF assms(7-9)]
  by (simp add: bind_outcome_def TEST_ASSERT_def count_up_def)

theorem phase20_exit_code_witness:
  "phase20_main [test_suite_binary_protocol LittleEndian,
     test_suite_routing_engine (\<lambda>s. map_option (htonl LittleEndian) (map_of phase20_addrs s)) LittleEndian,
     test_suite_rate_limiter 0 [1, 2, 3, 4, 5] 6 500000000,
     test_suite_auth_system 1 0 0 2 0 0] = Inr (0, \<lparr> g_tests_passed = 28, g_tests_failed = 0 \<rparr>)"
proof -
  have "\<forall>(s, w) \<in> set phase20_addrs. map_option (htonl LittleEndian) (map_of phase20_addrs s) =
      Some (htonl LittleEndian w)"
    by (simp add: phase20_addrs_def)
  then show ?thesis by (rule phase20_exit_code) (simp_all add: ns_to_s_def cdiv_def)
qed

text \<open>
  The harness reports every assertion: for suites that end, whatever they find, the two counters add up to the number
  of assertions, and the exit code is 0 exactly when all of them held.
\<close>

theorem phase20_counts:
  assumes "length (concat css) \<le> 2147483647"
  shows "\<exists>code h. phase20_main (map Inr css) = Inr (code, h) \<and> (code = 0 \<longleftrightarrow> list_all id (concat css)) \<and>
    g_tests_passed h + g_tests_failed h = int (length (concat css)) \<and>
    g_tests_failed h = int (length (filter Not (concat css)))"
proof -
  have "length (filter Not bs) = 0 \<longleftrightarrow> list_all id bs" and "length (filter (\<lambda>c. c) bs) + length (filter Not bs) = length bs" for bs
    by (induction bs) auto
  with assms show ?thesis
    using run_suites_counts [of "\<lparr> g_tests_passed = 0, g_tests_failed = 0 \<rparr>" css] by (simp add: phase20_main_def bind_outcome_def flip: of_nat_add)
qed

theorem phase20_counts_witness:
  "\<exists>h. phase20_main (map Inr [[True, False], [True]]) = Inr (1, h) \<and> g_tests_failed h = 1"
  using phase20_counts [of "[[True, False], [True]]"] by (auto simp: phase20_main_def bind_outcome_def TEST_ASSERT_def count_up_def)

text \<open>
  the slowloris scenario of phase 17 does not do what it asserts: descriptor 10 sends its
  data before the sleep of 1.5 seconds, so with the timeout of one second all five connections
  expire and no connection is left, where the program asserts that one is.
\<close>

theorem slowloris_expires_all:
  assumes "\<forall>fd \<in> {10, 11, 12, 13, 14}. t fd \<le> t_recv" and "\<forall>fd. t_recv + 1500000000 \<le> t_check fd"
  shows "run_slowloris_timeout_test t t_recv t_check = (5, 0)"
proof -
  let ?fds = "[10, 11, 12, 13, 14] :: int list"
  define m where "m = add_clients t ?fds new_manager"
  have m: "manager_ok m" "view m = (\<lambda>fd. if fd \<in> set ?fds
      then Some (make_connection fd ''192.168.1.100'' (of_int (5000 + fd)) (t fd)) else None)"
    using add_clients_view [OF new_manager_ok, of t ?fds] by (simp_all add: m_def cong: if_cong)
  have "dom (view m) = set ?fds" by (auto simp: m(2) split: if_splits)
  then have count: "active_connection_count m = 5" using count_view [OF m(1)] by simp
  obtain h where h: "um_find (connections m) 10 = Some h"
    using m(2) by (auto simp: view_def fun_eq_iff dest!: spec [of _ 10])
  define m2 where "m2 = via h (record_recv 64 t_recv) m"
  have m2: "manager_ok m2" "view m2 = (view m)(10 := map_option (record_recv 64 t_recv) (view m 10))"
    using via_ok [OF m(1)] view_via [OF m(1) h] by (simp_all add: m2_def)
  have "last_activity c \<le> t_recv" if "view m2 fd = Some c" for fd c
    using that assms(1) by (auto simp: m2(2) m(2) split: if_splits)
  then have "fd \<in> set (get_expired_connections 1 t_check m2)" if "view m2 fd = Some c" for fd c
    using that spec [OF assms(2), of fd] set_expired [OF m2(1), of fd 1 t_check] by (fastforce simp: idle_iff)
  then have "view (fold remove_connection (get_expired_connections 1 t_check m2) m2) = Map.empty"
    unfolding view_remove_all by (intro ext) (metis not_None_eq)
  then have "active_connection_count (fold remove_connection (get_expired_connections 1 t_check m2) m2) = 0"
    using count_view [OF remove_all_ok [OF m2(1)]] by simp
  then show ?thesis
    using count h by (simp add: run_slowloris_timeout_test_def get_connection_def m2_def m_def)
qed

theorem slowloris_expires_all_witness:
  "run_slowloris_timeout_test (\<lambda>_. 0) 1 (\<lambda>_. 2000000000) = (5, 0)"
  by (rule slowloris_expires_all) simp_all

text \<open>
  the other scenarios of phase 17 that are modelled do what they say: the fuzzer counts four
  passed tests of four whatever the uninitialised bytes and the random buffers are, and the churn
  of 5000 connections leaves none.
\<close>

theorem phase17_results:
  "fst (run_packet_fuzzer e uninit fuzz) = 4 \<and> fst (snd (run_packet_fuzzer e uninit fuzz)) = 4 \<and>
   run_connection_churn_test t = 0"
proof -
  have "\<not> fst (deserialize e [1, 1, 0] x)"
    "\<not> fst (deserialize e ([99, 1, 0, 0, 0, 4] @ map u8_of_char ''TEST'') x)"
    "\<not> fst (deserialize e ([PROTOCOL_VERSION, packet_type_code DATA] @ mem32 e (htonl e 100000) @ uninit) x)"
    for x
    by (simp_all add: deserialize_wire wire_ok_def packet_consts mem32_htonl)
  then have "fst (run_packet_fuzzer e uninit fuzz) = 4 \<and> fst (snd (run_packet_fuzzer e uninit fuzz)) = 4"
    by (simp add: run_packet_fuzzer_def case_prod_beta)
  moreover have "run_connection_churn_test t = 0"
    using churn_view [OF new_manager_ok, of t "[0..<5000]"]
    by (simp add: run_connection_churn_test_def count_view)
  ultimately show ?thesis by simp
qed

end
