(* ===== verification/Config_Parser.thy ===== *)
theory Config_Parser
  imports Gateway_Prelude
begin

text \<open>
  The runtime configuration of \<open>include/config/ConfigParser.hpp\<close> and the tests of
  \<open>src/phase21_config_subsystem.cpp\<close>. The file system is an argument that maps a path to the
  contents of the file, or to nothing when it cannot be opened. An exception leaves
  \<open>apply_kv\<close> half way, so that the result of \<open>load_from_file\<close> is an outcome together with
  the state of the parser at that point.
\<close>

section \<open>Data and operations\<close>

record GatewayConfig =
  port :: u16
  thread_pool_size :: u64
  rate_limit_capacity :: int
  rate_limit_refill_rate :: int
  log_level :: string
  shared_secret :: string
  log_file :: string

definition default_config :: GatewayConfig where
  "default_config = \<lparr> port = 8080, thread_pool_size = 4, rate_limit_capacity = 100,
     rate_limit_refill_rate = 50, log_level = ''INFO'', shared_secret = ''qualcomm_gateway_s3cr3t'',
     log_file = ''gateway.log'' \<rparr>"

type_synonym kv_store = "(string, string) umap"
type_synonym file_system = "string \<Rightarrow> string option"

record ConfigParser =
  filepath :: string
  kv :: kv_store
  config :: GatewayConfig

definition new_parser :: ConfigParser where
  "new_parser = \<lparr> filepath = [], kv = [], config = default_config \<rparr>"

definition is_blank :: "char \<Rightarrow> bool" where
  "is_blank c \<longleftrightarrow> c \<in> {CHR '' '', CHR 0x09, CHR 0x0D, CHR 0x0A}"

definition trim :: "string \<Rightarrow> string" where
  "trim str = rev (dropWhile is_blank (rev (dropWhile is_blank str)))"

text \<open>\<open>std::getline\<close> until it fails: the lines of the file, where a final line break ends the
  last line and does not start another one.\<close>

fun getlines :: "string \<Rightarrow> string \<Rightarrow> string list" where
  "getlines cur [] = (if cur = [] then [] else [rev cur])"
| "getlines cur (c # cs) = (if c = CHR 0x0A then rev cur # getlines [] cs else getlines (c # cur) cs)"

text \<open>The body of the loop: blank lines, comments, lines without \<open>=\<close> and empty keys are
  skipped.\<close>

definition parse_line :: "string \<Rightarrow> (string \<times> string) option" where
  "parse_line raw =
     (let line = trim raw in
      if line = [] \<or> hd line = CHR ''#'' \<or> hd line = CHR '';'' then None
      else
        let before = takeWhile (\<lambda>c. c \<noteq> CHR ''='') line in
        if length before = length line then None
        else
          let key = trim before; val = trim (drop (length before + 1) line) in
          if key = [] then None else Some (key, val))"

fun load_lines :: "string list \<Rightarrow> kv_store \<Rightarrow> kv_store" where
  "load_lines [] m = m"
| "load_lines (l # ls) m =
     load_lines ls (case parse_line l of None \<Rightarrow> m | Some (key, val) \<Rightarrow> um_put key val m)"

text \<open>The assignments of \<open>apply_kv\<close> in order; each may throw, which leaves the earlier ones
  done.\<close>

type_synonym setter = "string \<Rightarrow> GatewayConfig \<Rightarrow> GatewayConfig outcome"

definition setters :: "(string \<times> setter) list" where
  "setters =
     [(''port'', \<lambda>v c. bind_outcome (stoi v) (\<lambda>n. Inr (c\<lparr> port := word_of_int n \<rparr>))),
      (''thread_pool_size'', \<lambda>v c. bind_outcome (stoul v) (\<lambda>n. Inr (c\<lparr> thread_pool_size := n \<rparr>))),
      (''rate_limit_capacity'', \<lambda>v c. bind_outcome (stoll v) (\<lambda>n. Inr (c\<lparr> rate_limit_capacity := n \<rparr>))),
      (''rate_limit_refill_rate'',
         \<lambda>v c. bind_outcome (stoll v) (\<lambda>n. Inr (c\<lparr> rate_limit_refill_rate := n \<rparr>))),
      (''log_level'', \<lambda>v c. Inr (c\<lparr> log_level := v \<rparr>)),
      (''shared_secret'', \<lambda>v c. Inr (c\<lparr> shared_secret := v \<rparr>)),
      (''log_file'', \<lambda>v c. Inr (c\<lparr> log_file := v \<rparr>))]"

fun run_setters :: "(string \<times> setter) list \<Rightarrow> kv_store \<Rightarrow> GatewayConfig \<Rightarrow> unit outcome \<times> GatewayConfig" where
  "run_setters [] m c = (Inr (), c)"
| "run_setters (s # ss) m c =
     (case um_find m (fst s) of
        None \<Rightarrow> run_setters ss m c
      | Some v \<Rightarrow> (case snd s v c of Inl e \<Rightarrow> (Inl e, c) | Inr c' \<Rightarrow> run_setters ss m c'))"

definition apply_kv :: "kv_store \<Rightarrow> GatewayConfig \<Rightarrow> unit outcome \<times> GatewayConfig" where
  "apply_kv m c = run_setters setters m c"

definition load_content :: "string \<Rightarrow> ConfigParser \<Rightarrow> bool outcome \<times> ConfigParser" where
  "load_content content p =
     (let m = load_lines (getlines [] content) (kv p); (r, c) = apply_kv m (config p)
      in (bind_outcome r (\<lambda>_. Inr True), p\<lparr> kv := m, config := c \<rparr>))"

definition load_from_file :: "file_system \<Rightarrow> string \<Rightarrow> ConfigParser \<Rightarrow> bool outcome \<times> ConfigParser" where
  "load_from_file fs path p =
     (let p = p\<lparr> filepath := path \<rparr> in
      case fs path of None \<Rightarrow> (Inr False, p) | Some content \<Rightarrow> load_content content p)"

definition reload :: "file_system \<Rightarrow> ConfigParser \<Rightarrow> bool outcome \<times> ConfigParser" where
  "reload fs p = (if filepath p = [] then (Inr False, p) else load_from_file fs (filepath p) p)"

definition validate :: "ConfigParser \<Rightarrow> bool" where
  "validate p =
     (let c = config p in
      if port c = 0 \<or> 65535 < uint (port c) then False
      else if thread_pool_size c = 0 \<or> 128 < thread_pool_size c then False
      else if rate_limit_capacity c \<le> 0 \<or> rate_limit_refill_rate c \<le> 0 then False
      else True)"

subsection \<open>The tests of phase 21\<close>

text \<open>Each test as the list of the conditions it asserts, in order; an exception of a conversion leaves it.\<close>

definition nl :: string where
  "nl = [CHR 0x0A]"

definition after_load :: "bool outcome \<times> ConfigParser \<Rightarrow> (bool \<Rightarrow> ConfigParser \<Rightarrow> 'a outcome) \<Rightarrow> 'a outcome" where
  "after_load r k = bind_outcome (fst r) (\<lambda>loaded. k loaded (snd r))"

definition test_default_configuration :: "file_system \<Rightarrow> bool list outcome" where
  "test_default_configuration fs =
     after_load (load_from_file fs ''non_existent_file.conf'' new_parser) (\<lambda>_ p.
       let cfg = config p in Inr [port cfg = 8080, thread_pool_size cfg = 4, validate p])"

definition test_custom_file_configuration :: "file_system \<Rightarrow> bool list outcome" where
  "test_custom_file_configuration fs =
     after_load (load_from_file fs ''config/gateway.conf'' new_parser) (\<lambda>loaded p.
       let cfg = config p in Inr [loaded, port cfg = 8080, thread_pool_size cfg = 8,
          rate_limit_capacity cfg = 200, log_level cfg = ''DEBUG'', validate p])"

definition invalid_conf :: string where
  "invalid_conf = ''port = 70000'' @ nl @ ''thread_pool_size = 0'' @ nl"

definition test_config_validation :: "file_system \<Rightarrow> bool list outcome" where
  "test_config_validation fs =
     (let fs = fs(''tmp_invalid.conf'' \<mapsto> invalid_conf)
      in after_load (load_from_file fs ''tmp_invalid.conf'' new_parser) (\<lambda>_ p. Inr [\<not> validate p]))"

definition reload_conf1 :: string where
  "reload_conf1 = ''port = 9000'' @ nl @ ''thread_pool_size = 2'' @ nl"

definition reload_conf2 :: string where
  "reload_conf2 = ''port = 9500'' @ nl @ ''thread_pool_size = 16'' @ nl"

definition test_hot_reloading :: "file_system \<Rightarrow> bool list outcome" where
  "test_hot_reloading fs =
     (let fs1 = fs(''tmp_reload.conf'' \<mapsto> reload_conf1); fs2 = fs1(''tmp_reload.conf'' \<mapsto> reload_conf2)
      in after_load (load_from_file fs1 ''tmp_reload.conf'' new_parser) (\<lambda>_ p.
         after_load (reload fs2 p) (\<lambda>_ q.
           Inr [port (config p) = 9000, thread_pool_size (config p) = 2,
             port (config q) = 9500, thread_pool_size (config q) = 16])))"

text \<open>\<open>config/gateway.conf\<close> as it is in the repository (the rules are U+2500 in UTF-8).\<close>

definition rule_line :: string where
  "rule_line = ''# '' @ concat (replicate 73 [CHR 0xE2, CHR 0x94, CHR 0x80]) @ nl"

definition gateway_conf :: string where
  "gateway_conf =
     rule_line @ ''# High-Performance C++ Linux Network Gateway Configuration'' @ nl @ rule_line @ nl @
     ''# Network Server Settings'' @ nl @ ''port = 8080'' @ nl @ nl @
     ''# Concurrency Thread Pool Size'' @ nl @ ''thread_pool_size = 8'' @ nl @ nl @
     ''# Rate Limiter Quotas (Token Bucket Algorithm)'' @ nl @ ''rate_limit_capacity = 200'' @ nl @
     ''rate_limit_refill_rate = 100'' @ nl @ nl @
     ''# Logging Configuration'' @ nl @ ''log_level = DEBUG'' @ nl @
     ''log_file = gateway_runtime.log'' @ nl @ nl @
     ''# Session Security Credentials'' @ nl @
     ''shared_secret = qualcomm_production_s3cr3t_2026'' @ nl"

section \<open>Specification\<close>

text \<open>What the format is, without the functions that parse it. A line sets \<open>key\<close> to \<open>val\<close> if it consists of these
  two with an equals sign between them and blanks around each, where the key is not empty, has no equals
  sign in it and does not begin like a comment, and neither text begins or ends with a blank.\<close>

definition blanks :: "string \<Rightarrow> bool" where
  "blanks s \<longleftrightarrow> set s \<subseteq> {CHR '' '', CHR 0x09, CHR 0x0D, CHR 0x0A}"

definition trimmed :: "string \<Rightarrow> bool" where
  "trimmed s \<longleftrightarrow> s = [] \<or> \<not> blanks [hd s] \<and> \<not> blanks [last s]"

definition sets_key :: "string \<Rightarrow> string \<Rightarrow> string \<Rightarrow> bool" where
  "sets_key line key val \<longleftrightarrow>
     (\<exists>b1 b2 b3 b4. line = b1 @ key @ b2 @ ''='' @ b3 @ val @ b4 \<and> list_all blanks [b1, b2, b3, b4]) \<and>
     key \<noteq> [] \<and> CHR ''='' \<notin> set key \<and> hd key \<noteq> CHR ''#'' \<and> hd key \<noteq> CHR '';'' \<and> trimmed key \<and> trimmed val"

text \<open>The lines of a file: each is followed by a line break, but for an unfinished last line that is not
  empty.\<close>

definition file_lines :: "string \<Rightarrow> string list \<Rightarrow> bool" where
  "file_lines content ls \<longleftrightarrow> (\<forall>l\<in>set ls. CHR 0x0A \<notin> set l) \<and>
     (\<exists>ms l. (ls = ms \<and> l = [] \<or> ls = ms @ [l] \<and> l \<noteq> []) \<and> content = concat (map (\<lambda>m. m @ nl) ms) @ l)"

text \<open>The value a list of lines gives to a key: that of the last line which sets it.\<close>

definition gives :: "string list \<Rightarrow> (string \<Rightarrow> string option) \<Rightarrow> bool" where
  "gives ls st \<longleftrightarrow> (\<forall>k.
     (case st k of
        None \<Rightarrow> \<forall>l\<in>set ls. \<forall>v. \<not> sets_key l k v
      | Some v \<Rightarrow> \<exists>xs l ys. ls = xs @ l # ys \<and> sets_key l k v \<and> (\<forall>m\<in>set ys. \<forall>w. \<not> sets_key m k w)))"

text \<open>The configuration such values denote: every field from its key, or its default. A conversion that
  fails is an error.\<close>

definition field_of :: "string option \<Rightarrow> (string \<Rightarrow> 'a outcome) \<Rightarrow> 'a \<Rightarrow> 'a outcome" where
  "field_of v conv dflt = (case v of None \<Rightarrow> Inr dflt | Some s \<Rightarrow> conv s)"

definition denotes :: "(string \<Rightarrow> string option) \<Rightarrow> GatewayConfig \<Rightarrow> bool" where
  "denotes st c \<longleftrightarrow>
     field_of (st ''port'') (\<lambda>s. bind_outcome (stoi s) (Inr \<circ> word_of_int)) 8080 = Inr (port c) \<and>
     field_of (st ''thread_pool_size'') stoul 4 = Inr (thread_pool_size c) \<and>
     field_of (st ''rate_limit_capacity'') stoll 100 = Inr (rate_limit_capacity c) \<and>
     field_of (st ''rate_limit_refill_rate'') stoll 50 = Inr (rate_limit_refill_rate c) \<and>
     field_of (st ''log_level'') Inr ''INFO'' = Inr (log_level c) \<and>
     field_of (st ''shared_secret'') Inr ''qualcomm_gateway_s3cr3t'' = Inr (shared_secret c) \<and>
     field_of (st ''log_file'') Inr ''gateway.log'' = Inr (log_file c)"

definition unconvertible :: "(string \<Rightarrow> string option) \<Rightarrow> cpp_error \<Rightarrow> bool" where
  "unconvertible st e \<longleftrightarrow>
     (\<exists>v. st ''port'' = Some v \<and> stoi v = Inl e \<or> st ''thread_pool_size'' = Some v \<and> stoul v = Inl e \<or>
       (st ''rate_limit_capacity'' = Some v \<or> st ''rate_limit_refill_rate'' = Some v) \<and> stoll v = Inl e)"

text \<open>A history of calls on one parser: loads and reloads, each finding the file system in some state. An
  exception is caught by the caller, who may go on.\<close>

datatype config_op = LoadFile file_system string | Reload file_system

definition perform :: "config_op \<Rightarrow> ConfigParser \<Rightarrow> bool outcome \<times> ConfigParser" where
  "perform op p = (case op of LoadFile fs path \<Rightarrow> load_from_file fs path p | Reload fs \<Rightarrow> reload fs p)"

definition state_after :: "config_op list \<Rightarrow> ConfigParser" where
  "state_after ops = foldl (\<lambda>p op. snd (perform op p)) new_parser ops"

text \<open>What each call finds: the contents of the file it names, for a reload the one that the last load
  named (none if this was the empty path, or there was no load).\<close>

fun opened :: "string \<Rightarrow> config_op list \<Rightarrow> string option list" where
  "opened path [] = []"
| "opened path (LoadFile fs f # ops) = fs f # opened f ops"
| "opened path (Reload fs # ops) = (if path = [] then None else fs path) # opened path ops"

definition files_read :: "config_op list \<Rightarrow> string list" where
  "files_read ops = List.map_filter (\<lambda>c. c) (opened [] ops)"

subsection \<open>Executable counterparts and the invariant\<close>

definition setting :: "string list \<Rightarrow> string \<Rightarrow> string option" where
  "setting ls k = map_of (rev (List.map_filter parse_line ls)) k"

definition lines_read :: "config_op list \<Rightarrow> string list" where
  "lines_read ops = concat (map (getlines []) (files_read ops))"

text \<open>A field is written by the setter of its key only.\<close>

definition writes :: "string \<Rightarrow> (string \<Rightarrow> 'a outcome) \<Rightarrow> (GatewayConfig \<Rightarrow> 'a) \<Rightarrow> string \<times> setter \<Rightarrow> bool" where
  "writes k conv get s \<longleftrightarrow> (\<forall>v c d. snd s v c = Inr d \<longrightarrow>
     (if fst s = k then conv v = Inr (get d) else get d = get c))"

text \<open>What holds of a parser whose store has the values \<open>st\<close>, also after exceptions: a field whose key was
  never set has its default.\<close>

definition parser_inv :: "(string \<Rightarrow> string option) \<Rightarrow> ConfigParser \<Rightarrow> bool" where
  "parser_inv st p \<longleftrightarrow> um_find (kv p) = st \<and>
     (st ''port'' = None \<longrightarrow> port (config p) = 8080) \<and>
     (st ''thread_pool_size'' = None \<longrightarrow> thread_pool_size (config p) = 4) \<and>
     (st ''rate_limit_capacity'' = None \<longrightarrow> rate_limit_capacity (config p) = 100) \<and>
     (st ''rate_limit_refill_rate'' = None \<longrightarrow> rate_limit_refill_rate (config p) = 50) \<and>
     (st ''log_level'' = None \<longrightarrow> log_level (config p) = ''INFO'') \<and>
     (st ''shared_secret'' = None \<longrightarrow> shared_secret (config p) = ''qualcomm_gateway_s3cr3t'') \<and>
     (st ''log_file'' = None \<longrightarrow> log_file (config p) = ''gateway.log'')"

section \<open>Lemmas\<close>

subsection \<open>The format\<close>

lemma blanks_simps [simp]:
  "blanks []" "blanks (c # s) \<longleftrightarrow> is_blank c \<and> blanks s" "blanks (s @ s') \<longleftrightarrow> blanks s \<and> blanks s'"
  by (auto simp: blanks_def is_blank_def)

lemma blanks_rev [simp]: "blanks (rev s) \<longleftrightarrow> blanks s"
  by (simp add: blanks_def)

lemma blanks_dropWhile: "blanks b \<Longrightarrow> dropWhile is_blank (b @ s) = dropWhile is_blank s"
  by (induction b) auto

lemma blanks_no_equals: "blanks b \<Longrightarrow> CHR ''='' \<notin> set b"
  by (auto simp: blanks_def)

lemma dropWhile_trimmed: "trimmed s \<Longrightarrow> blanks b \<Longrightarrow> dropWhile is_blank (s @ b) = (if s = [] then [] else s @ b)"
  using blanks_dropWhile [of b "[]"] by (cases s) (auto simp: trimmed_def)

lemma trimmed_rev [simp]: "trimmed (rev s) \<longleftrightarrow> trimmed s"
  by (auto simp: trimmed_def hd_rev last_rev)

lemma trim_padded:
  assumes "trimmed s" and "blanks b" and "blanks b'"
  shows "trim (b @ s @ b') = s"
proof (cases "s = []")
  case True
  have "dropWhile is_blank (b @ b') = []" using assms by (auto simp: blanks_def is_blank_def)
  with True show ?thesis unfolding trim_def by (metis append_Nil dropWhile.simps(1) rev.simps(1))
next
  case False
  with assms have "dropWhile is_blank (b @ s @ b') = s @ b'"
    by (simp add: blanks_dropWhile dropWhile_trimmed)
  moreover have "dropWhile is_blank (rev b' @ rev s) = rev s"
    using assms False dropWhile_trimmed [of "rev s" "[]"] by (simp add: blanks_dropWhile)
  ultimately show ?thesis by (simp add: trim_def)
qed

lemma takeWhile_blanks: "blanks (takeWhile is_blank s)"
  using set_takeWhileD [of _ is_blank s] by (auto simp: blanks_def is_blank_def)

lemma trim_splits: "\<exists>b b'. s = b @ trim s @ b' \<and> blanks b \<and> blanks b' \<and> trimmed (trim s)"
proof -
  define d where "d = dropWhile is_blank s"
  have s: "s = takeWhile is_blank s @ d" by (simp add: d_def)
  have d: "d = trim s @ rev (takeWhile is_blank (rev d))"
    unfolding trim_def d_def [symmetric] by (metis rev_append rev_rev_ident takeWhile_dropWhile_id)
  have "\<not> is_blank (hd (trim s)) \<and> \<not> is_blank (last (trim s))" if ne: "trim s \<noteq> []"
  proof -
    have "\<not> is_blank (hd (dropWhile is_blank (rev d)))"
      using ne unfolding trim_def d_def [symmetric] by (intro hd_dropWhile) auto
    then have "\<not> is_blank (last (trim s))" using ne unfolding trim_def d_def [symmetric] by (simp add: last_rev)
    moreover have "d \<noteq> []" "hd d = hd (trim s)" using ne by (subst d, simp)+
    then have "\<not> is_blank (hd (trim s))" using hd_dropWhile [of is_blank s] by (simp add: d_def)
    ultimately show ?thesis by simp
  qed
  then have "trimmed (trim s)" by (auto simp: trimmed_def)
  with s d takeWhile_blanks show ?thesis by (metis append.assoc blanks_rev)
qed

lemma parse_line_sets_key:
  assumes "parse_line l = Some (k, v)"
  shows "sets_key l k v"
proof -
  define line where "line = trim l"
  define before where "before = takeWhile (\<lambda>c. c \<noteq> CHR ''='') line"
  have facts: "line \<noteq> []" "hd line \<noteq> CHR ''#''" "hd line \<noteq> CHR '';''" "length before \<noteq> length line"
    "k = trim before" "v = trim (drop (length before + 1) line)" "k \<noteq> []"
    using assms unfolding parse_line_def Let_def line_def [symmetric] before_def [symmetric]
    by (auto split: if_splits)
  obtain b1 b2 where l: "l = b1 @ line @ b2" "blanks b1" "blanks b2" "trimmed line"
    using trim_splits [of l] unfolding line_def by blast
  define rest where "rest = drop (length before + 1) line"
  have rest: "line = before @ ''='' @ rest"
  proof -
    have "dropWhile (\<lambda>c. c \<noteq> CHR ''='') line \<noteq> []"
      using facts(4) unfolding before_def by (metis append_Nil2 takeWhile_dropWhile_id)
    then obtain r where "dropWhile (\<lambda>c. c \<noteq> CHR ''='') line = CHR ''='' # r"
      using hd_dropWhile [of "\<lambda>c. c \<noteq> CHR ''=''" line] by (cases "dropWhile (\<lambda>c. c \<noteq> CHR ''='') line") auto
    then have "line = before @ CHR ''='' # r" unfolding before_def by (metis takeWhile_dropWhile_id)
    then show ?thesis by (simp add: rest_def)
  qed
  obtain c1 c2 where k: "before = c1 @ k @ c2" "blanks c1" "blanks c2" "trimmed k"
    using trim_splits [of before] facts(5) by blast
  obtain d1 d2 where v: "rest = d1 @ v @ d2" "blanks d1" "blanks d2" "trimmed v"
    using trim_splits [of rest] facts(6) unfolding rest_def by blast
  have "c1 = []" using k rest l(4) facts(1) by (cases c1) (auto simp: trimmed_def)
  then have hd: "hd line = hd k" using k(1) rest facts(7) by simp
  have "CHR ''='' \<notin> set before" unfolding before_def by (auto dest: set_takeWhileD)
  then have "CHR ''='' \<notin> set k" using k(1) by simp
  moreover have "l = (b1 @ c1) @ k @ c2 @ ''='' @ d1 @ v @ (d2 @ b2)" using l(1) rest k(1) v(1) by simp
  moreover have "list_all blanks [b1 @ c1, c2, d1, d2 @ b2]" using l k v by simp
  ultimately have "\<exists>b1 b2 b3 b4. l = b1 @ k @ b2 @ ''='' @ b3 @ v @ b4 \<and> list_all blanks [b1, b2, b3, b4]" by blast
  with \<open>CHR ''='' \<notin> set k\<close> facts(2,3,7) hd k(4) v(4) show ?thesis unfolding sets_key_def by simp
qed

lemma sets_key_parse_line:
  assumes "sets_key l k v"
  shows "parse_line l = Some (k, v)"
proof -
  obtain b1 b2 b3 b4 where l: "l = b1 @ k @ b2 @ ''='' @ b3 @ v @ b4"
    and b: "blanks b1" "blanks b2" "blanks b3" "blanks b4"
    using assms by (auto simp: sets_key_def)
  have k: "k \<noteq> []" "CHR ''='' \<notin> set k" "hd k \<noteq> CHR ''#''" "hd k \<noteq> CHR '';''" "trimmed k" "trimmed v"
    using assms by (auto simp: sets_key_def)
  define rest where "rest = (if v = [] then [] else b3 @ v)"
  define line where "line = k @ b2 @ ''='' @ rest"
  have "trimmed line" using k by (auto simp: trimmed_def line_def rest_def is_blank_def hd_append)
  moreover have "l = b1 @ line @ (if v = [] then b3 @ b4 else b4)" by (simp add: l line_def rest_def)
  ultimately have line: "trim l = line" using b trim_padded [of line b1] by simp
  have before: "takeWhile (\<lambda>c. c \<noteq> CHR ''='') line = k @ b2"
    using k(2) blanks_no_equals [OF b(2)] by (auto simp: line_def takeWhile_append)
  have "trim (k @ b2) = k" using trim_padded [of k "[]" b2] k b by simp
  moreover have "trim rest = v"
    using trim_padded [of v b3 "[]"] trim_padded [of "[]" "[]" "[]"] k b by (auto simp: rest_def trimmed_def)
  moreover have "drop (length (k @ b2) + 1) line = rest" by (simp add: line_def)
  moreover have "line \<noteq> []" "hd line = hd k" using k(1) by (simp_all add: line_def)
  moreover have "length (k @ b2) \<noteq> length line" by (simp add: line_def)
  ultimately show ?thesis
    using k unfolding parse_line_def Let_def line before by (simp del: length_append)
qed

lemma parse_line_iff: "parse_line l = Some (k, v) \<longleftrightarrow> sets_key l k v"
  using parse_line_sets_key sets_key_parse_line by blast

lemma getlines_line: "CHR 0x0A \<notin> set l \<Longrightarrow> getlines cur (l @ CHR 0x0A # cs) = (rev cur @ l) # getlines [] cs"
  by (induction l arbitrary: cur) auto

lemma getlines_unfinished: "CHR 0x0A \<notin> set l \<Longrightarrow> getlines cur l = (if rev cur @ l = [] then [] else [rev cur @ l])"
  by (induction l arbitrary: cur) auto

lemma file_lines_getlines: "file_lines content ls \<Longrightarrow> getlines [] content = ls"
proof -
  have "getlines [] (concat (map (\<lambda>m. m @ nl) ms) @ l) = ms @ (if l = [] then [] else [l])"
    if "\<forall>m\<in>set ms. CHR 0x0A \<notin> set m" "CHR 0x0A \<notin> set l" for ms l
    using that by (induction ms) (auto simp: nl_def getlines_line getlines_unfinished)
  note parts = this
  show "getlines [] content = ls" if lines: "file_lines content ls"
  proof -
    obtain ms l where "ls = ms \<and> l = [] \<or> ls = ms @ [l] \<and> l \<noteq> []" "content = concat (map (\<lambda>m. m @ nl) ms) @ l"
      using lines unfolding file_lines_def by blast
    moreover from this lines have "\<forall>m\<in>set ms. CHR 0x0A \<notin> set m" "CHR 0x0A \<notin> set l"
      by (auto simp: file_lines_def)
    ultimately show ?thesis using parts [of ms l] by (auto simp del: append_Nil2)
  qed
qed

lemma file_lines_Cons:
  assumes "file_lines cs ls" and "CHR 0x0A \<notin> set l"
  shows "file_lines (l @ CHR 0x0A # cs) (l # ls)"
proof -
  obtain ms m where "ls = ms \<and> m = [] \<or> ls = ms @ [m] \<and> m \<noteq> []" "cs = concat (map (\<lambda>m. m @ nl) ms) @ m"
    using assms(1) by (auto simp: file_lines_def)
  then have "(l # ls = l # ms \<and> m = [] \<or> l # ls = (l # ms) @ [m] \<and> m \<noteq> []) \<and>
      l @ CHR 0x0A # cs = concat (map (\<lambda>m. m @ nl) (l # ms)) @ m" by (simp add: nl_def)
  with assms show ?thesis unfolding file_lines_def by (metis set_ConsD)
qed

lemma getlines_file_lines: "CHR 0x0A \<notin> set cur \<Longrightarrow> file_lines (rev cur @ cs) (getlines cur cs)"
proof (induction cur cs rule: getlines.induct)
  case (1 cur)
  then show ?case by (auto simp: file_lines_def intro: exI [of _ "[]"])
next
  case (2 cur c cs)
  then show ?case by (auto intro: file_lines_Cons [of cs _ "rev cur", simplified])
qed

lemma getlines_iff: "getlines [] content = ls \<longleftrightarrow> file_lines content ls"
proof
  have "file_lines content (getlines [] content)" using getlines_file_lines [of "[]" content] by simp
  then show "getlines [] content = ls \<Longrightarrow> file_lines content ls" by blast
qed (rule file_lines_getlines)

subsection \<open>Histories\<close>

lemma setting_gives: "gives ls (setting ls)"
proof (induction ls rule: rev_induct)
  case Nil
  then show ?case by (simp add: gives_def setting_def map_filter_simps)
next
  case (snoc l ls)
  have step: "setting (ls @ [l]) k = (case parse_line l of Some (k', v) \<Rightarrow> if k = k' then Some v else setting ls k | None \<Rightarrow> setting ls k)" for k
    by (auto simp: setting_def map_filter_def split: option.splits)
  show ?case unfolding gives_def
  proof
    fix k
    show "case setting (ls @ [l]) k of
        None \<Rightarrow> \<forall>l\<in>set (ls @ [l]). \<forall>v. \<not> sets_key l k v
      | Some v \<Rightarrow> \<exists>xs l' ys. ls @ [l] = xs @ l' # ys \<and> sets_key l' k v \<and> (\<forall>m\<in>set ys. \<forall>w. \<not> sets_key m k w)"
    proof (cases "\<exists>v. sets_key l k v")
      case True
      then obtain v where v: "parse_line l = Some (k, v)" by (auto simp: parse_line_iff)
      then have "setting (ls @ [l]) k = Some v" by (simp add: step)
      moreover have "ls @ [l] = ls @ l # [] \<and> sets_key l k v \<and> (\<forall>m\<in>set []. \<forall>w. \<not> sets_key m k w)"
        using v by (simp add: parse_line_iff)
      ultimately show ?thesis by (simp only: option.case) blast
    next
      case False
      then have "setting (ls @ [l]) k = setting ls k"
        by (auto simp: step parse_line_iff [symmetric] split: option.splits)
      moreover have "\<forall>l\<in>set ls. \<forall>v. \<not> sets_key l k v" if "setting ls k = None"
        using snoc that by (auto simp: gives_def dest!: spec [of _ k])
      moreover have "\<exists>xs l' ys. ls @ [l] = xs @ l' # ys \<and> sets_key l' k v \<and> (\<forall>m\<in>set ys. \<forall>w. \<not> sets_key m k w)"
        if some: "setting ls k = Some v" for v
      proof -
        have "case setting ls k of None \<Rightarrow> \<forall>l\<in>set ls. \<forall>v. \<not> sets_key l k v
          | Some v \<Rightarrow> \<exists>xs l ys. ls = xs @ l # ys \<and> sets_key l k v \<and> (\<forall>m\<in>set ys. \<forall>w. \<not> sets_key m k w)"
          using snoc unfolding gives_def by (rule spec)
        then obtain xs l' ys where "ls = xs @ l' # ys" "sets_key l' k v" "\<forall>m\<in>set ys. \<forall>w. \<not> sets_key m k w"
          unfolding some by auto
        with False show ?thesis by (intro exI [of _ xs] exI [of _ l'] exI [of _ "ys @ [l]"]) auto
      qed
      ultimately show ?thesis using False by (cases "setting ls k") auto
    qed
  qed
qed

lemma setting_Nil [simp]: "setting [] = Map.empty"
  by (simp add: setting_def [abs_def] map_filter_simps)

lemma setting_append: "setting (ls @ ms) = setting ls ++ setting ms"
  by (auto simp: setting_def fun_eq_iff map_filter_def map_add_def split: option.splits)

lemma setting_None: "\<forall>l\<in>set ls. \<forall>v. \<not> sets_key l k v \<Longrightarrow> setting ls k = None"
  by (induction ls) (auto simp: setting_def map_filter_simps parse_line_iff [symmetric] split: option.splits)

text \<open>The lines determine the values, as the file determines the lines (\<open>getlines_iff\<close>).\<close>

lemma gives_iff: "gives ls st \<longleftrightarrow> st = setting ls"
proof
  assume gives: "gives ls st"
  show "st = setting ls"
  proof
    fix k
    have k: "case st k of None \<Rightarrow> \<forall>l\<in>set ls. \<forall>v. \<not> sets_key l k v
      | Some v \<Rightarrow> \<exists>xs l ys. ls = xs @ l # ys \<and> sets_key l k v \<and> (\<forall>m\<in>set ys. \<forall>w. \<not> sets_key m k w)"
      using gives unfolding gives_def by (rule spec)
    show "st k = setting ls k"
    proof (cases "st k")
      case None
      with k setting_None show ?thesis by simp
    next
      case (Some v)
      with k obtain xs l ys where *: "ls = xs @ [l] @ ys" "sets_key l k v" "\<forall>m\<in>set ys. \<forall>w. \<not> sets_key m k w" by auto
      have "setting [l] k = Some v" using *(2) by (simp add: setting_def map_filter_simps sets_key_parse_line)
      with setting_None [OF *(3)] Some show ?thesis unfolding *(1) setting_append by (simp add: map_add_def)
    qed
  qed
qed (simp add: setting_gives)

lemma um_find_load_lines: "um_find (load_lines ls m) = um_find m ++ setting ls"
proof (induction ls arbitrary: m)
  case (Cons l ls)
  have "setting (l # ls) = (case parse_line l of None \<Rightarrow> Map.empty | Some (k, v) \<Rightarrow> [k \<mapsto> v]) ++ setting ls"
    by (auto simp: setting_def fun_eq_iff map_filter_simps map_add_def split: option.splits prod.splits)
  then show ?case
    by (auto simp: Cons.IH split: option.splits)
qed simp

lemma run_setters_ok:
  "run_setters (s # ss) m c = (Inr (), c') \<longleftrightarrow>
     (\<exists>d. (case um_find m (fst s) of None \<Rightarrow> d = c | Some v \<Rightarrow> snd s v c = Inr d) \<and>
          run_setters ss m d = (Inr (), c'))"
  by (auto split: option.splits sum.splits)

lemma run_setters_frame:
  "run_setters ss m c = (Inr (), c') \<Longrightarrow> \<forall>s \<in> set ss. fst s \<noteq> k \<and> writes k conv get s \<Longrightarrow> get c' = get c"
proof (induction ss arbitrary: c)
  case (Cons s ss)
  then show ?case
    unfolding run_setters_ok by (fastforce simp: writes_def split: option.splits)
qed simp

lemma run_setters_field:
  assumes "run_setters ss m c = (Inr (), c')" and "distinct (map fst ss)" and "k \<in> fst ` set ss"
    and "\<forall>s \<in> set ss. writes k conv get s"
  shows "field_of (um_find m k) conv (get c) = Inr (get c')"
  using assms
proof (induction ss arbitrary: c)
  case (Cons s ss)
  from Cons.prems(1) obtain d where
    d: "case um_find m (fst s) of None \<Rightarrow> d = c | Some v \<Rightarrow> snd s v c = Inr d"
    and rest: "run_setters ss m d = (Inr (), c')"
    unfolding run_setters_ok by blast
  show ?case
  proof (cases "fst s = k")
    case True
    then have "get c' = get d"
      using Cons.prems(2,4) by (intro run_setters_frame [OF rest, where k = k and conv = conv]) (auto simp: image_iff)
    with True d Cons.prems(4) show ?thesis
      by (auto simp: field_of_def writes_def split: option.splits)
  next
    case False
    then have "get d = get c" using d Cons.prems(4) by (auto simp: writes_def split: option.splits)
    moreover have "k \<in> fst ` set ss" using False Cons.prems(3) by auto
    ultimately show ?thesis using Cons.IH [OF rest] Cons.prems by simp
  qed
qed simp

lemma apply_kv_ok:
  assumes "apply_kv m c = (Inr (), c')"
  shows "field_of (um_find m ''port'') (\<lambda>s. bind_outcome (stoi s) (Inr \<circ> word_of_int)) (port c) = Inr (port c')"
    and "field_of (um_find m ''thread_pool_size'') stoul (thread_pool_size c) = Inr (thread_pool_size c')"
    and "field_of (um_find m ''rate_limit_capacity'') stoll (rate_limit_capacity c) = Inr (rate_limit_capacity c')"
    and "field_of (um_find m ''rate_limit_refill_rate'') stoll (rate_limit_refill_rate c) =
      Inr (rate_limit_refill_rate c')"
    and "field_of (um_find m ''log_level'') Inr (log_level c) = Inr (log_level c')"
    and "field_of (um_find m ''shared_secret'') Inr (shared_secret c) = Inr (shared_secret c')"
    and "field_of (um_find m ''log_file'') Inr (log_file c) = Inr (log_file c')"
  by (rule run_setters_field [OF assms [unfolded apply_kv_def]];
      auto simp: setters_def writes_def bind_outcome_Inr)+

lemma new_parser_inv: "parser_inv Map.empty new_parser"
  by (simp add: parser_inv_def new_parser_def default_config_def fun_eq_iff)

lemma run_setters_unset:
  assumes "um_find m k = None" and "\<forall>s\<in>set ss. writes k conv get s"
  shows "get (snd (run_setters ss m c)) = get c"
  using assms(2)
proof (induction ss arbitrary: c)
  case (Cons s ss)
  then show ?case using assms(1)
    by (cases "fst s = k") (auto simp: writes_def split: option.splits sum.splits)
qed simp

lemma apply_kv_unset:
  "um_find m ''port'' = None \<Longrightarrow> port (snd (apply_kv m c)) = port c"
  "um_find m ''thread_pool_size'' = None \<Longrightarrow> thread_pool_size (snd (apply_kv m c)) = thread_pool_size c"
  "um_find m ''rate_limit_capacity'' = None \<Longrightarrow> rate_limit_capacity (snd (apply_kv m c)) = rate_limit_capacity c"
  "um_find m ''rate_limit_refill_rate'' = None \<Longrightarrow> rate_limit_refill_rate (snd (apply_kv m c)) = rate_limit_refill_rate c"
  "um_find m ''log_level'' = None \<Longrightarrow> log_level (snd (apply_kv m c)) = log_level c"
  "um_find m ''shared_secret'' = None \<Longrightarrow> shared_secret (snd (apply_kv m c)) = shared_secret c"
  "um_find m ''log_file'' = None \<Longrightarrow> log_file (snd (apply_kv m c)) = log_file c"
  unfolding apply_kv_def
proof -
  note unset = run_setters_unset [of m _ setters]
  have "\<forall>s\<in>set setters. writes ''port'' (\<lambda>s. bind_outcome (stoi s) (Inr \<circ> word_of_int)) port s"
    "\<forall>s\<in>set setters. writes ''thread_pool_size'' stoul thread_pool_size s"
    "\<forall>s\<in>set setters. writes ''rate_limit_capacity'' stoll rate_limit_capacity s"
    "\<forall>s\<in>set setters. writes ''rate_limit_refill_rate'' stoll rate_limit_refill_rate s"
    "\<forall>s\<in>set setters. writes ''log_level'' Inr log_level s"
    "\<forall>s\<in>set setters. writes ''shared_secret'' Inr shared_secret s"
    "\<forall>s\<in>set setters. writes ''log_file'' Inr log_file s"
    by (auto simp: setters_def writes_def bind_outcome_Inr)
  note w = this
  show "um_find m ''port'' = None \<Longrightarrow> port (snd (run_setters setters m c)) = port c" using unset [OF _ w(1)] .
  show "um_find m ''thread_pool_size'' = None \<Longrightarrow> thread_pool_size (snd (run_setters setters m c)) = thread_pool_size c"
    using unset [OF _ w(2)] .
  show "um_find m ''rate_limit_capacity'' = None \<Longrightarrow> rate_limit_capacity (snd (run_setters setters m c)) = rate_limit_capacity c"
    using unset [OF _ w(3)] .
  show "um_find m ''rate_limit_refill_rate'' = None \<Longrightarrow>
      rate_limit_refill_rate (snd (run_setters setters m c)) = rate_limit_refill_rate c" using unset [OF _ w(4)] .
  show "um_find m ''log_level'' = None \<Longrightarrow> log_level (snd (run_setters setters m c)) = log_level c" using unset [OF _ w(5)] .
  show "um_find m ''shared_secret'' = None \<Longrightarrow> shared_secret (snd (run_setters setters m c)) = shared_secret c"
    using unset [OF _ w(6)] .
  show "um_find m ''log_file'' = None \<Longrightarrow> log_file (snd (run_setters setters m c)) = log_file c" using unset [OF _ w(7)] .
qed

lemma run_setters_error:
  "run_setters ss m c = (Inl e, c') \<Longrightarrow> \<exists>s\<in>set ss. \<exists>v d. um_find m (fst s) = Some v \<and> snd s v d = Inl e"
  by (induction ss arbitrary: c) (auto split: option.splits sum.splits, (blast+)?)

lemma apply_kv_error: "apply_kv m c = (Inl e, c') \<Longrightarrow> unconvertible (um_find m) e"
  unfolding apply_kv_def
  by (drule run_setters_error) (auto simp: setters_def unconvertible_def bind_outcome_Inl)

lemma field_of_step:
  assumes "st k = None \<longrightarrow> old = dflt" and "field_of ((st ++ st') k) conv old = Inr x"
  shows "field_of ((st ++ st') k) conv dflt = Inr x"
  using assms by (auto simp: field_of_def map_add_def split: option.splits)

lemma load_content_filepath [simp]: "filepath (snd (load_content content p)) = filepath p"
  by (simp add: load_content_def Let_def split: prod.splits)

lemma load_content_result:
  assumes "parser_inv st p"
  shows "case load_content content p of (r, q) \<Rightarrow>
    parser_inv (st ++ setting (getlines [] content)) q \<and> filepath q = filepath p \<and>
    (r = Inr True \<and> denotes (st ++ setting (getlines [] content)) (config q) \<or>
     (\<exists>e. r = Inl e \<and> unconvertible (st ++ setting (getlines [] content)) e))"
proof -
  define m where "m = load_lines (getlines [] content) (kv p)"
  let ?st = "st ++ setting (getlines [] content)"
  obtain r c where rc: "apply_kv m (config p) = (r, c)" by fastforce
  have load: "load_content content p = (bind_outcome r (\<lambda>_. Inr True), p\<lparr> kv := m, config := c \<rparr>)"
    by (simp add: load_content_def Let_def m_def [symmetric] rc)
  have find: "um_find m = ?st"
    using assms by (simp add: m_def um_find_load_lines parser_inv_def)
  have "parser_inv ?st (p\<lparr> kv := m, config := c \<rparr>)"
    using assms apply_kv_unset [of m "config p", unfolded find rc snd_conv] by (simp add: parser_inv_def find)
  moreover have "denotes ?st c" if "r = Inr ()"
  proof -
    note new = apply_kv_ok [OF rc [unfolded that], unfolded find]
    show ?thesis unfolding denotes_def
      by (intro conjI field_of_step [OF _ new(1)] field_of_step [OF _ new(2)] field_of_step [OF _ new(3)]
          field_of_step [OF _ new(4)] field_of_step [OF _ new(5)] field_of_step [OF _ new(6)] field_of_step [OF _ new(7)])
        (use assms in \<open>simp_all add: parser_inv_def\<close>)
  qed
  moreover have "unconvertible ?st e" if "r = Inl e" for e
    using apply_kv_error [OF rc [unfolded that]] by (simp add: find)
  ultimately show ?thesis unfolding load by (cases r) (auto simp: bind_outcome_def)
qed

text \<open>What one call does to a parser that satisfies the invariant, where \<open>read\<close> is what it finds.\<close>

definition performs :: "(string \<Rightarrow> string option) \<Rightarrow> string option \<Rightarrow> ConfigParser \<Rightarrow> bool outcome \<times> ConfigParser \<Rightarrow> bool" where
  "performs st read p rq \<longleftrightarrow>
     (case read of
        None \<Rightarrow> fst rq = Inr False \<and> kv (snd rq) = kv p \<and> config (snd rq) = config p \<and> parser_inv st (snd rq)
      | Some content \<Rightarrow> parser_inv (st ++ setting (getlines [] content)) (snd rq) \<and>
          (fst rq = Inr True \<and> denotes (st ++ setting (getlines [] content)) (config (snd rq)) \<or>
           (\<exists>e. fst rq = Inl e \<and> unconvertible (st ++ setting (getlines [] content)) e)))"

lemma parser_inv_filepath [simp]: "parser_inv st (p\<lparr> filepath := f \<rparr>) \<longleftrightarrow> parser_inv st p"
  by (simp add: parser_inv_def)

lemma perform_performs:
  assumes "parser_inv st p"
  shows "performs st (last (opened (filepath p) [op])) p (perform op p)"
proof -
  have load: "performs st (fs f) p (load_from_file fs f p)" for fs f
  proof (cases "fs f")
    case None
    with assms show ?thesis by (simp add: performs_def load_from_file_def)
  next
    case (Some content)
    then show ?thesis using assms load_content_result [of st "p\<lparr> filepath := f \<rparr>" content]
      by (cases "load_content content (p\<lparr> filepath := f \<rparr>)") (simp add: performs_def load_from_file_def)
  qed
  show ?thesis
    by (cases op) (use load assms in \<open>auto simp: perform_def reload_def performs_def\<close>)
qed

definition path_after :: "config_op list \<Rightarrow> string" where
  "path_after ops = foldl (\<lambda>path op. case op of LoadFile fs f \<Rightarrow> f | Reload fs \<Rightarrow> path) [] ops"

lemma opened_append: "opened path (ops @ ops') =
    opened path ops @ opened (foldl (\<lambda>path op. case op of LoadFile fs f \<Rightarrow> f | Reload fs \<Rightarrow> path) path ops) ops'"
  by (induction path ops rule: opened.induct) auto

lemma opened_snoc: "opened [] (ops @ [op]) = opened [] ops @ opened (path_after ops) [op]"
  by (simp add: opened_append path_after_def)

lemma last_opened: "last (opened [] (ops @ [op])) = last (opened (path_after ops) [op])"
  by (cases op) (simp_all add: opened_snoc)

lemma perform_filepath: "filepath (snd (perform op p)) = (case op of LoadFile fs f \<Rightarrow> f | Reload fs \<Rightarrow> filepath p)"
  by (cases op) (auto simp: perform_def reload_def load_from_file_def Let_def split: option.splits)

lemma state_after_snoc: "state_after (ops @ [op]) = snd (perform op (state_after ops))"
  by (simp add: state_after_def)

lemma filepath_state_after: "filepath (state_after ops) = path_after ops"
proof (induction ops rule: rev_induct)
  case Nil
  then show ?case by (simp add: state_after_def path_after_def new_parser_def)
next
  case (snoc op ops)
  then show ?case by (cases op) (simp_all add: state_after_snoc perform_filepath path_after_def)
qed

lemma setting_lines_read_snoc:
  "setting (lines_read (ops @ [op])) = (case last (opened [] (ops @ [op])) of
      None \<Rightarrow> setting (lines_read ops)
    | Some content \<Rightarrow> setting (lines_read ops) ++ setting (getlines [] content))"
proof -
  obtain c where c: "opened (path_after ops) [op] = [c]" by (cases op) simp_all
  show ?thesis unfolding lines_read_def files_read_def opened_snoc c
    by (cases c) (simp_all add: map_filter_def setting_append)
qed

lemma state_after_inv: "parser_inv (setting (lines_read ops)) (state_after ops)"
proof (induction ops rule: rev_induct)
  case Nil
  then show ?case using new_parser_inv
    by (simp add: state_after_def lines_read_def files_read_def map_filter_simps)
next
  case (snoc op ops)
  then show ?case using perform_performs [OF snoc, of op]
    by (auto simp: state_after_snoc performs_def setting_lines_read_snoc last_opened filepath_state_after split: option.splits)
qed

lemma lines_read_file_lines: "list_all2 file_lines (files_read ops) (map (getlines []) (files_read ops))"
  by (auto simp: list_all2_conv_all_nth getlines_iff [symmetric])

lemma perform_denotes:
  assumes "perform op (state_after ops) = (Inr True, p)"
  shows "denotes (setting (lines_read (ops @ [op]))) (config p)"
  using perform_performs [OF state_after_inv, of ops op] assms
  by (auto simp: performs_def setting_lines_read_snoc last_opened filepath_state_after split: option.splits)

lemma run_setters_outcome:
  assumes "\<forall>s \<in> set ss. \<forall>v c d. map_sum id (\<lambda>_. ()) (snd s v c) = map_sum id (\<lambda>_. ()) (snd s v d)"
  shows "fst (run_setters ss m c) = fst (run_setters ss m d)"
  using assms
proof (induction ss arbitrary: c d)
  case (Cons s ss)
  show ?case
  proof (cases "um_find m (fst s)")
    case (Some v)
    have "map_sum id (\<lambda>_. ()) (snd s v c) = map_sum id (\<lambda>_. ()) (snd s v d)"
      using Cons.prems by (meson list.set_intros(1))
    moreover have "fst (run_setters ss m c1) = fst (run_setters ss m d1)" for c1 d1
      using Cons.IH Cons.prems by (meson list.set_intros(2))
    ultimately show ?thesis
      using Some by (cases "snd s v c"; cases "snd s v d") auto
  qed (use Cons in simp)
qed simp

lemma run_setters_cong: "um_find m = um_find n \<Longrightarrow> run_setters ss m c = run_setters ss n c"
  by (induction ss arbitrary: c) (auto split: option.splits sum.splits)

lemma apply_kv_outcome: "um_find m = um_find n \<Longrightarrow> fst (apply_kv m c) = fst (apply_kv n d)"
  unfolding apply_kv_def
  by (subst run_setters_cong, assumption, rule run_setters_outcome)
    (simp add: setters_def bind_outcome_def split: sum.splits)

lemma load_content_outcome:
  "fst (load_content content p) =
     bind_outcome (fst (apply_kv (load_lines (getlines [] content) (kv p)) (config p))) (\<lambda>_. Inr True)"
  by (simp add: load_content_def Let_def split: prod.splits)

lemma load_content_kv: "kv (snd (load_content content p)) = load_lines (getlines [] content) (kv p)"
  by (simp add: load_content_def Let_def split: prod.splits)

section \<open>Properties\<close>

text \<open>
  C23: what any call of \<open>load_from_file\<close> or \<open>reload\<close> does after any history of such calls on one parser, of which
  some may have failed or thrown. The store holds, for every key, the value of the last line that sets it in
  any of the files read so far, a line and its key and value being what the format says. If the
  file cannot be opened (or there is none to reload) the call returns false and changes neither the store nor
  the configuration. Otherwise it returns true with every field converted from the value of its key
  by \<open>stoi\<close>, \<open>stoul\<close> or \<open>stoll\<close>, or at its default if no file ever set it; or it throws the exception of a
  conversion that fails. A key deleted from the file before a reload therefore keeps its old value.
\<close>

theorem loads_denote:
  "\<exists>lss st. list_all2 file_lines (files_read (ops @ [op])) lss \<and> gives (concat lss) st \<and>
     (case perform op (state_after ops) of (r, p) \<Rightarrow>
        um_find (kv p) = st \<and>
        (case last (opened [] (ops @ [op])) of
           None \<Rightarrow> r = Inr False \<and> kv p = kv (state_after ops) \<and> config p = config (state_after ops)
         | Some content \<Rightarrow> r = Inr True \<and> denotes st (config p) \<or> (\<exists>e. r = Inl e \<and> unconvertible st e)))"
proof (intro exI conjI)
  let ?st = "setting (lines_read (ops @ [op]))"
  show "list_all2 file_lines (files_read (ops @ [op])) (map (getlines []) (files_read (ops @ [op])))"
    by (rule lines_read_file_lines)
  show "gives (concat (map (getlines []) (files_read (ops @ [op])))) ?st"
    using setting_gives unfolding lines_read_def .
  have "um_find (kv (snd (perform op (state_after ops)))) = ?st"
    using state_after_inv [of "ops @ [op]"] by (simp add: state_after_snoc parser_inv_def)
  then show "case perform op (state_after ops) of (r, p) \<Rightarrow>
        um_find (kv p) = ?st \<and>
        (case last (opened [] (ops @ [op])) of
           None \<Rightarrow> r = Inr False \<and> kv p = kv (state_after ops) \<and> config p = config (state_after ops)
         | Some content \<Rightarrow> r = Inr True \<and> denotes ?st (config p) \<or> (\<exists>e. r = Inl e \<and> unconvertible ?st e))"
    using perform_performs [OF state_after_inv, of ops op]
    by (auto simp: performs_def setting_lines_read_snoc last_opened filepath_state_after split: option.splits prod.splits)
qed

text \<open>
  the port is taken modulo \<open>65536\<close>, and validation sees only the reduced value: its test
  \<open>port > 65535\<close> never holds, and it rejects the port exactly when the configured number is a
  multiple of \<open>65536\<close>.
\<close>

theorem port_wraps:
  assumes "load_content content new_parser = (Inr b, p)"
    and "setting (getlines [] content) ''port'' = Some v" and "stoi v = Inr n"
    and "setting (getlines [] content) ''thread_pool_size'' = None"
    and "setting (getlines [] content) ''rate_limit_capacity'' = None"
    and "setting (getlines [] content) ''rate_limit_refill_rate'' = None"
  shows "uint (port (config p)) = n mod 65536 \<and> (validate p \<longleftrightarrow> n mod 65536 \<noteq> 0)"
proof -
  have d: "denotes (setting (getlines [] content)) (config p)"
    using load_content_result [OF new_parser_inv, of content] assms(1) by auto
  then have "port (config p) = word_of_int n"
    using assms(2,3) by (simp add: denotes_def field_of_def bind_outcome_def)
  then have "uint (port (config p)) = n mod 65536" by (simp add: uint_word_of_int)
  moreover from this have "port (config p) = 0 \<longleftrightarrow> n mod 65536 = 0"
    by (metis uint_0_iff)
  moreover have "thread_pool_size (config p) = 4" "rate_limit_capacity (config p) = 100"
    "rate_limit_refill_rate (config p) = 50"
    using d assms(4-6) by (simp_all add: denotes_def field_of_def)
  moreover have "n mod 65536 < 65536" by simp
  ultimately show ?thesis by (auto simp: validate_def Let_def)
qed

text \<open>
  an exception sticks: after a load that threw, every further load of a file that sets no
  key throws the same exception again, because the offending entry stays in the store. Deleting
  the bad line and reloading does not recover.
\<close>

theorem load_error_sticks:
  assumes "load_content content p = (Inl e, p')" and "setting (getlines [] content') = Map.empty"
  shows "fst (load_content content' p') = Inl e"
proof -
  have kv: "kv p' = load_lines (getlines [] content) (kv p)"
    using load_content_kv [of content p] assms(1) by simp
  have "um_find (load_lines (getlines [] content') (kv p')) = um_find (kv p')"
    using assms(2) by (simp add: um_find_load_lines)
  then have "fst (apply_kv (load_lines (getlines [] content') (kv p')) (config p')) =
      fst (apply_kv (load_lines (getlines [] content) (kv p)) (config p))"
    using apply_kv_outcome kv by metis
  then show ?thesis
    using load_content_outcome [of content p] assms(1) by (simp add: load_content_outcome)
qed

theorem port_wraps_witness:
  "\<exists>p. load_content (''port = 70000'' @ nl) new_parser = (Inr True, p) \<and>
     uint (port (config p)) = 4464 \<and> validate p"
proof -
  let ?c = "''port = 70000'' @ nl"
  have "case load_content ?c new_parser of (Inr b, p) \<Rightarrow> b | _ \<Rightarrow> False" by code_simp
  then obtain p where p: "load_content ?c new_parser = (Inr True, p)"
    by (auto split: prod.splits sum.splits)
  moreover have "setting (getlines [] ?c) ''port'' = Some ''70000''" "stoi ''70000'' = Inr 70000"
    "setting (getlines [] ?c) ''thread_pool_size'' = None"
    "setting (getlines [] ?c) ''rate_limit_capacity'' = None"
    "setting (getlines [] ?c) ''rate_limit_refill_rate'' = None"
    by code_simp+
  ultimately show ?thesis using port_wraps [OF p] by fastforce
qed

theorem load_error_sticks_witness:
  "\<exists>p'. load_content (''port = x'' @ nl) new_parser = (Inl InvalidArgument, p') \<and>
     fst (load_content (''# empty'' @ nl) p') = Inl InvalidArgument"
proof -
  have "case load_content (''port = x'' @ nl) new_parser of (Inl e, p) \<Rightarrow> e = InvalidArgument | _ \<Rightarrow> False"
    by code_simp
  then obtain p' where p: "load_content (''port = x'' @ nl) new_parser = (Inl InvalidArgument, p')"
    by (auto split: prod.splits sum.splits)
  have "List.map_filter parse_line (getlines [] (''# empty'' @ nl)) = []" by code_simp
  then have "setting (getlines [] (''# empty'' @ nl)) = Map.empty" by (simp add: setting_def [abs_def])
  from load_error_sticks [OF p this] p show ?thesis by blast
qed

text \<open>
  the four tests of phase 21 pass when the file system holds the repository's
  \<open>config/gateway.conf\<close> and no \<open>non_existent_file.conf\<close>.
\<close>

theorem phase21_passes:
  assumes "fs ''non_existent_file.conf'' = None" and "fs ''config/gateway.conf'' = Some gateway_conf"
  shows "test_default_configuration fs = Inr (replicate 3 True) \<and> test_custom_file_configuration fs = Inr (replicate 6 True) \<and>
     test_config_validation fs = Inr (replicate 1 True) \<and> test_hot_reloading fs = Inr (replicate 4 True)"
proof (intro conjI)
  have "test_default_configuration fs = test_default_configuration (\<lambda>_. None)"
    using assms(1) by (simp add: test_default_configuration_def load_from_file_def)
  also have "\<dots> = Inr (replicate 3 True)" by code_simp
  finally show "test_default_configuration fs = Inr (replicate 3 True)" .
  have "test_custom_file_configuration fs = test_custom_file_configuration (\<lambda>_. Some gateway_conf)"
    using assms(2) by (simp add: test_custom_file_configuration_def load_from_file_def)
  also have "\<dots> = Inr (replicate 6 True)" by code_simp
  finally show "test_custom_file_configuration fs = Inr (replicate 6 True)" .
  have "test_config_validation fs = test_config_validation Map.empty"
    by (simp add: test_config_validation_def load_from_file_def)
  also have "\<dots> = Inr (replicate 1 True)" by code_simp
  finally show "test_config_validation fs = Inr (replicate 1 True)" .
  have "test_hot_reloading fs = test_hot_reloading Map.empty"
    by (simp add: test_hot_reloading_def load_from_file_def reload_def after_load_def Let_def)
  also have "\<dots> = Inr (replicate 4 True)" by code_simp
  finally show "test_hot_reloading fs = Inr (replicate 4 True)" .
qed

theorem phase21_passes_witness:
  "test_custom_file_configuration [''config/gateway.conf'' \<mapsto> gateway_conf] = Inr (replicate 6 True)"
  using phase21_passes [of "[''config/gateway.conf'' \<mapsto> gateway_conf]"] by simp

end
