(* ===== verification/Packet_Dissector.thy ===== *)
theory Packet_Dissector
  imports Gateway_Prelude
begin

text \<open>
  The frame dissector of \<open>include/network/PacketDissector.hpp\<close> and the frames that
  \<open>src/phase24_packet_capture.cpp\<close> crafts. Every \<open>memcpy\<close> out of the frame goes through
  \<open>read_bytes\<close>, which is \<open>Undefined\<close> when it would read outside the buffer. The printed lines
  are values of a datatype; \<open>inet_ntop\<close> and \<open>inet_pton\<close> are arguments.
\<close>

section \<open>Data and operations\<close>

record EthernetHeader =
  dest_mac :: "u8 list"
  src_mac :: "u8 list"
  ether_type :: u16

record IPv4Header =
  ver_ihl :: u8
  tos :: u8
  total_length :: u16
  identification :: u16
  flags_fragment :: u16
  ttl :: u8
  protocol :: u8
  ip_checksum :: u16
  src_ip :: u32
  dest_ip :: u32

record TCPHeader =
  tcp_src_port :: u16
  tcp_dest_port :: u16
  seq_num :: u32
  ack_num :: u32
  data_offset :: u8
  tcp_flags :: u8
  window_size :: u16
  tcp_checksum :: u16
  urgent_pointer :: u16

record UDPHeader =
  udp_src_port :: u16
  udp_dest_port :: u16
  udp_length :: u16
  udp_checksum :: u16

text \<open>The packed structs in memory.\<close>

definition eth_bytes :: "endian \<Rightarrow> EthernetHeader \<Rightarrow> u8 list" where
  "eth_bytes e h = dest_mac h @ src_mac h @ mem16 e (ether_type h)"

definition eth_of_bytes :: "endian \<Rightarrow> u8 list \<Rightarrow> EthernetHeader" where
  "eth_of_bytes e b = \<lparr> dest_mac = take 6 b, src_mac = take 6 (drop 6 b),
     ether_type = load16 e (take 2 (drop 12 b)) \<rparr>"

definition ip_bytes :: "endian \<Rightarrow> IPv4Header \<Rightarrow> u8 list" where
  "ip_bytes e h = [ver_ihl h, tos h] @ mem16 e (total_length h) @ mem16 e (identification h) @
     mem16 e (flags_fragment h) @ [ttl h, protocol h] @ mem16 e (ip_checksum h) @
     mem32 e (src_ip h) @ mem32 e (dest_ip h)"

definition ip_of_bytes :: "endian \<Rightarrow> u8 list \<Rightarrow> IPv4Header" where
  "ip_of_bytes e b = \<lparr> ver_ihl = b ! 0, tos = b ! 1, total_length = load16 e (take 2 (drop 2 b)),
     identification = load16 e (take 2 (drop 4 b)), flags_fragment = load16 e (take 2 (drop 6 b)),
     ttl = b ! 8, protocol = b ! 9, ip_checksum = load16 e (take 2 (drop 10 b)),
     src_ip = load32 e (take 4 (drop 12 b)), dest_ip = load32 e (take 4 (drop 16 b)) \<rparr>"

definition tcp_bytes :: "endian \<Rightarrow> TCPHeader \<Rightarrow> u8 list" where
  "tcp_bytes e h = mem16 e (tcp_src_port h) @ mem16 e (tcp_dest_port h) @ mem32 e (seq_num h) @
     mem32 e (ack_num h) @ [data_offset h, tcp_flags h] @ mem16 e (window_size h) @
     mem16 e (tcp_checksum h) @ mem16 e (urgent_pointer h)"

definition tcp_of_bytes :: "endian \<Rightarrow> u8 list \<Rightarrow> TCPHeader" where
  "tcp_of_bytes e b = \<lparr> tcp_src_port = load16 e (take 2 b), tcp_dest_port = load16 e (take 2 (drop 2 b)),
     seq_num = load32 e (take 4 (drop 4 b)), ack_num = load32 e (take 4 (drop 8 b)),
     data_offset = b ! 12, tcp_flags = b ! 13, window_size = load16 e (take 2 (drop 14 b)),
     tcp_checksum = load16 e (take 2 (drop 16 b)), urgent_pointer = load16 e (take 2 (drop 18 b)) \<rparr>"

definition udp_bytes :: "endian \<Rightarrow> UDPHeader \<Rightarrow> u8 list" where
  "udp_bytes e h = mem16 e (udp_src_port h) @ mem16 e (udp_dest_port h) @ mem16 e (udp_length h) @
     mem16 e (udp_checksum h)"

definition udp_of_bytes :: "endian \<Rightarrow> u8 list \<Rightarrow> UDPHeader" where
  "udp_of_bytes e b = \<lparr> udp_src_port = load16 e (take 2 b), udp_dest_port = load16 e (take 2 (drop 2 b)),
     udp_length = load16 e (take 2 (drop 4 b)), udp_checksum = load16 e (take 2 (drop 6 b)) \<rparr>"

text \<open>\<open>memcpy\<close> of \<open>n\<close> bytes at an offset of the frame.\<close>

definition read_bytes :: "u8 list \<Rightarrow> nat \<Rightarrow> nat \<Rightarrow> u8 list outcome" where
  "read_bytes buffer off n =
     (if off + n \<le> length buffer then Inr (take n (drop off buffer)) else Inl Undefined)"

fun mac_to_string :: "u8 list \<Rightarrow> string" where
  "mac_to_string [] = []"
| "mac_to_string [b] = hex2 b"
| "mac_to_string (b # bs) = hex2 b @ '':'' @ mac_to_string bs"

datatype DissectLine =
    FrameTruncated
  | L2 string string u16
  | NonIPv4 bool
  | TruncatedIPv4
  | L3 string string u8 u16 u8
  | TruncatedTCP
  | L4_TCP u16 u16 u32 u32 "string list"
  | TruncatedUDP
  | L4_UDP u16 u16 u16

definition flag_names :: "u8 \<Rightarrow> string list" where
  "flag_names f =
     (if f AND 0x02 \<noteq> 0 then [''SYN''] else []) @ (if f AND 0x10 \<noteq> 0 then [''ACK''] else []) @
     (if f AND 0x01 \<noteq> 0 then [''FIN''] else []) @ (if f AND 0x04 \<noteq> 0 then [''RST''] else []) @
     (if f AND 0x08 \<noteq> 0 then [''PSH''] else [])"

text \<open>Layer 4, from the offset computed by layer 3.\<close>

definition dissect_l4 :: "endian \<Rightarrow> u8 list \<Rightarrow> u8 \<Rightarrow> nat \<Rightarrow> DissectLine list outcome" where
  "dissect_l4 e buffer proto off =
     (if proto = 6 then
        if length buffer < off + 20 then Inr [TruncatedTCP]
        else bind_outcome (read_bytes buffer off 20) (\<lambda>b.
          let tcp = tcp_of_bytes e b
          in Inr [L4_TCP (ntohs e (tcp_src_port tcp)) (ntohs e (tcp_dest_port tcp))
                    (ntohl e (seq_num tcp)) (ntohl e (ack_num tcp)) (flag_names (tcp_flags tcp))])
      else if proto = 17 then
        if length buffer < off + 8 then Inr [TruncatedUDP]
        else bind_outcome (read_bytes buffer off 8) (\<lambda>b.
          let udp = udp_of_bytes e b
          in Inr [L4_UDP (ntohs e (udp_src_port udp)) (ntohs e (udp_dest_port udp))
                    (ntohs e (udp_length udp))])
      else Inr [])"

definition dissect_frame :: "(u32 \<Rightarrow> string) \<Rightarrow> endian \<Rightarrow> u8 list \<Rightarrow> DissectLine list outcome" where
  "dissect_frame ntop e buffer =
     (if length buffer < 14 then Inr [FrameTruncated]
      else bind_outcome (read_bytes buffer 0 14) (\<lambda>b.
        let eth = eth_of_bytes e b; et = ntohs e (ether_type eth);
            l2 = L2 (mac_to_string (src_mac eth)) (mac_to_string (dest_mac eth)) et
        in if et \<noteq> 0x0800 then Inr [l2, NonIPv4 (et = 0x0806)]
           else
             let off = 14 in
             if length buffer < off + 20 then Inr [l2, TruncatedIPv4]
             else bind_outcome (read_bytes buffer off 20) (\<lambda>b.
               let ip = ip_of_bytes e b; ihl = (ver_ihl ip AND 0x0F) * 4;
                   l3 = L3 (ntop (src_ip ip)) (ntop (dest_ip ip)) (ttl ip)
                          (ntohs e (total_length ip)) (protocol ip)
               in bind_outcome (dissect_l4 e buffer (protocol ip) (off + unat ihl)) (\<lambda>l4.
                    Inr (l2 # l3 # l4)))))"

subsection \<open>The frames of phase 24\<close>

text \<open>\<open>inet_pton\<close> writes its result only when it succeeds; the frame is zero before.\<close>

definition put_addr :: "(string \<Rightarrow> u32 option) \<Rightarrow> string \<Rightarrow> u32" where
  "put_addr pton s = (case pton s of Some w \<Rightarrow> w | None \<Rightarrow> 0)"

definition craft_synthetic_tcp_syn_frame :: "(string \<Rightarrow> u32 option) \<Rightarrow> endian \<Rightarrow> u8 list" where
  "craft_synthetic_tcp_syn_frame pton e =
     eth_bytes e \<lparr> dest_mac = [0xFF, 0xFF, 0xFF, 0xFF, 0xFF, 0xFF],
                   src_mac = [0x00, 0x1A, 0x2B, 0x3C, 0x4D, 0x5E], ether_type = htons e 0x0800 \<rparr> @
     ip_bytes e \<lparr> ver_ihl = 0x45, tos = 0, total_length = htons e 40, identification = htons e 1234,
                  flags_fragment = 0, ttl = 64, protocol = 6, ip_checksum = 0,
                  src_ip = put_addr pton ''192.168.1.100'', dest_ip = put_addr pton ''10.0.0.1'' \<rparr> @
     tcp_bytes e \<lparr> tcp_src_port = htons e 54321, tcp_dest_port = htons e 8080, seq_num = htonl e 100000,
                   ack_num = 0, data_offset = 0x50, tcp_flags = 0x02, window_size = htons e 65535,
                   tcp_checksum = 0, urgent_pointer = 0 \<rparr>"

definition craft_synthetic_udp_frame :: "(string \<Rightarrow> u32 option) \<Rightarrow> endian \<Rightarrow> u8 list" where
  "craft_synthetic_udp_frame pton e =
     eth_bytes e \<lparr> dest_mac = [0xAA, 0xBB, 0xCC, 0xDD, 0xEE, 0xFF],
                   src_mac = [0x11, 0x22, 0x33, 0x44, 0x55, 0x66], ether_type = htons e 0x0800 \<rparr> @
     ip_bytes e \<lparr> ver_ihl = 0x45, tos = 0, total_length = htons e 28, identification = 0,
                  flags_fragment = 0, ttl = 128, protocol = 17, ip_checksum = 0,
                  src_ip = put_addr pton ''172.16.0.5'', dest_ip = put_addr pton ''192.168.1.1'' \<rparr> @
     udp_bytes e \<lparr> udp_src_port = htons e 9090, udp_dest_port = htons e 53, udp_length = htons e 8,
                   udp_checksum = 0 \<rparr>"

section \<open>Lemmas\<close>

lemma length_headers [simp]:
  "length (ip_bytes e i) = 20" "length (tcp_bytes e t) = 20" "length (udp_bytes e u) = 8"
  by (simp_all add: ip_bytes_def tcp_bytes_def udp_bytes_def)

lemma length_eth [simp]:
  "length (dest_mac h) = 6 \<Longrightarrow> length (src_mac h) = 6 \<Longrightarrow> length (eth_bytes e h) = 14"
  by (simp add: eth_bytes_def)

lemma eth_of_eth_bytes:
  "length (dest_mac h) = 6 \<Longrightarrow> length (src_mac h) = 6 \<Longrightarrow> eth_of_bytes e (eth_bytes e h) = h"
  by (simp add: eth_of_bytes_def eth_bytes_def)

lemma ip_of_ip_bytes [simp]: "ip_of_bytes e (ip_bytes e h) = h"
  by (simp add: ip_of_bytes_def ip_bytes_def nth_append)

lemma tcp_of_tcp_bytes [simp]: "tcp_of_bytes e (tcp_bytes e h) = h"
  by (simp add: tcp_of_bytes_def tcp_bytes_def nth_append)

lemma udp_of_udp_bytes [simp]: "udp_of_bytes e (udp_bytes e h) = h"
  by (simp add: udp_of_bytes_def udp_bytes_def)

lemma read_append: "length xs = off \<Longrightarrow> length ys = n \<Longrightarrow> read_bytes (xs @ ys @ zs) off n = Inr ys"
  by (simp add: read_bytes_def)

lemma unat_ihl: "unat ((x AND 0x0F) * 4 :: u8) = 4 * unat (x AND 0x0F)"
proof -
  have "x AND 0x0F = take_bit 4 x" by (simp add: take_bit_eq_mask mask_eq_exp_minus_1)
  then have "unat (x AND 0x0F) < 16"
    by (simp add: unsigned_take_bit_eq take_bit_nat_less_exp [of 4, simplified])
  then show ?thesis by (simp add: unat_word_ariths)
qed

lemma dissect_l4_total: "\<exists>ls. dissect_l4 e buf proto off = Inr ls"
  by (simp add: dissect_l4_def read_bytes_def bind_outcome_def Let_def)

lemma dissect_total: "\<exists>lines. dissect_frame ntop e buffer = Inr lines"
proof -
  obtain f where "\<And>p off. dissect_l4 e buffer p off = Inr (f p off)"
    using dissect_l4_total by metis
  then show ?thesis
    by (simp add: dissect_frame_def read_bytes_def bind_outcome_def Let_def)
qed

text \<open>Layers 2 and 3 of a frame that starts with the two headers.\<close>

lemma dissect_ipv4:
  assumes "length (dest_mac eth) = 6" and "length (src_mac eth) = 6" and "ether_type eth = htons e 0x0800"
  shows "dissect_frame ntop e (eth_bytes e eth @ ip_bytes e ip @ rest) =
    bind_outcome (dissect_l4 e (eth_bytes e eth @ ip_bytes e ip @ rest) (protocol ip)
       (14 + 4 * unat (ver_ihl ip AND 0x0F)))
     (\<lambda>l4. Inr (L2 (mac_to_string (src_mac eth)) (mac_to_string (dest_mac eth)) 0x0800 #
        L3 (ntop (src_ip ip)) (ntop (dest_ip ip)) (ttl ip) (ntohs e (total_length ip)) (protocol ip) # l4))"
proof -
  let ?buf = "eth_bytes e eth @ ip_bytes e ip @ rest"
  have "read_bytes ?buf 0 14 = Inr (eth_bytes e eth)"
    using assms read_append [of "[]" 0 "eth_bytes e eth" 14] by simp
  moreover have "read_bytes ?buf 14 20 = Inr (ip_bytes e ip)"
    using assms by (intro read_append) simp_all
  ultimately show ?thesis
    using assms by (simp add: dissect_frame_def bind_outcome_def [of "Inr _"] eth_of_eth_bytes unat_ihl)
qed

lemma dissect_l4_tcp:
  assumes "length pre = off"
  shows "dissect_l4 e (pre @ tcp_bytes e tcp @ rest) 6 off =
    Inr [L4_TCP (ntohs e (tcp_src_port tcp)) (ntohs e (tcp_dest_port tcp)) (ntohl e (seq_num tcp))
      (ntohl e (ack_num tcp)) (flag_names (tcp_flags tcp))]"
  using assms read_append [OF assms, of "tcp_bytes e tcp" 20 rest]
  by (simp add: dissect_l4_def bind_outcome_def)

lemma dissect_l4_udp:
  assumes "length pre = off"
  shows "dissect_l4 e (pre @ udp_bytes e udp @ rest) 17 off =
    Inr [L4_UDP (ntohs e (udp_src_port udp)) (ntohs e (udp_dest_port udp)) (ntohs e (udp_length udp))]"
  using assms read_append [OF assms, of "udp_bytes e udp" 8 rest]
  by (simp add: dissect_l4_def bind_outcome_def)

section \<open>Properties\<close>

text \<open>
  Memory safety: whatever bytes a frame consists of, the dissector reads only inside the
  buffer and ends with its output.
\<close>

theorem dissect_safe: "\<exists>lines. dissect_frame ntop e buffer = Inr lines"
  by (rule dissect_total)

text \<open>
  the dissector reports the fields of a well-formed frame: for any header values, any IP
  options (an IHL of at least five words) and any trailing payload, it prints the addresses, the
  ports, sequence numbers and flags of a TCP segment, or the ports and length of a UDP datagram,
  in host byte order.
\<close>

theorem dissect_reports_fields:
  assumes "length (dest_mac eth) = 6" and "length (src_mac eth) = 6" and "ether_type eth = htons e 0x0800"
    and "20 + length options = 4 * unat (ver_ihl ip AND 0x0F)"
  shows "dissect_frame ntop e (eth_bytes e eth @ ip_bytes e (ip\<lparr> protocol := 6 \<rparr>) @ options @
      tcp_bytes e tcp @ rest) =
    Inr [L2 (mac_to_string (src_mac eth)) (mac_to_string (dest_mac eth)) 0x0800,
      L3 (ntop (src_ip ip)) (ntop (dest_ip ip)) (ttl ip) (ntohs e (total_length ip)) 6,
      L4_TCP (ntohs e (tcp_src_port tcp)) (ntohs e (tcp_dest_port tcp)) (ntohl e (seq_num tcp))
        (ntohl e (ack_num tcp)) (flag_names (tcp_flags tcp))] \<and>
   dissect_frame ntop e (eth_bytes e eth @ ip_bytes e (ip\<lparr> protocol := 17 \<rparr>) @ options @
      udp_bytes e udp @ rest) =
    Inr [L2 (mac_to_string (src_mac eth)) (mac_to_string (dest_mac eth)) 0x0800,
      L3 (ntop (src_ip ip)) (ntop (dest_ip ip)) (ttl ip) (ntohs e (total_length ip)) 17,
      L4_UDP (ntohs e (udp_src_port udp)) (ntohs e (udp_dest_port udp)) (ntohs e (udp_length udp))]"
proof -
  let ?off = "14 + 4 * unat (ver_ihl ip AND 0x0F)"
  have len: "length (eth_bytes e eth @ ip_bytes e (ip\<lparr> protocol := p \<rparr>) @ options) = ?off" for p
    using assms by simp
  show ?thesis
    using dissect_l4_tcp [OF len [of 6], of e tcp rest] dissect_l4_udp [OF len [of 17], of e udp rest]
    by (simp add: dissect_ipv4 [OF assms(1-3)] bind_outcome_def)
qed

theorem dissect_reports_fields_witness:
  "dissect_frame (\<lambda>_. []) BigEndian
     (eth_bytes BigEndian \<lparr> dest_mac = [1, 2, 3, 4, 5, 6], src_mac = [1, 2, 3, 4, 5, 6], ether_type = 0x0800 \<rparr> @
      ip_bytes BigEndian \<lparr> ver_ihl = 0x46, tos = 0, total_length = 32, identification = 0,
        flags_fragment = 0, ttl = 9, protocol = 17, ip_checksum = 0, src_ip = 0, dest_ip = 0 \<rparr> @
      [7, 7, 7, 7] @
      udp_bytes BigEndian \<lparr> udp_src_port = 9090, udp_dest_port = 53, udp_length = 8, udp_checksum = 0 \<rparr> @ []) =
   Inr [L2 (mac_to_string [1, 2, 3, 4, 5, 6]) (mac_to_string [1, 2, 3, 4, 5, 6]) 0x0800,
     L3 [] [] 9 32 17, L4_UDP 9090 53 8]"
  using dissect_reports_fields [of
      "\<lparr> dest_mac = [1, 2, 3, 4, 5, 6], src_mac = [1, 2, 3, 4, 5, 6], ether_type = 0x0800 \<rparr>" BigEndian
      "[7, 7, 7, 7]"
      "\<lparr> ver_ihl = 0x46, tos = 0, total_length = 32, identification = 0, flags_fragment = 0, ttl = 9,
         protocol = 17, ip_checksum = 0, src_ip = 0, dest_ip = 0 \<rparr>" "\<lambda>_. []" _ "[]"
      "\<lparr> udp_src_port = 9090, udp_dest_port = 53, udp_length = 8, udp_checksum = 0 \<rparr>"]
  by (simp add: htons_def ntohs_def)

text \<open>
  an IHL below the minimum of five words is not rejected: with an IHL of zero the dissector
  takes the IP header itself for the TCP header and reports the first four bytes of the IP header
  as ports.
\<close>

theorem ihl_zero_misparsed:
  assumes "length (dest_mac eth) = 6" and "length (src_mac eth) = 6" and "ether_type eth = htons e 0x0800"
    and "ver_ihl ip AND 0x0F = 0" and "protocol ip = 6"
  shows "\<exists>l2 l3 sq ak fl. dissect_frame ntop e (eth_bytes e eth @ ip_bytes e ip @ rest) =
    Inr [l2, l3, L4_TCP (be_load16 [ver_ihl ip, tos ip]) (ntohs e (total_length ip)) sq ak fl]"
proof -
  let ?buf = "eth_bytes e eth @ ip_bytes e ip @ rest"
  have "read_bytes ?buf 14 20 = Inr (ip_bytes e ip)"
    using assms by (intro read_append) simp_all
  moreover have "ntohs e (tcp_src_port (tcp_of_bytes e (ip_bytes e ip))) = be_load16 [ver_ihl ip, tos ip]"
    "ntohs e (tcp_dest_port (tcp_of_bytes e (ip_bytes e ip))) = ntohs e (total_length ip)"
    by (simp_all add: tcp_of_bytes_def ip_bytes_def ntohs_load16)
  ultimately have "\<exists>sq ak fl. dissect_l4 e ?buf 6 14 =
      Inr [L4_TCP (be_load16 [ver_ihl ip, tos ip]) (ntohs e (total_length ip)) sq ak fl]"
    using assms by (simp add: dissect_l4_def bind_outcome_def Let_def)
  then show ?thesis
    using assms(4,5) by (auto simp: dissect_ipv4 [OF assms(1-3)] bind_outcome_def)
qed

theorem ihl_zero_misparsed_witness:
  "\<exists>l2 l3 sq ak fl. dissect_frame (\<lambda>_. []) BigEndian
     (eth_bytes BigEndian \<lparr> dest_mac = [1, 2, 3, 4, 5, 6], src_mac = [1, 2, 3, 4, 5, 6], ether_type = 0x0800 \<rparr> @
      ip_bytes BigEndian \<lparr> ver_ihl = 0x40, tos = 1, total_length = 80, identification = 0,
        flags_fragment = 0, ttl = 9, protocol = 6, ip_checksum = 0, src_ip = 0, dest_ip = 0 \<rparr> @ []) =
   Inr [l2, l3, L4_TCP 0x4001 80 sq ak fl]"
proof -
  have "be_load16 [0x40, 1] = 0x4001" by code_simp
  then show ?thesis
    using ihl_zero_misparsed [of
      "\<lparr> dest_mac = [1, 2, 3, 4, 5, 6], src_mac = [1, 2, 3, 4, 5, 6], ether_type = 0x0800 \<rparr>" BigEndian
      "\<lparr> ver_ihl = 0x40, tos = 1, total_length = 80, identification = 0, flags_fragment = 0, ttl = 9,
         protocol = 6, ip_checksum = 0, src_ip = 0, dest_ip = 0 \<rparr>" "\<lambda>_. []" "[]"]
    by (simp add: htons_def ntohs_def del: be_load16.simps)
qed

text \<open>
  the frames phase 24 crafts are dissected into the values it wrote, on hosts of either byte
  order.
\<close>

theorem phase24_output:
  "dissect_frame ntop e (craft_synthetic_tcp_syn_frame pton e) =
    Inr [L2 ''00:1a:2b:3c:4d:5e'' ''ff:ff:ff:ff:ff:ff'' 0x0800,
      L3 (ntop (put_addr pton ''192.168.1.100'')) (ntop (put_addr pton ''10.0.0.1'')) 64 40 6,
      L4_TCP 54321 8080 100000 0 [''SYN'']] \<and>
   dissect_frame ntop e (craft_synthetic_udp_frame pton e) =
    Inr [L2 ''11:22:33:44:55:66'' ''aa:bb:cc:dd:ee:ff'' 0x0800,
      L3 (ntop (put_addr pton ''172.16.0.5'')) (ntop (put_addr pton ''192.168.1.1'')) 128 28 17,
      L4_UDP 9090 53 8]"
proof -
  have macs: "mac_to_string [0x00, 0x1A, 0x2B, 0x3C, 0x4D, 0x5E] = ''00:1a:2b:3c:4d:5e''"
    "mac_to_string [0xFF, 0xFF, 0xFF, 0xFF, 0xFF, 0xFF] = ''ff:ff:ff:ff:ff:ff''"
    "mac_to_string [0x11, 0x22, 0x33, 0x44, 0x55, 0x66] = ''11:22:33:44:55:66''"
    "mac_to_string [0xAA, 0xBB, 0xCC, 0xDD, 0xEE, 0xFF] = ''aa:bb:cc:dd:ee:ff''"
    "flag_names 2 = [''SYN'']"
    by code_simp+
  have "ntohl e 0 = 0" by (cases e) (simp_all add: ntohl_def bswap32_def be_bytes32_def)
  moreover have ihl: "4 * unat ((0x45 :: u8) AND 0x0F) = 20" by simp
  have "length (eth_bytes e h @ ip_bytes e i) = 34"
    if "length (dest_mac h) = 6" "length (src_mac h) = 6" for h i using that by simp
  note l4 = dissect_l4_tcp [OF this, where rest = "[]", simplified]
    dissect_l4_udp [OF this, where rest = "[]", simplified]
  ultimately show ?thesis
    by (simp add: craft_synthetic_tcp_syn_frame_def craft_synthetic_udp_frame_def dissect_ipv4 l4 macs
        bind_outcome_def del: mac_to_string.simps)
qed

end
