(* ===== verification/Async_Logger.thy ===== *)
theory Async_Logger
  imports Gateway_Prelude
begin

text \<open>
  The ring-buffer logger of \<open>include/logging/AsyncLogger.hpp\<close>. A call of \<open>log\<close> and an
  iteration of the consumer loop are steps of producers and consumer on the shared ring; the
  counters \<open>head_\<close> and \<open>tail_\<close> are 64-bit words that wrap, and a message is the array of 256
  characters of its slot. The reference is a FIFO queue of the lines to print.
\<close>

section \<open>Data and operations\<close>

datatype LogLevel = LDEBUG | LINFO | LWARN | LERROR

definition level_str :: "LogLevel \<Rightarrow> string" where
  "level_str l = (case l of LDEBUG \<Rightarrow> ''DEBUG'' | LINFO \<Rightarrow> ''INFO '' | LWARN \<Rightarrow> ''WARN '' | LERROR \<Rightarrow> ''ERROR'')"

record LogEntry =
  entry_level :: LogLevel
  message :: string
  timestamp_us :: int
  valid :: bool

definition RING_CAPACITY :: nat where
  "RING_CAPACITY = 1024"

definition blank_entry :: LogEntry where
  "blank_entry = \<lparr> entry_level = LDEBUG, message = replicate 256 (CHR 0x00), timestamp_us = 0, valid = False \<rparr>"

record AsyncLogger =
  ring :: "LogEntry list"
  head :: u64
  tail :: u64
  logger_running :: bool
  dropped :: u64

definition new_logger :: AsyncLogger where
  "new_logger = \<lparr> ring = replicate RING_CAPACITY blank_entry, head = 0, tail = 0, logger_running = False,
     dropped = 0 \<rparr>"

definition start_logger :: "AsyncLogger \<Rightarrow> AsyncLogger" where
  "start_logger l = l\<lparr> logger_running := True \<rparr>"

definition slot_of :: "u64 \<Rightarrow> nat" where
  "slot_of k = unat k mod RING_CAPACITY"

text \<open>Filling a slot: the message is cut at 255 characters and terminated; what was in the array
  behind it stays.\<close>

definition fill_entry :: "LogLevel \<Rightarrow> string \<Rightarrow> time_ns \<Rightarrow> LogEntry \<Rightarrow> LogEntry" where
  "fill_entry level msg now entry =
     (let copy_len = min (length msg) 255
      in \<lparr> entry_level = level,
           message = take copy_len msg @ [CHR 0x00] @ drop (copy_len + 1) (message entry),
           timestamp_us = ns_to_us now, valid = True \<rparr>)"

definition log_entry :: "LogLevel \<Rightarrow> string \<Rightarrow> time_ns \<Rightarrow> AsyncLogger \<Rightarrow> bool \<times> AsyncLogger" where
  "log_entry level msg now l =
     (let slot = slot_of (head l); l = l\<lparr> head := head l + 1 \<rparr>; entry = ring l ! slot
      in if valid entry then (False, l\<lparr> dropped := dropped l + 1 \<rparr>)
         else (True, l\<lparr> ring := (ring l)[slot := fill_entry level msg now entry] \<rparr>))"

text \<open>A printed line: time, level and the message up to its terminator.\<close>

type_synonym log_line = "int \<times> string \<times> string"

definition format_entry :: "LogEntry \<Rightarrow> log_line" where
  "format_entry entry = (timestamp_us entry, level_str (entry_level entry), c_string (message entry))"

text \<open>One iteration of \<open>consume_loop\<close>: nothing when the slot at \<open>tail_\<close> is not filled.\<close>

definition consume_one :: "AsyncLogger \<Rightarrow> log_line option \<times> AsyncLogger" where
  "consume_one l =
     (let slot = slot_of (tail l); entry = ring l ! slot
      in if \<not> valid entry then (None, l)
         else (Some (format_entry entry),
               l\<lparr> ring := (ring l)[slot := entry\<lparr> valid := False \<rparr>], tail := tail l + 1 \<rparr>))"

definition has_pending :: "AsyncLogger \<Rightarrow> bool" where
  "has_pending l \<longleftrightarrow> list_ex valid (ring l)"

text \<open>The consumer loop without producers, at most \<open>fuel\<close> iterations; \<open>None\<close> when it has not
  ended by then.\<close>

fun consume_loop :: "nat \<Rightarrow> AsyncLogger \<Rightarrow> (log_line list \<times> AsyncLogger) option" where
  "consume_loop 0 l = None"
| "consume_loop (Suc fuel) l =
     (if logger_running l \<or> has_pending l
      then let (printed, l') = consume_one l
           in map_option (\<lambda>(out, l''). ((case printed of None \<Rightarrow> [] | Some x \<Rightarrow> [x]) @ out, l''))
                (consume_loop fuel l')
      else Some ([], l))"

text \<open>\<open>stop\<close>: clears the flag and waits for the consumer, which sees no producer any more.\<close>

definition stop_logger :: "nat \<Rightarrow> AsyncLogger \<Rightarrow> (log_line list \<times> AsyncLogger) option" where
  "stop_logger fuel l =
     (if \<not> logger_running l then Some ([], l) else consume_loop fuel (l\<lparr> logger_running := False \<rparr>))"

text \<open>An interleaving of producers and consumer: the answers of the producers, the lines printed
  and the final state.\<close>

datatype log_event = Log LogLevel string time_ns | Consume

fun logger_steps :: "log_event list \<Rightarrow> AsyncLogger \<Rightarrow> bool list \<times> log_line list \<times> AsyncLogger" where
  "logger_steps [] l = ([], [], l)"
| "logger_steps (Log level msg now # es) l =
     (let (ok, l) = log_entry level msg now l; (oks, out, l) = logger_steps es l in (ok # oks, out, l))"
| "logger_steps (Consume # es) l =
     (let (printed, l) = consume_one l; (oks, out, l) = logger_steps es l
      in (oks, (case printed of None \<Rightarrow> [] | Some x \<Rightarrow> [x]) @ out, l))"

section \<open>Specification\<close>

definition line_of :: "LogLevel \<Rightarrow> string \<Rightarrow> time_ns \<Rightarrow> log_line" where
  "line_of level msg now = (ns_to_us now, level_str level, c_string (take 255 msg))"

fun logged :: "log_event list \<Rightarrow> log_line list" where
  "logged [] = []"
| "logged (Log level msg now # es) = line_of level msg now # logged es"
| "logged (Consume # es) = logged es"

text \<open>The ring holds the queue \<open>q\<close> from \<open>tail_\<close> on, and \<open>head_\<close> is \<open>d\<close> slots beyond its
  end.\<close>

definition holds :: "u64 \<Rightarrow> AsyncLogger \<Rightarrow> log_line list \<Rightarrow> bool" where
  "holds d l q \<longleftrightarrow> length (ring l) = RING_CAPACITY \<and> length q \<le> RING_CAPACITY \<and>
     head l = tail l + of_nat (length q) + d \<and>
     (\<forall>j < RING_CAPACITY.
        if j < length q
        then valid (ring l ! ((unat (tail l) + j) mod RING_CAPACITY)) \<and>
          format_entry (ring l ! ((unat (tail l) + j) mod RING_CAPACITY)) = q ! j
        else \<not> valid (ring l ! ((unat (tail l) + j) mod RING_CAPACITY)))"

text \<open>What the clients of a bounded FIFO buffer rely on.\<close>

locale fifo_buffer =
  fixes rep :: "'s \<Rightarrow> 'x list \<Rightarrow> bool"
    and put :: "'m \<Rightarrow> 's \<Rightarrow> bool \<times> 's"
    and line :: "'m \<Rightarrow> 'x"
    and get :: "'s \<Rightarrow> 'x option \<times> 's"
    and cap :: nat
  assumes put_room: "rep s q \<Longrightarrow> length q < cap \<Longrightarrow> fst (put m s) \<and> rep (snd (put m s)) (q @ [line m])"
    and put_full: "rep s q \<Longrightarrow> length q = cap \<Longrightarrow> \<not> fst (put m s)"
    and rep_bound: "rep s q \<Longrightarrow> length q \<le> cap"
    and get_some: "rep s (x # q) \<Longrightarrow> fst (get s) = Some x \<and> rep (snd (get s)) q"
    and get_none: "rep s [] \<Longrightarrow> get s = (None, s)"
begin

lemma put_iff: "rep s q \<Longrightarrow> fst (put m s) \<longleftrightarrow> length q < cap"
  using put_room put_full rep_bound by (metis le_neq_implies_less less_irrefl)

lemma put_accepted: "rep s q \<Longrightarrow> fst (put m s) \<Longrightarrow> rep (snd (put m s)) (q @ [line m])"
  using put_room put_iff by blast

end

section \<open>Lemmas\<close>

lemma capacity_simps [simp]: "0 < RING_CAPACITY" "RING_CAPACITY \<noteq> 0"
  by (simp_all add: RING_CAPACITY_def)

lemma mod_shift_inj:
  assumes "(t + j) mod n = (t + k) mod n" and "j < n" and "k < n"
  shows "j = (k :: nat)"
proof -
  from assms(1) obtain a b where "t + j + n * a = t + k + n * b"
    using nat_mod_eq_iff by blast
  then have "j + n * a = k + n * b" by simp
  then have "j mod n = k mod n" using nat_mod_eq_iff by blast
  with assms show ?thesis by simp
qed

lemma unat_add_mod: "unat (x + of_nat k :: u64) mod RING_CAPACITY = (unat x + k) mod RING_CAPACITY"
proof -
  have "unat (x + of_nat k) = (unat x + k) mod 2 ^ 64"
    by (simp add: unat_word_ariths unat_of_nat mod_add_right_eq)
  moreover have "RING_CAPACITY dvd 2 ^ 64" by (simp add: RING_CAPACITY_def)
  ultimately show ?thesis by (simp add: mod_mod_cancel)
qed

lemma slot_nth: "slot_of (x + of_nat k) = (unat x + k) mod RING_CAPACITY"
  by (simp add: slot_of_def unat_add_mod)

lemma slot_ne: "j < RING_CAPACITY \<Longrightarrow> k < RING_CAPACITY \<Longrightarrow> j \<noteq> k \<Longrightarrow>
  (t + j) mod RING_CAPACITY \<noteq> (t + k) mod RING_CAPACITY"
  using mod_shift_inj by blast

lemma format_fill: "format_entry (fill_entry level msg now entry) = line_of level msg now"
proof -
  have "takeWhile P (xs @ [c] @ ys) = takeWhile P xs" if "\<not> P c" for P :: "char \<Rightarrow> bool" and xs c ys
    using that by (induction xs) simp_all
  moreover have "take (min (length msg) 255) msg = take 255 msg" by (simp add: min_def)
  ultimately show ?thesis
    by (simp add: format_entry_def fill_entry_def line_of_def c_string_def Let_def)
qed

lemma new_logger_holds: "holds 0 new_logger []"
  by (simp add: holds_def new_logger_def blank_entry_def)

lemma log_room:
  assumes "holds 0 l q" and "length q < RING_CAPACITY"
  shows "fst (log_entry level msg now l)"
    and "holds 0 (snd (log_entry level msg now l)) (q @ [line_of level msg now])"
proof -
  let ?n = "length q" and ?t = "unat (tail l)"
  let ?i = "(?t + ?n) mod RING_CAPACITY"
  have slot: "slot_of (head l) = ?i" using assms(1) by (simp add: holds_def slot_nth)
  have free: "\<not> valid (ring l ! ?i)" using assms by (force simp: holds_def)
  have res: "log_entry level msg now l =
      (True, l\<lparr> head := head l + 1, ring := (ring l)[?i := fill_entry level msg now (ring l ! ?i)] \<rparr>)"
    using free by (simp add: log_entry_def slot Let_def)
  then show "fst (log_entry level msg now l)" by simp
  have len: "length (ring l) = RING_CAPACITY" using assms(1) by (simp add: holds_def)
  then have bound: "?i < length (ring l)" by simp
  have nth: "(ring l)[?i := v] ! ((?t + j) mod RING_CAPACITY) =
      (if j = ?n then v else ring l ! ((?t + j) mod RING_CAPACITY))" if "j < RING_CAPACITY" for j v
    using slot_ne [OF that assms(2), of ?t] bound by (cases "j = ?n") simp_all
  have "valid (fill_entry level msg now e)" for e by (simp add: fill_entry_def Let_def)
  with assms show "holds 0 (snd (log_entry level msg now l)) (q @ [line_of level msg now])"
    by (auto simp: holds_def res nth format_fill nth_append less_Suc_eq)
qed

lemma log_full:
  assumes "holds 0 l q" and "length q = RING_CAPACITY"
  shows "log_entry level msg now l = (False, l\<lparr> head := head l + 1, dropped := dropped l + 1 \<rparr>)"
proof -
  have "slot_of (head l) = (unat (tail l) + 0) mod RING_CAPACITY"
    using assms by (simp add: holds_def slot_nth)
  moreover have "valid (ring l ! ((unat (tail l) + 0) mod RING_CAPACITY))"
    using assms unfolding holds_def by (metis capacity_simps(1))
  ultimately show ?thesis by (simp add: log_entry_def)
qed

lemma consume_some:
  assumes "holds d l (x # q)"
  shows "fst (consume_one l) = Some x" and "holds d (snd (consume_one l)) q"
    and "logger_running (snd (consume_one l)) = logger_running l"
proof -
  let ?t = "unat (tail l)"
  let ?i = "?t mod RING_CAPACITY"
  have at: "j < RING_CAPACITY \<Longrightarrow> if j < length (x # q)
      then valid (ring l ! ((?t + j) mod RING_CAPACITY)) \<and>
        format_entry (ring l ! ((?t + j) mod RING_CAPACITY)) = (x # q) ! j
      else \<not> valid (ring l ! ((?t + j) mod RING_CAPACITY))" for j
    using assms unfolding holds_def by blast
  have first: "valid (ring l ! ?i)" "format_entry (ring l ! ?i) = x"
    using at [of 0] by simp_all
  have res: "consume_one l = (Some x,
      l\<lparr> ring := (ring l)[?i := (ring l ! ?i)\<lparr> valid := False \<rparr>], tail := tail l + 1 \<rparr>)"
    using first by (simp add: consume_one_def slot_of_def Let_def)
  then show "fst (consume_one l) = Some x" "logger_running (snd (consume_one l)) = logger_running l"
    by simp_all
  have len: "length (ring l) = RING_CAPACITY" "length q < RING_CAPACITY" and hd: "head l = tail l + of_nat (Suc (length q)) + d"
    using assms by (simp_all add: holds_def)
  have "if j < length q
      then valid ((ring l)[?i := v] ! ((unat (tail l + 1) + j) mod RING_CAPACITY)) \<and>
        format_entry ((ring l)[?i := v] ! ((unat (tail l + 1) + j) mod RING_CAPACITY)) = q ! j
      else \<not> valid ((ring l)[?i := v] ! ((unat (tail l + 1) + j) mod RING_CAPACITY))"
    if "j < RING_CAPACITY" and "\<not> valid v" for j v
  proof -
    have idx: "(unat (tail l + 1) + j) mod RING_CAPACITY = (?t + Suc j) mod RING_CAPACITY"
      using unat_add_mod [of "tail l" 1] by (metis (no_types) Suc_eq_plus1_left add.assoc mod_add_left_eq of_nat_1)
    show ?thesis
    proof (cases "Suc j < RING_CAPACITY")
      case True
      then have "(?t + Suc j) mod RING_CAPACITY \<noteq> ?i" using slot_ne [of "Suc j" 0 ?t] by simp
      then show ?thesis unfolding idx using at [OF True] by (auto split: if_splits)
    next
      case False
      then have "Suc j = RING_CAPACITY" using that(1) by simp
      then have "(?t + Suc j) mod RING_CAPACITY = ?i" by simp
      then show ?thesis unfolding idx using that len \<open>Suc j = RING_CAPACITY\<close> by simp
    qed
  qed
  then show "holds d (snd (consume_one l)) q"
    using len hd by (simp add: res holds_def add.assoc)
qed

lemma consume_none: "holds d l [] \<Longrightarrow> consume_one l = (None, l)"
proof -
  assume "holds d l []"
  then have "\<not> valid (ring l ! ((unat (tail l) + 0) mod RING_CAPACITY))"
    unfolding holds_def by (metis capacity_simps(1) length_0_conv less_nat_zero_code)
  then show ?thesis by (simp add: consume_one_def slot_of_def)
qed

interpretation logger: fifo_buffer "holds 0" "\<lambda>(level, msg, now). log_entry level msg now"
  "\<lambda>(level, msg, now). line_of level msg now" consume_one RING_CAPACITY
proof
  fix l q x and m :: "LogLevel \<times> string \<times> time_ns"
  obtain level msg now where m: "m = (level, msg, now)" by (cases m)
  let ?put = "case m of (level, msg, now) \<Rightarrow> log_entry level msg now"
  show "holds 0 l q \<Longrightarrow> length q < RING_CAPACITY \<Longrightarrow>
      fst (?put l) \<and> holds 0 (snd (?put l)) (q @ [case m of (level, msg, now) \<Rightarrow> line_of level msg now])"
    by (simp add: m log_room)
  show "holds 0 l q \<Longrightarrow> length q = RING_CAPACITY \<Longrightarrow> \<not> fst (?put l)" by (simp add: m log_full)
  show "holds 0 l q \<Longrightarrow> length q \<le> RING_CAPACITY" by (simp add: holds_def)
  show "holds 0 l (x # q) \<Longrightarrow> fst (consume_one l) = Some x \<and> holds 0 (snd (consume_one l)) q"
    by (simp add: consume_some)
  show "holds 0 l [] \<Longrightarrow> consume_one l = (None, l)" by (rule consume_none)
qed

lemma slot_surj: "i < RING_CAPACITY \<Longrightarrow> \<exists>j < RING_CAPACITY. (t + j) mod RING_CAPACITY = i"
proof (intro exI conjI)
  let ?n = RING_CAPACITY
  assume i: "i < ?n"
  show "(i + (?n - t mod ?n)) mod ?n < ?n" by simp
  have "t mod ?n < ?n" by simp
  then have "t + (i + (?n - t mod ?n)) = i + ?n + (t - t mod ?n)"
    using mod_less_eq_dividend [of t ?n] by linarith
  also have "\<dots> = i + ?n * (1 + t div ?n)" by (simp add: minus_mod_eq_mult_div)
  finally have "(t + (i + (?n - t mod ?n))) mod ?n = i"
    using i by (simp only: mod_mult_self2 mod_less)
  then show "(t + (i + (?n - t mod ?n)) mod ?n) mod ?n = i" by (simp only: mod_add_right_eq)
qed

lemma pending_iff: "holds d l q \<Longrightarrow> has_pending l \<longleftrightarrow> q \<noteq> []"
proof
  assume h: "holds d l q" and "has_pending l"
  then obtain i where i: "i < RING_CAPACITY" "valid (ring l ! i)"
    by (auto simp: has_pending_def list_ex_length holds_def)
  obtain j where "j < RING_CAPACITY" "(unat (tail l) + j) mod RING_CAPACITY = i"
    using slot_surj [OF i(1)] by blast
  with h i(2) show "q \<noteq> []" unfolding holds_def by (metis length_0_conv less_nat_zero_code)
next
  assume h: "holds d l q" and "q \<noteq> []"
  then obtain x q' where "q = x # q'" by (cases q) auto
  with h consume_some(1) [of d l x q'] have "fst (consume_one l) = Some x" by simp
  then have "valid (ring l ! slot_of (tail l))" by (auto simp: consume_one_def Let_def split: if_splits)
  moreover have "slot_of (tail l) < length (ring l)" using h by (simp add: slot_of_def holds_def)
  ultimately show "has_pending l" by (auto simp: has_pending_def list_ex_length)
qed

lemma consume_loop_drains:
  "holds d l q \<Longrightarrow> \<not> logger_running l \<Longrightarrow> length q < fuel \<Longrightarrow>
     \<exists>l'. consume_loop fuel l = Some (q, l') \<and> holds d l' []"
proof (induction q arbitrary: l fuel)
  case Nil
  then obtain n where "fuel = Suc n" by (cases fuel) auto
  with Nil show ?case by (simp add: pending_iff)
next
  case (Cons x q)
  then obtain n where n: "fuel = Suc n" "length q < n" by (cases fuel) auto
  note c = consume_some [OF Cons.prems(1)]
  obtain l' where "consume_loop n (snd (consume_one l)) = Some (q, l')" "holds d l' []"
    using Cons.IH [OF c(2) _ n(2)] c(3) Cons.prems(2) by auto
  moreover have "has_pending l" using pending_iff [OF Cons.prems(1)] by simp
  ultimately show ?case using c(1) n(1) by (simp add: case_prod_beta)
qed

lemma logger_steps_fifo:
  "holds 0 l q \<Longrightarrow> False \<notin> set (fst (logger_steps es l)) \<Longrightarrow>
     \<exists>q'. holds 0 (snd (snd (logger_steps es l))) q' \<and> q @ logged es = fst (snd (logger_steps es l)) @ q'"
proof (induction es arbitrary: l q)
  case (Cons e es)
  show ?case
  proof (cases e)
    case (Log level msg now)
    let ?l = "snd (log_entry level msg now l)"
    have ok: "fst (log_entry level msg now l)" "False \<notin> set (fst (logger_steps es ?l))"
      using Cons.prems(2) Log by (simp_all add: case_prod_beta Let_def)
    have "holds 0 ?l (q @ [line_of level msg now])"
      using logger.put_accepted [OF Cons.prems(1), of "(level, msg, now)"] ok(1) by simp
    from Cons.IH [OF this ok(2)] Log show ?thesis by (simp add: case_prod_beta Let_def)
  next
    case Consume
    have ok: "False \<notin> set (fst (logger_steps es (snd (consume_one l))))"
      using Cons.prems(2) Consume by (simp add: case_prod_beta Let_def)
    show ?thesis
    proof (cases q)
      case Nil
      then have "consume_one l = (None, l)" using Cons.prems(1) consume_none by simp
      with Cons.IH [OF Cons.prems(1)] ok Consume show ?thesis by (simp add: case_prod_beta Let_def)
    next
      case q: (Cons x q1)
      note c = consume_some [OF Cons.prems(1) [unfolded q]]
      from Cons.IH [OF c(2) ok] c(1) q Consume show ?thesis by (auto simp: case_prod_beta Let_def)
    qed
  qed
qed auto

lemma steps_append:
  "logger_steps (es @ fs) l = (let (oks, out, l) = logger_steps es l; (oks', out', l) = logger_steps fs l
     in (oks @ oks', out @ out', l))"
proof (induction es arbitrary: l)
  case (Cons e es)
  then show ?case by (cases e) (simp_all add: case_prod_beta Let_def)
qed (simp add: case_prod_beta)

lemma log_n:
  "holds 0 l q \<Longrightarrow> length q + n \<le> RING_CAPACITY \<Longrightarrow>
     \<exists>l'. logger_steps (replicate n (Log level msg now)) l = (replicate n True, [], l') \<and>
       holds 0 l' (q @ replicate n (line_of level msg now))"
proof (induction n arbitrary: l q)
  case (Suc n)
  note c = log_room [OF Suc.prems(1), of level msg now]
  obtain l' where "logger_steps (replicate n (Log level msg now)) (snd (log_entry level msg now l)) =
      (replicate n True, [], l')" "holds 0 l' ((q @ [line_of level msg now]) @ replicate n (line_of level msg now))"
    using Suc.IH [OF c(2)] Suc.prems(2) by auto
  with c(1) Suc.prems(2) show ?case by (simp add: case_prod_beta)
qed simp

lemma consume_n:
  "holds d l q \<Longrightarrow> \<exists>l'. logger_steps (replicate (length q) Consume) l = ([], q, l') \<and> holds d l' []"
proof (induction q arbitrary: l)
  case (Cons x q)
  note c = consume_some [OF Cons.prems]
  from Cons.IH [OF c(2)] c(1) show ?case by (auto simp: case_prod_beta Let_def)
qed simp

text \<open>A consumer that waits at an empty slot while another slot is filled waits for ever.\<close>

lemma stalled_loop: "has_pending l \<Longrightarrow> consume_one l = (None, l) \<Longrightarrow> consume_loop fuel l = None"
  by (induction fuel) simp_all

lemma log_misaligned:
  assumes "holds 1 l []"
  shows "has_pending (snd (log_entry level msg now l))"
    and "consume_one (snd (log_entry level msg now l)) =
      (None, snd (log_entry level msg now l))"
    and "fst (log_entry level msg now l)"
proof -
  let ?t = "unat (tail l)"
  let ?i = "(?t + 1) mod RING_CAPACITY"
  have slot: "slot_of (head l) = ?i" using assms slot_nth [of "tail l" 1] by (simp add: holds_def)
  have free: "\<not> valid (ring l ! ((?t + j) mod RING_CAPACITY))" if "j < RING_CAPACITY" for j
    using assms that by (simp add: holds_def)
  have len: "length (ring l) = RING_CAPACITY" using assms by (simp add: holds_def)
  have ne: "?t mod RING_CAPACITY \<noteq> ?i" using slot_ne [of 0 1 ?t] by (simp add: RING_CAPACITY_def)
  have res: "snd (log_entry level msg now l) =
      l\<lparr> head := head l + 1, ring := (ring l)[?i := fill_entry level msg now (ring l ! ?i)] \<rparr>"
    using free [of 1] by (simp add: log_entry_def slot Let_def RING_CAPACITY_def)
  show "fst (log_entry level msg now l)"
    using free [of 1] by (simp add: log_entry_def slot Let_def RING_CAPACITY_def)
  have "valid (fill_entry level msg now e)" for e by (simp add: fill_entry_def Let_def)
  then show "has_pending (snd (log_entry level msg now l))"
    using len by (auto simp: res has_pending_def list_ex_length intro!: exI [of _ ?i])
  show "consume_one (snd (log_entry level msg now l)) = (None, snd (log_entry level msg now l))"
    using free [of 0] ne by (simp add: res consume_one_def slot_of_def)
qed

lemma holds_flags [simp]:
  "holds d (l\<lparr> logger_running := b \<rparr>) q = holds d l q" "holds d (start_logger l) q = holds d l q"
  by (simp_all add: holds_def start_logger_def)

lemma running_steps: "logger_running (snd (snd (logger_steps es l))) = logger_running l"
proof (induction es arbitrary: l)
  case (Cons e es)
  then show ?case
    by (cases e) (simp_all add: case_prod_beta Let_def log_entry_def consume_one_def)
qed simp

lemma flushes:
  assumes "logger_steps es (start_logger new_logger) = (oks, out, l)" and "False \<notin> set oks"
    and "RING_CAPACITY < fuel"
  shows "\<exists>rest l'. stop_logger fuel l = Some (rest, l') \<and> out @ rest = logged es"
proof -
  have "holds 0 (start_logger new_logger) []" by (simp add: new_logger_holds)
  then obtain q where q: "holds 0 l q" "logged es = out @ q"
    using logger_steps_fifo [of "start_logger new_logger" "[]" es] assms(1,2) by auto
  have "length q < fuel" using q(1) assms(3) by (simp add: holds_def)
  then obtain l' where "consume_loop fuel (l\<lparr> logger_running := False \<rparr>) = Some (q, l')"
    using consume_loop_drains [of 0 "l\<lparr> logger_running := False \<rparr>" q fuel] q(1) by auto
  moreover have "logger_running l"
    using running_steps [of es "start_logger new_logger"] assms(1) by (simp add: start_logger_def)
  ultimately show ?thesis using q(2) by (auto simp: stop_logger_def)
qed

section \<open>Properties\<close>

text \<open>
  FIFO and flush on shutdown: in every interleaving of producers and consumer in which no
  message was refused, the lines printed so far followed by the lines \<open>stop\<close> prints before it
  returns are exactly the logged messages in order, each cut at 255 characters; the final loop
  needs at most one iteration per slot and one more.
\<close>

theorem logger_fifo_flush:
  assumes "logger_steps es (start_logger new_logger) = (oks, out, l)" and "False \<notin> set oks"
    and "RING_CAPACITY < fuel"
  shows "\<exists>rest l'. stop_logger fuel l = Some (rest, l') \<and> out @ rest = logged es"
  using assms by (rule flushes)

theorem logger_fifo_flush_witness:
  "\<exists>oks out l rest l'. logger_steps [Log LINFO ''a'' 0, Log LWARN ''b'' 5000, Consume] (start_logger new_logger) =
      (oks, out, l) \<and> stop_logger 1025 l = Some (rest, l') \<and>
      out @ rest = [(0, ''INFO '', ''a''), (5, ''WARN '', ''b'')]"
proof -
  let ?es = "[Log LINFO ''a'' 0, Log LWARN ''b'' 5000, Consume]"
  obtain oks out l where s: "logger_steps ?es (start_logger new_logger) = (oks, out, l)"
    by (rule prod_cases3)
  have h: "holds 0 (start_logger new_logger) []" by (simp add: new_logger_holds)
  note r1 = log_room [OF h, of LINFO "''a''" 0]
  note r2 = log_room [OF r1(2), of LWARN "''b''" 5000]
  have "False \<notin> set oks"
    using s r1(1) r2(1) by (auto simp: case_prod_beta Let_def RING_CAPACITY_def)
  moreover have "logged ?es = [(0, ''INFO '', ''a''), (5, ''WARN '', ''b'')]"
    by (simp add: line_of_def level_str_def c_string_def ns_to_us_def cdiv_def)
  ultimately show ?thesis
    using logger_fifo_flush [OF s, of 1025] s by (auto simp: RING_CAPACITY_def)
qed

text \<open>
  a single refused message breaks the logger: \<open>head_\<close> has moved on although nothing was
  stored, so once the ring is drained the consumer waits at a slot the producers have skipped.
  There is a run in which the last message was accepted and \<open>stop\<close> never returns.
\<close>

theorem drop_stalls_logger:
  "\<exists>es oks out l. logger_steps es (start_logger new_logger) = (oks, out, l) \<and> last oks \<and>
     (\<forall>fuel. stop_logger fuel l = None)"
proof -
  let ?m = "Log LINFO ''x'' 0" and ?n = RING_CAPACITY
  have h0: "holds 0 (start_logger new_logger) []" by (simp add: new_logger_holds)
  obtain l1 where l1: "logger_steps (replicate ?n ?m) (start_logger new_logger) = (replicate ?n True, [], l1)"
      "holds 0 l1 (replicate ?n (line_of LINFO ''x'' 0))"
    using log_n [OF h0, of ?n LINFO "''x''" 0] by auto
  define l2 where "l2 = snd (log_entry LINFO ''x'' 0 l1)"
  have drop: "log_entry LINFO ''x'' 0 l1 = (False, l1\<lparr> head := head l1 + 1, dropped := dropped l1 + 1 \<rparr>)"
    using log_full [OF l1(2)] by simp
  then have "holds 1 l2 (replicate ?n (line_of LINFO ''x'' 0))"
    using l1(2) by (simp add: l2_def holds_def)
  then obtain out l3 where l3: "logger_steps (replicate ?n Consume) l2 = ([], out, l3)" "holds 1 l3 []"
    using consume_n by (metis length_replicate)
  define l4 where "l4 = snd (log_entry LINFO ''x'' 0 l3)"
  have ok4: "fst (log_entry LINFO ''x'' 0 l3)" using l3(2) by (rule log_misaligned(3))
  have s: "logger_steps (replicate ?n ?m @ [?m] @ replicate ?n Consume @ [?m]) (start_logger new_logger) =
      (replicate ?n True @ [False, True], out, l4)"
    using l1(1) l3(1) ok4 drop
    by (simp add: steps_append l4_def l2_def case_prod_beta Let_def del: replicate_Suc append_assoc)
  have "logger_running l4"
    using running_steps [of "replicate ?n ?m @ [?m] @ replicate ?n Consume @ [?m]" "start_logger new_logger"] s
    by (simp add: start_logger_def)
  moreover have "consume_loop fuel (l4\<lparr> logger_running := False \<rparr>) = None" for fuel
  proof (rule stalled_loop)
    show "has_pending (l4\<lparr> logger_running := False \<rparr>)"
      using log_misaligned(1) [OF l3(2)] by (simp add: l4_def has_pending_def)
    show "consume_one (l4\<lparr> logger_running := False \<rparr>) = (None, l4\<lparr> logger_running := False \<rparr>)"
      using log_misaligned(2) [OF l3(2), of LINFO "''x''" 0]
      by (auto simp: l4_def consume_one_def Let_def split: if_splits)
  qed
  ultimately have "\<forall>fuel. stop_logger fuel l4 = None" by (simp add: stop_logger_def)
  with s show ?thesis by (intro exI conjI) auto
qed

end
