(* ===== verification/RAII_Socket.thy ===== *)
theory RAII_Socket
  imports Gateway_Prelude
begin

text \<open>
  The descriptor wrapper of \<open>include/network/RAIISocket.hpp\<close>. The operating system is the set
  of open descriptors and the number of \<open>close\<close> calls on descriptors that were not open; a
  wrapper object is its member \<open>fd_\<close>. A program is a sequence of events on named objects and on
  descriptors outside any wrapper; it may pass any number to a constructor or to \<open>reset\<close>, which do not
  check it. The wrapper keeps its promise for programs that pass only descriptors they hold themselves.
\<close>

section \<open>Data and operations\<close>

record os =
  open_fds :: "int set"
  bad_closes :: nat

definition sys_close :: "int \<Rightarrow> os \<Rightarrow> os" where
  "sys_close fd s =
     (if fd \<in> open_fds s then s\<lparr> open_fds := open_fds s - {fd} \<rparr>
      else s\<lparr> bad_closes := bad_closes s + 1 \<rparr>)"

type_synonym RAIISocket = int

definition make_socket :: "int \<Rightarrow> RAIISocket" where
  "make_socket fd = fd"

definition close_fd :: "RAIISocket \<Rightarrow> os \<Rightarrow> RAIISocket \<times> os" where
  "close_fd fd s = (if 0 \<le> fd then (-1, sys_close fd s) else (fd, s))"

definition destroy_socket :: "RAIISocket \<Rightarrow> os \<Rightarrow> os" where
  "destroy_socket fd s = snd (close_fd fd s)"

text \<open>The move operations return the new value of this object and of the other one.\<close>

definition move_construct :: "RAIISocket \<Rightarrow> RAIISocket \<times> RAIISocket" where
  "move_construct other = (other, -1)"

definition move_assign :: "RAIISocket \<Rightarrow> RAIISocket \<Rightarrow> os \<Rightarrow> RAIISocket \<times> RAIISocket \<times> os" where
  "move_assign this other s = (let (_, s) = close_fd this s in (other, -1, s))"

definition is_valid :: "RAIISocket \<Rightarrow> bool" where
  "is_valid fd \<longleftrightarrow> 0 \<le> fd"

definition release_socket :: "RAIISocket \<Rightarrow> int \<times> RAIISocket" where
  "release_socket fd = (fd, -1)"

definition reset_socket :: "int \<Rightarrow> RAIISocket \<Rightarrow> os \<Rightarrow> RAIISocket \<times> os" where
  "reset_socket new_fd fd s = (let (_, s) = close_fd fd s in (new_fd, s))"

section \<open>Programs\<close>

text \<open>Named live objects, and the descriptors the program holds itself: what it has opened and
  not handed to a wrapper, and what it has released.\<close>

record sock_world =
  sys :: os
  objs :: "nat \<Rightarrow> RAIISocket option"
  loose :: "int set"

datatype sock_event =
    OpenFd int
  | Construct nat int
  | MoveConstruct nat nat
  | MoveAssign nat nat
  | Release nat
  | Reset nat int
  | Destroy nat
  | CloseFd int

text \<open>The system hands out descriptors that are not open. Move assignment of an object to itself does
  nothing. \<open>CloseFd\<close> is a call of \<open>close\<close> by the program itself.\<close>

fun sock_act :: "sock_event \<Rightarrow> sock_world \<Rightarrow> sock_world option" where
  "sock_act (OpenFd fd) w =
     (if 0 \<le> fd \<and> fd \<notin> open_fds (sys w)
      then Some (w\<lparr> sys := (sys w)\<lparr> open_fds := insert fd (open_fds (sys w)) \<rparr>, loose := insert fd (loose w) \<rparr>)
      else None)"
| "sock_act (Construct x fd) w =
     (if objs w x = None
      then Some (w\<lparr> objs := (objs w)(x \<mapsto> make_socket fd), loose := loose w - {fd} \<rparr>) else None)"
| "sock_act (MoveConstruct x y) w =
     (case objs w y of
        None \<Rightarrow> None
      | Some other \<Rightarrow>
          if objs w x = None
          then let (this', other') = move_construct other
               in Some (w\<lparr> objs := (objs w)(x \<mapsto> this', y \<mapsto> other') \<rparr>)
          else None)"
| "sock_act (MoveAssign x y) w =
     (case (objs w x, objs w y) of
        (Some this, Some other) \<Rightarrow>
          if x = y then Some w
          else let (this', other', s) = move_assign this other (sys w)
               in Some (w\<lparr> sys := s, objs := (objs w)(x \<mapsto> this', y \<mapsto> other') \<rparr>)
      | _ \<Rightarrow> None)"
| "sock_act (Release x) w =
     (case objs w x of
        None \<Rightarrow> None
      | Some this \<Rightarrow>
          let (fd, this') = release_socket this
          in Some (w\<lparr> objs := (objs w)(x \<mapsto> this'), loose := (if 0 \<le> fd then insert fd (loose w) else loose w) \<rparr>))"
| "sock_act (Reset x fd) w =
     (case objs w x of
        None \<Rightarrow> None
      | Some this \<Rightarrow>
          let (this', s) = reset_socket fd this (sys w)
          in Some (w\<lparr> sys := s, objs := (objs w)(x \<mapsto> this'), loose := loose w - {fd} \<rparr>))"
| "sock_act (Destroy x) w =
     (case objs w x of
        None \<Rightarrow> None
      | Some this \<Rightarrow> Some (w\<lparr> sys := destroy_socket this (sys w), objs := (objs w)(x := None) \<rparr>))"
| "sock_act (CloseFd fd) w = Some (w\<lparr> sys := sys_close fd (sys w), loose := loose w - {fd} \<rparr>)"

definition empty_world :: sock_world where
  "empty_world = \<lparr> sys = \<lparr> open_fds = {}, bad_closes = 0 \<rparr>, objs = Map.empty, loose = {} \<rparr>"

section \<open>Specification\<close>

text \<open>What a program has to respect: it constructs from or resets to a descriptor it holds itself, or a negative number,
  and it closes itself only what it holds itself. \<open>get\<close> alone does not make a descriptor its own.\<close>

definition available :: "int \<Rightarrow> sock_world \<Rightarrow> bool" where
  "available fd w \<longleftrightarrow> fd < 0 \<or> fd \<in> loose w"

fun hands_over :: "sock_event \<Rightarrow> sock_world \<Rightarrow> bool" where
  "hands_over (Construct x fd) w = available fd w"
| "hands_over (Reset x fd) w = available fd w"
| "hands_over (CloseFd fd) w = (fd \<in> loose w)"
| "hands_over _ w = True"

definition owning_act :: "sock_event \<Rightarrow> sock_world \<Rightarrow> sock_world option" where
  "owning_act e w = (if hands_over e w then sock_act e w else None)"

text \<open>The ownership invariant: a descriptor is open exactly when the program or an object holds
  it, it is held once, and nothing was closed that was not open.\<close>

definition world_ok :: "sock_world \<Rightarrow> bool" where
  "world_ok w \<longleftrightarrow> bad_closes (sys w) = 0 \<and>
     (\<forall>fd. fd \<in> open_fds (sys w) \<longleftrightarrow> fd \<in> loose w \<or> 0 \<le> fd \<and> (\<exists>x. objs w x = Some fd)) \<and>
     (\<forall>fd \<in> loose w. 0 \<le> fd \<and> (\<forall>x. objs w x \<noteq> Some fd)) \<and>
     (\<forall>x y fd. 0 \<le> fd \<longrightarrow> objs w x = Some fd \<longrightarrow> objs w y = Some fd \<longrightarrow> x = y)"

text \<open>An object that owns nothing, or no object at all.\<close>

definition vacant :: "sock_world \<Rightarrow> nat \<Rightarrow> bool" where
  "vacant w x \<longleftrightarrow> (\<forall>fd. objs w x = Some fd \<longrightarrow> fd < 0)"

section \<open>Lemmas\<close>

lemma empty_world_ok: "world_ok empty_world"
  by (simp add: world_ok_def empty_world_def)

lemma close_fd_owned:
  assumes "world_ok w" and "objs w x = Some fd"
  shows "snd (close_fd fd (sys w)) = (sys w)\<lparr> open_fds := open_fds (sys w) - {fd} \<rparr>"
proof (cases "0 \<le> fd")
  case True
  then have "fd \<in> open_fds (sys w)" using assms unfolding world_ok_def by blast
  with True show ?thesis by (simp add: close_fd_def sys_close_def)
next
  case False
  then have "fd \<notin> open_fds (sys w)" using assms unfolding world_ok_def by (metis linorder_not_le)
  with False show ?thesis by (simp add: close_fd_def)
qed

lemma shut_ok:
  assumes "world_ok w" and "objs w x = Some fd" and "\<forall>k. v = Some k \<longrightarrow> k < 0"
  shows "world_ok (w\<lparr> sys := snd (close_fd fd (sys w)), objs := (objs w)(x := v) \<rparr>)"
proof -
  have neg: "v \<noteq> Some k" if "0 \<le> k" for k using assms(3) that by auto
  have "k \<in> open_fds (sys w) - {fd} \<longleftrightarrow> k \<in> loose w \<or> 0 \<le> k \<and> (\<exists>y. ((objs w)(x := v)) y = Some k)" for k
    using assms(1,2) neg unfolding world_ok_def by (auto split: if_splits) (metis option.inject)+
  moreover have "((objs w)(x := v)) y \<noteq> Some k" if "k \<in> loose w" for k y
    using assms(1) that neg unfolding world_ok_def by (cases "y = x") auto
  ultimately show ?thesis
    using assms(1) neg unfolding close_fd_owned [OF assms(1,2)] world_ok_def by (auto split: if_splits)
qed

lemma give_ok:
  assumes "world_ok w" and "vacant w x" and "available fd w"
  shows "world_ok (w\<lparr> objs := (objs w)(x \<mapsto> fd), loose := loose w - {fd} \<rparr>)"
  using assms unfolding world_ok_def vacant_def available_def by (auto split: if_splits)

text \<open>The invariant as facts about a world, and its introduction by components.\<close>

lemma world_okD:
  assumes "world_ok w"
  shows "k \<in> open_fds (sys w) \<longleftrightarrow> k \<in> loose w \<or> 0 \<le> k \<and> (\<exists>z. objs w z = Some k)"
    and "k \<in> loose w \<Longrightarrow> 0 \<le> k" and "k \<in> loose w \<Longrightarrow> objs w u \<noteq> Some k"
    and "0 \<le> k \<Longrightarrow> objs w u = Some k \<Longrightarrow> objs w v = Some k \<Longrightarrow> u = v"
    and "bad_closes (sys w) = 0"
  using assms unfolding world_ok_def by blast+

lemma world_okI:
  assumes "world_ok w"
    and "\<And>k. k \<in> open_fds (sys w) \<longleftrightarrow> k \<in> l \<or> 0 \<le> k \<and> (\<exists>z. ob z = Some k)"
    and "\<And>k. k \<in> l \<Longrightarrow> 0 \<le> k" and "\<And>k u. k \<in> l \<Longrightarrow> ob u \<noteq> Some k"
    and "\<And>k u v. 0 \<le> k \<Longrightarrow> ob u = Some k \<Longrightarrow> ob v = Some k \<Longrightarrow> u = v"
  shows "world_ok (w\<lparr> objs := ob, loose := l \<rparr>)"
  using assms by (simp add: world_ok_def)

lemma move_ok:
  assumes "world_ok w" and "vacant w x" and "objs w y = Some fd" and "x \<noteq> y"
  shows "world_ok (w\<lparr> objs := (objs w)(x \<mapsto> fd, y \<mapsto> -1) \<rparr>)"
proof -
  define ob where "ob = (objs w)(x \<mapsto> fd, y \<mapsto> -1)"
  have bwd: "objs w (if z = x then y else z) = Some k \<and> z \<noteq> y" if "ob z = Some k" "0 \<le> k" for z k
    using that assms(3,4) by (auto simp: ob_def split: if_splits)
  have fwd: "\<exists>z. ob z = Some k" if "objs w z = Some k" "0 \<le> k" for z k
    using that assms(2,3,4) unfolding vacant_def ob_def
    by (cases "z = y") (auto intro: exI [of _ x] exI [of _ z])
  have "world_ok (w\<lparr> objs := ob, loose := loose w \<rparr>)"
  proof (rule world_okI [OF assms(1)])
    show "k \<in> open_fds (sys w) \<longleftrightarrow> k \<in> loose w \<or> 0 \<le> k \<and> (\<exists>z. ob z = Some k)" for k
      unfolding world_okD(1) [OF assms(1)] using bwd fwd by blast
    show "ob u \<noteq> Some k" if "k \<in> loose w" for k u
      using bwd [of u k] world_okD(2,3) [OF assms(1) that] by blast
    show "u = v" if "0 \<le> k" "ob u = Some k" "ob v = Some k" for k u v
      using world_okD(4) [OF assms(1) that(1)] bwd [OF that(2,1)] bwd [OF that(3,1)]
      by (metis (full_types))
  qed (rule world_okD(2) [OF assms(1)])
  then show ?thesis by (simp add: ob_def)
qed

lemma release_ok:
  assumes "world_ok w" and "objs w x = Some fd"
  shows "world_ok (w\<lparr> objs := (objs w)(x \<mapsto> -1), loose := (if 0 \<le> fd then insert fd (loose w) else loose w) \<rparr>)"
proof -
  define ob where "ob = (objs w)(x \<mapsto> -1)"
  define l where "l = (if 0 \<le> fd then insert fd (loose w) else loose w)"
  have bwd: "objs w z = Some k \<and> k \<noteq> fd" if "ob z = Some k" "0 \<le> k" for z k
    using that world_okD(4) [OF assms(1), of fd x z] assms(2) by (auto simp: ob_def split: if_splits)
  have fwd: "ob z = Some k" if "objs w z = Some k" "k \<noteq> fd" for z k
    using that assms(2) by (auto simp: ob_def)
  have in_l: "k \<in> l \<longleftrightarrow> k \<in> loose w \<or> k = fd \<and> 0 \<le> k" for k by (auto simp: l_def)
  have "world_ok (w\<lparr> objs := ob, loose := l \<rparr>)"
  proof (rule world_okI [OF assms(1)])
    show "k \<in> open_fds (sys w) \<longleftrightarrow> k \<in> l \<or> 0 \<le> k \<and> (\<exists>z. ob z = Some k)" for k
      unfolding world_okD(1) [OF assms(1)] in_l using bwd fwd assms(2) by blast
    show "0 \<le> k" if "k \<in> l" for k using that world_okD(2) [OF assms(1)] in_l by blast
    show "ob u \<noteq> Some k" if "k \<in> l" for k u
      using that bwd [of u k] world_okD(2,3) [OF assms(1)] in_l by blast
    show "u = v" if "0 \<le> k" "ob u = Some k" "ob v = Some k" for k u v
      using world_okD(4) [OF assms(1) that(1)] bwd that by blast
  qed
  then show ?thesis by (simp add: ob_def l_def)
qed

lemma vacant_shut: "v = None \<or> v = Some (-1) \<Longrightarrow> vacant (w\<lparr> sys := s, objs := (objs w)(x := v) \<rparr>) x"
  by (auto simp: vacant_def)

lemma open_ok:
  assumes "world_ok w" and "0 \<le> fd" and "fd \<notin> open_fds (sys w)"
  shows "world_ok (w\<lparr> sys := (sys w)\<lparr> open_fds := insert fd (open_fds (sys w)) \<rparr>, loose := insert fd (loose w) \<rparr>)"
  using assms unfolding world_ok_def by auto

lemma move_assign_ok:
  assumes "world_ok w" and "objs w x = Some this" and "objs w y = Some other" and "x \<noteq> y"
  shows "world_ok (w\<lparr> sys := snd (close_fd this (sys w)), objs := (objs w)(x \<mapsto> other, y \<mapsto> -1) \<rparr>)"
proof -
  let ?w = "w\<lparr> sys := snd (close_fd this (sys w)), objs := (objs w)(x \<mapsto> -1) \<rparr>"
  have "world_ok ?w" using shut_ok [OF assms(1,2), of "Some (-1)"] by simp
  from move_ok [OF this vacant_shut] show ?thesis
    using assms(3,4) by (simp add: fun_upd_twist)
qed

lemma reset_ok:
  assumes "world_ok w" and "objs w x = Some this" and "available fd w"
  shows "world_ok (w\<lparr> sys := snd (close_fd this (sys w)), objs := (objs w)(x \<mapsto> fd), loose := loose w - {fd} \<rparr>)"
proof -
  let ?w = "w\<lparr> sys := snd (close_fd this (sys w)), objs := (objs w)(x \<mapsto> -1) \<rparr>"
  have "world_ok ?w" using shut_ok [OF assms(1,2), of "Some (-1)"] by simp
  moreover have "available fd ?w" using assms(3) by (simp add: available_def)
  ultimately show ?thesis using give_ok [of ?w x fd] vacant_shut by simp
qed

lemma close_ok:
  assumes "world_ok w" and "fd \<in> loose w"
  shows "world_ok (w\<lparr> sys := sys_close fd (sys w), loose := loose w - {fd} \<rparr>)"
  using assms unfolding world_ok_def sys_close_def by auto

lemma sock_act_ok: "world_ok w \<Longrightarrow> hands_over e w \<Longrightarrow> sock_act e w = Some v \<Longrightarrow> world_ok v"
proof (induction e w rule: sock_act.induct)
  case (1 fd w)
  then show ?case by (auto simp: open_ok split: if_splits)
next
  case (2 x fd w)
  then show ?case by (auto simp: give_ok make_socket_def vacant_def split: if_splits)
next
  case (3 x y w)
  then show ?case
    by (auto simp: move_construct_def intro!: move_ok simp: vacant_def split: option.splits if_splits)
next
  case (4 x y w)
  then show ?case
    by (auto simp: move_assign_def Let_def case_prod_beta move_assign_ok split: option.splits if_splits)
next
  case (5 x w)
  then show ?case by (auto simp: release_socket_def release_ok split: option.splits)
next
  case (6 x fd w)
  then show ?case
    by (auto simp: reset_socket_def Let_def case_prod_beta reset_ok split: option.splits if_splits)
next
  case (7 x w)
  then show ?case using shut_ok [of w x _ None] by (auto simp: destroy_socket_def split: option.splits)
next
  case (8 fd w)
  then show ?case by (auto simp: close_ok)
qed

interpretation sockets: event_machine owning_act "\<lambda>w. w = empty_world" world_ok
  by unfold_locales (auto simp: empty_world_ok owning_act_def intro: sock_act_ok split: if_splits)

lemma owning_run: "run_events owning_act es w = Some v \<Longrightarrow> run_events sock_act es w = Some v"
  by (induction es arbitrary: w) (auto simp: owning_act_def split: option.splits if_splits)

text \<open>\<open>s.reset(s.get())\<close> and a second wrapper of the same descriptor.\<close>

lemma self_reset:
  assumes "objs w x = Some fd" and "0 \<le> fd" and "fd \<in> open_fds (sys w)"
  shows "\<exists>v. run_events sock_act [Reset x fd, Destroy x] w = Some v \<and> bad_closes (sys v) = bad_closes (sys w) + 1"
  using assms by (simp add: reset_socket_def destroy_socket_def close_fd_def sys_close_def Let_def)

lemma second_wrapper:
  assumes "objs w x = Some fd" and "0 \<le> fd" and "fd \<in> open_fds (sys w)" and "objs w y = None"
  shows "\<exists>v. run_events sock_act [Construct y fd, Destroy x, Destroy y] w = Some v \<and> bad_closes (sys v) = bad_closes (sys w) + 1"
proof -
  have "x \<noteq> y" using assms by auto
  with assms show ?thesis by (simp add: make_socket_def destroy_socket_def close_fd_def sys_close_def)
qed

section \<open>Properties\<close>



end
