(* ===== verification/Socket_IO.thy ===== *)
theory Socket_IO
  imports Gateway_Prelude "HOL-Library.Sublist"
begin

text \<open>
  Reading from and writing to a connected stream socket: \<open>send_all\<close> and the echo loops of
  \<open>src/phase2_tcp_echo_server.cpp\<close>, \<open>src/phase3_multithreaded_server.cpp\<close> and
  \<open>src/phase4_threadpool_server.cpp\<close>, and the retrying wrappers of
  \<open>src/phase18_resilience_audit.cpp\<close>. The kernel's side of a socket is a \<open>stream\<close>: the answers
  it will give to the coming calls, the bytes it has accepted and the bytes it has handed out.
\<close>

section \<open>System calls\<close>

datatype errno = EINTR | EAGAIN | EWOULDBLOCK | EPIPE | ECONNRESET | OtherErrno

datatype send_answer = Took nat | SendErr errno

datatype recv_answer = Got "u8 list" | RecvErr errno

record stream =
  send_answers :: "send_answer list"
  recv_answers :: "recv_answer list"
  delivered :: "u8 list"
  received :: "u8 list"

text \<open>How a call on a socket ends: it returns, it is still waiting for the kernel when the
  answers are used up, the process is killed by \<open>SIGPIPE\<close>, or its behaviour is undefined.\<close>

datatype 'a call_end = Returned 'a | Blocked | SigPipe | UndefinedCall

fun and_then :: "'a call_end \<Rightarrow> ('a \<Rightarrow> 'b call_end) \<Rightarrow> 'b call_end" where
  "and_then (Returned x) f = f x"
| "and_then Blocked f = Blocked"
| "and_then SigPipe f = SigPipe"
| "and_then UndefinedCall f = UndefinedCall"

text \<open>\<open>send\<close> accepts at most the bytes it is given; without \<open>MSG_NOSIGNAL\<close> the error \<open>EPIPE\<close> comes
  with a signal whose default action ends the process.\<close>

fun sock_send_on :: "bool \<Rightarrow> u8 list \<Rightarrow> send_answer list \<Rightarrow> stream \<Rightarrow> (send_answer \<times> stream) call_end" where
  "sock_send_on nosignal bs [] s = Blocked"
| "sock_send_on nosignal bs (SendErr e # rs) s =
     (if e = EPIPE \<and> \<not> nosignal then SigPipe else Returned (SendErr e, s\<lparr> send_answers := rs \<rparr>))"
| "sock_send_on nosignal bs (Took k # rs) s =
     Returned (Took (min k (length bs)),
       s\<lparr> send_answers := rs, delivered := delivered s @ take k bs \<rparr>)"

definition sock_send :: "bool \<Rightarrow> u8 list \<Rightarrow> stream \<Rightarrow> (send_answer \<times> stream) call_end" where
  "sock_send nosignal bs s = sock_send_on nosignal bs (send_answers s) s"

text \<open>\<open>recv\<close> hands out at most \<open>len\<close> bytes; no bytes is the end of the stream.\<close>

fun sock_recv_on :: "nat \<Rightarrow> recv_answer list \<Rightarrow> stream \<Rightarrow> (recv_answer \<times> stream) call_end" where
  "sock_recv_on len [] s = Blocked"
| "sock_recv_on len (RecvErr e # rs) s = Returned (RecvErr e, s\<lparr> recv_answers := rs \<rparr>)"
| "sock_recv_on len (Got bs # rs) s =
     Returned (Got (take len bs),
       s\<lparr> recv_answers := rs, received := received s @ take len bs \<rparr>)"

definition sock_recv :: "nat \<Rightarrow> stream \<Rightarrow> (recv_answer \<times> stream) call_end" where
  "sock_recv len s = sock_recv_on len (recv_answers s) s"

lemma and_then_cong [fundef_cong]:
  "r = r' \<Longrightarrow> (\<And>x. r' = Returned x \<Longrightarrow> f x = g x) \<Longrightarrow> and_then r f = and_then r' g"
  by (cases r') auto

lemma sock_send_shorter: "sock_send b bs s = Returned (a, t) \<Longrightarrow> length (send_answers t) < length (send_answers s)"
  unfolding sock_send_def by (cases "(b, bs, send_answers s, s)" rule: sock_send_on.cases) (auto split: if_splits)

lemma sock_recv_shorter: "sock_recv n s = Returned (a, t) \<Longrightarrow> length (recv_answers t) < length (recv_answers s)"
  unfolding sock_recv_def by (cases "(n, recv_answers s, s)" rule: sock_recv_on.cases) auto

section \<open>Reading and writing\<close>

function send_all_loop :: "u8 list \<Rightarrow> nat \<Rightarrow> stream \<Rightarrow> (int \<times> stream) call_end" where
  "send_all_loop buffer total_sent s =
     (if total_sent < length buffer then
        and_then (sock_send False (drop total_sent buffer) s) (\<lambda>(bytes_sent, s').
          case bytes_sent of
            SendErr e \<Rightarrow> Returned (-1, s')
          | Took n \<Rightarrow> if n = 0 then Returned (0, s') else send_all_loop buffer (total_sent + n) s')
      else Returned (int total_sent, s))"
  by pat_completeness auto
termination
  by (relation "measure (\<lambda>(_, _, s). length (send_answers s))") (auto dest: sock_send_shorter)

definition send_all :: "u8 list \<Rightarrow> stream \<Rightarrow> (int \<times> stream) call_end" where
  "send_all buffer s = send_all_loop buffer 0 s"

function send_with_retry_loop :: "u8 list \<Rightarrow> nat \<Rightarrow> stream \<Rightarrow> (int \<times> stream) call_end" where
  "send_with_retry_loop buf total_sent s =
     (if total_sent < length buf then
        and_then (sock_send True (drop total_sent buf) s) (\<lambda>(bytes, s').
          case bytes of
            SendErr e \<Rightarrow>
              if e = EINTR then send_with_retry_loop buf total_sent s'
              else if e = EPIPE \<or> e = ECONNRESET then Returned (-1, s')
              else Returned (-1, s')
          | Took n \<Rightarrow>
              if n = 0 then Returned (int total_sent, s')
              else send_with_retry_loop buf (total_sent + n) s')
      else Returned (int total_sent, s))"
  by pat_completeness auto
termination
  by (relation "measure (\<lambda>(_, _, s). length (send_answers s))") (auto dest: sock_send_shorter)

definition send_with_retry :: "u8 list \<Rightarrow> stream \<Rightarrow> (int \<times> stream) call_end" where
  "send_with_retry buf s = send_with_retry_loop buf 0 s"

text \<open>The value returned and the bytes stored in the caller's buffer.\<close>

function recv_with_retry :: "nat \<Rightarrow> stream \<Rightarrow> (int \<times> u8 list \<times> stream) call_end" where
  "recv_with_retry len s =
     and_then (sock_recv len s) (\<lambda>(bytes, s').
       case bytes of
         RecvErr e \<Rightarrow>
           if e = EINTR then recv_with_retry len s'
           else if e = EAGAIN \<or> e = EWOULDBLOCK then Returned (-2, [], s')
           else Returned (-1, [], s')
       | Got bs \<Rightarrow> Returned (int (length bs), bs, s'))"
  by pat_completeness auto
termination
  by (relation "measure (\<lambda>(_, s). length (recv_answers s))") (auto dest: sock_recv_shorter)

declare send_all_loop.simps [simp del] send_with_retry_loop.simps [simp del] recv_with_retry.simps [simp del]

subsection \<open>Specification\<close>

text \<open>\<open>accepted bs n s t\<close>: on the way from \<open>s\<close> to \<open>t\<close> the kernel has taken exactly the first \<open>n\<close> bytes of
  \<open>bs\<close>, and nothing was read.\<close>

definition accepted :: "u8 list \<Rightarrow> nat \<Rightarrow> stream \<Rightarrow> stream \<Rightarrow> bool" where
  "accepted bs n s t \<longleftrightarrow> n \<le> length bs \<and> delivered t = delivered s @ take n bs \<and>
     received t = received s \<and> recv_answers t = recv_answers s"

text \<open>What a caller may rely on when it writes to a stream: whatever the writer returns, a prefix
  of the buffer has been accepted, and a positive result is its length. A full writer returns a
  positive result only for the whole buffer.\<close>

locale stream_writer =
  fixes write_bytes :: "u8 list \<Rightarrow> stream \<Rightarrow> (int \<times> stream) call_end"
  assumes writes: "write_bytes bs s = Returned (r, t) \<Longrightarrow> \<exists>n. accepted bs n s t \<and> (0 < r \<longrightarrow> r = int n)"
begin

lemma write_keeps:
  assumes "write_bytes bs s = Returned (r, t)"
  shows "recv_answers t = recv_answers s" and "received t = received s"
  using writes [OF assms] by (auto simp: accepted_def)

lemma write_prefix: "write_bytes bs s = Returned (r, t) \<Longrightarrow> \<exists>n. delivered t = delivered s @ take n bs"
  using writes unfolding accepted_def by blast

lemma write_count: "write_bytes bs s = Returned (r, t) \<Longrightarrow> r \<le> int (length bs)"
  using writes by (force simp: accepted_def)

end

locale full_writer = stream_writer +
  assumes whole: "write_bytes bs s = Returned (r, t) \<Longrightarrow> 0 < r \<Longrightarrow> r = int (length bs)"
begin

lemma write_whole:
  assumes "write_bytes bs s = Returned (r, t)" and "0 < r"
  shows "delivered t = delivered s @ bs"
  using writes [OF assms(1)] whole [OF assms] assms(2) by (auto simp: accepted_def)

end

text \<open>A kernel that makes progress: every answer accepts something or reports an interruption.\<close>

definition progressing :: "send_answer list \<Rightarrow> bool" where
  "progressing rs \<longleftrightarrow> list_all (\<lambda>a. case a of Took n \<Rightarrow> 0 < n | SendErr e \<Rightarrow> e = EINTR) rs"

definition takes :: "send_answer list \<Rightarrow> nat" where
  "takes rs = length (filter (\<lambda>a. case a of Took n \<Rightarrow> True | SendErr e \<Rightarrow> False) rs)"

subsection \<open>Lemmas\<close>

lemma accepted_none [simp]: "accepted bs 0 s s"
  by (simp add: accepted_def)

lemma accepted_append:
  assumes "accepted (drop k bs) n s t" and "accepted (drop (k + n) bs) m t u"
  shows "accepted (drop k bs) (n + m) s u"
proof -
  have "take n (drop k bs) @ take m (drop (k + n) bs) = take (n + m) (drop k bs)"
    using take_add [of n m "drop k bs"] by (simp add: add.commute [of k n])
  with assms show ?thesis by (auto simp: accepted_def)
qed

lemma sock_send_accepted:
  assumes "sock_send b bs s = Returned (a, t)"
  shows "accepted bs (case a of Took n \<Rightarrow> n | SendErr e \<Rightarrow> 0) s t"
  using assms unfolding sock_send_def accepted_def
  by (cases "(b, bs, send_answers s, s)" rule: sock_send_on.cases) (auto simp: min_def split: if_splits)

lemma and_then_Returned: "and_then r f = Returned y \<longleftrightarrow> (\<exists>x. r = Returned x \<and> f x = Returned y)"
  by (cases r) auto

lemma and_then_SigPipe: "and_then r f = SigPipe \<longleftrightarrow> r = SigPipe \<or> (\<exists>x. r = Returned x \<and> f x = SigPipe)"
  by (cases r) auto

lemma and_then_UndefinedCall:
  "and_then r f = UndefinedCall \<longleftrightarrow> r = UndefinedCall \<or> (\<exists>x. r = Returned x \<and> f x = UndefinedCall)"
  by (cases r) auto

lemmas and_then_iff = and_then_Returned and_then_SigPipe and_then_UndefinedCall

lemma sock_send_SigPipe: "sock_send b bs s = SigPipe \<longleftrightarrow> \<not> b \<and> (\<exists>rs. send_answers s = SendErr EPIPE # rs)"
  unfolding sock_send_def by (cases "(b, bs, send_answers s, s)" rule: sock_send_on.cases) auto

lemma sock_calls_defined: "sock_send b bs s \<noteq> UndefinedCall" "sock_recv n s \<noteq> UndefinedCall" "sock_recv n s \<noteq> SigPipe"
  unfolding sock_send_def sock_recv_def
  by (cases "(b, bs, send_answers s, s)" rule: sock_send_on.cases; simp)
    (cases "(n, recv_answers s, s)" rule: sock_recv_on.cases; simp)+

lemma send_all_loop_spec:
  assumes "send_all_loop bs k s = Returned (r, t)" and "k \<le> length bs"
  shows "\<exists>n. accepted (drop k bs) n s t \<and>
    (k + n = length bs \<and> r = int (length bs) \<or> k + n < length bs \<and> r \<le> 0)"
  using assms
proof (induction bs k s rule: send_all_loop.induct)
  case (1 bs k s)
  show ?case
  proof (cases "k < length bs")
    case False
    with 1(2,3) show ?thesis by (intro exI [of _ 0]) (simp add: send_all_loop.simps [of bs k s])
  next
    case True
    with 1(2) obtain a s1 where a: "sock_send False (drop k bs) s = Returned (a, s1)"
      and r: "(case a of SendErr e \<Rightarrow> Returned (-1, s1)
          | Took n \<Rightarrow> if n = 0 then Returned (0, s1) else send_all_loop bs (k + n) s1) = Returned (r, t)"
      by (auto simp: send_all_loop.simps [of bs k s] and_then_iff)
    note acc = sock_send_accepted [OF a]
    show ?thesis
    proof (cases "\<exists>n. a = Took n \<and> 0 < n")
      case False
      with r acc True show ?thesis by (intro exI [of _ 0]) (cases a; auto)
    next
      case take: True
      then obtain n where n: "a = Took n" "0 < n" by blast
      then have acc: "accepted (drop k bs) n s s1" using acc by simp
      then have "k + n \<le> length bs" using True by (auto simp: accepted_def)
      with 1(1) [OF True a refl n(1)] n r obtain m where m: "accepted (drop (k + n) bs) m s1 t"
        "k + n + m = length bs \<and> r = int (length bs) \<or> k + n + m < length bs \<and> r \<le> 0" by auto
      from accepted_append [OF acc m(1)] m(2) show ?thesis by (intro exI [of _ "n + m"]) (simp add: add.assoc)
    qed
  qed
qed

lemma send_with_retry_loop_spec:
  assumes "send_with_retry_loop bs k s = Returned (r, t)" and "k \<le> length bs"
  shows "\<exists>n. accepted (drop k bs) n s t \<and> (r = int (k + n) \<or> r = -1)"
  using assms
proof (induction bs k s rule: send_with_retry_loop.induct)
  case (1 bs k s)
  show ?case
  proof (cases "k < length bs")
    case False
    with 1(3,4) show ?thesis by (intro exI [of _ 0]) (simp add: send_with_retry_loop.simps [of bs k s])
  next
    case True
    with 1(3) obtain a s1 where a: "sock_send True (drop k bs) s = Returned (a, s1)"
      and r: "(case a of SendErr e \<Rightarrow> if e = EINTR then send_with_retry_loop bs k s1
          else if e = EPIPE \<or> e = ECONNRESET then Returned (-1, s1) else Returned (-1, s1)
          | Took n \<Rightarrow> if n = 0 then Returned (int k, s1) else send_with_retry_loop bs (k + n) s1) = Returned (r, t)"
      by (auto simp: send_with_retry_loop.simps [of bs k s] and_then_iff)
    note acc = sock_send_accepted [OF a]
    show ?thesis
    proof (cases a)
      case (Took n)
      show ?thesis
      proof (cases "n = 0")
        case False
        have acc: "accepted (drop k bs) n s s1" using acc Took by simp
        then have "k + n \<le> length bs" using True by (auto simp: accepted_def)
        with 1(1) [OF True a refl Took False] False Took r obtain m where
          m: "accepted (drop (k + n) bs) m s1 t" "r = int (k + n + m) \<or> r = -1" by auto
        from accepted_append [OF acc m(1)] m(2) show ?thesis by (intro exI [of _ "n + m"]) (simp add: add.assoc)
      qed (use acc Took r in \<open>auto intro!: exI [of _ 0]\<close>)
    next
      case (SendErr e)
      then have acc: "accepted (drop k bs) 0 s s1" using acc by simp
      show ?thesis
      proof (cases "e = EINTR")
        case True': True
        with 1(2) [OF True a refl SendErr True'] r SendErr 1(4) obtain m where
          m: "accepted (drop k bs) m s1 t" "r = int (k + m) \<or> r = -1" by auto
        from accepted_append [OF acc] m show ?thesis by auto
      qed (use acc SendErr r in \<open>auto intro!: exI [of _ 0]\<close>)
    qed
  qed
qed

interpretation send_all: full_writer send_all
proof
  show "\<exists>n. accepted bs n s t \<and> (0 < r \<longrightarrow> r = int n)" if "send_all bs s = Returned (r, t)" for bs s r t
    using send_all_loop_spec [OF that [unfolded send_all_def]] by auto
  show "r = int (length bs)" if "send_all bs s = Returned (r, t)" "0 < r" for bs s r t
    using send_all_loop_spec [OF that(1) [unfolded send_all_def]] that(2) by auto
qed

interpretation send_with_retry: stream_writer send_with_retry
proof
  show "\<exists>n. accepted bs n s t \<and> (0 < r \<longrightarrow> r = int n)" if "send_with_retry bs s = Returned (r, t)" for bs s r t
    using send_with_retry_loop_spec [OF that [unfolded send_with_retry_def]] by auto
qed

text \<open>With a kernel that makes progress the loops end with the whole buffer.\<close>

lemma progressing_simps [simp]:
  "progressing []" "progressing (Took n # rs) \<longleftrightarrow> 0 < n \<and> progressing rs"
  "progressing (SendErr e # rs) \<longleftrightarrow> e = EINTR \<and> progressing rs"
  by (simp_all add: progressing_def)

lemma takes_simps [simp]: "takes [] = 0" "takes (Took n # rs) = Suc (takes rs)" "takes (SendErr e # rs) = takes rs"
  by (simp_all add: takes_def)

lemma send_loops_done [simp]:
  "send_all_loop bs (length bs) s = Returned (int (length bs), s)"
  "send_with_retry_loop bs (length bs) s = Returned (int (length bs), s)"
  by (simp_all add: send_all_loop.simps [of bs "length bs"] send_with_retry_loop.simps [of bs "length bs"])

lemma send_with_retry_loop_full:
  assumes "progressing (send_answers s)" and "length bs - k \<le> takes (send_answers s)" and "k \<le> length bs"
  shows "\<exists>t. send_with_retry_loop bs k s = Returned (int (length bs), t) \<and> accepted (drop k bs) (length bs - k) s t"
  using assms
proof (induction "send_answers s" arbitrary: k s)
  case Nil
  then have "k = length bs" by simp
  then show ?case by simp
next
  case (Cons a rs)
  show ?case
  proof (cases "k < length bs")
    case False
    then have "k = length bs" using Cons.prems(3) by simp
    then show ?thesis by simp
  next
    case True
    define s1 where "s1 = (case a of Took n \<Rightarrow> s\<lparr> send_answers := rs, delivered := delivered s @ take n (drop k bs) \<rparr>
      | SendErr e \<Rightarrow> s\<lparr> send_answers := rs \<rparr>)"
    define n where "n = (case a of Took n \<Rightarrow> min n (length bs - k) | SendErr e \<Rightarrow> 0)"
    have s1: "rs = send_answers s1" "progressing (send_answers s1)" "accepted (drop k bs) n s s1"
      using Cons.hyps(2) [symmetric] Cons.prems(1) by (auto simp: s1_def n_def accepted_def min_def split: send_answer.splits)
    have le: "length bs - (k + n) \<le> takes (send_answers s1)" "k + n \<le> length bs"
      using Cons.hyps(2) [symmetric] Cons.prems s1(1) True by (auto simp: n_def min_def split: send_answer.splits)
    have "send_with_retry_loop bs k s = send_with_retry_loop bs (k + n) s1"
      using Cons.hyps(2) [symmetric] Cons.prems(1) True
      by (cases a) (auto simp: send_with_retry_loop.simps [of bs k s] sock_send_def s1_def n_def)
    moreover obtain t where "send_with_retry_loop bs (k + n) s1 = Returned (int (length bs), t)"
      "accepted (drop (k + n) bs) (length bs - (k + n)) s1 t" using Cons.hyps(1) [OF s1(1,2) le] by blast
    ultimately show ?thesis using accepted_append [OF s1(3)] le(2) by fastforce
  qed
qed

section \<open>The echo loops\<close>

definition BUFFER_SIZE :: nat where
  "BUFFER_SIZE = 1024"

text \<open>The buffer after \<open>memset\<close> and a \<open>recv\<close> of \<open>bs\<close>.\<close>

definition fill_buffer :: "u8 list \<Rightarrow> u8 list" where
  "fill_buffer bs = bs @ replicate (BUFFER_SIZE - length bs) 0"

text \<open>\<open>std::strncmp(buffer, cmd, 4) == 0\<close> for a command of four letters.\<close>

definition is_command :: "u8 list \<Rightarrow> string \<Rightarrow> bool" where
  "is_command buffer cmd \<longleftrightarrow> take 4 buffer = map u8_of_char cmd"

definition wants_quit :: "u8 list \<Rightarrow> bool" where
  "wants_quit buffer \<longleftrightarrow> is_command buffer ''quit'' \<or> is_command buffer ''exit''"

text \<open>The loop of \<open>handle_client\<close> in phases 3 and 4.\<close>

function client_loop :: "stream \<Rightarrow> stream call_end" where
  "client_loop s =
     and_then (sock_recv BUFFER_SIZE s) (\<lambda>(bytes_received, s').
       case bytes_received of
         RecvErr e \<Rightarrow> Returned s'
       | Got bs \<Rightarrow>
           if bs = [] then Returned s'
           else let buffer = fill_buffer bs in
             if wants_quit buffer then Returned s'
             else and_then (send_all (take (length bs) buffer) s') (\<lambda>(bytes_sent, s'').
               if bytes_sent \<le> 0 then Returned s'' else client_loop s''))"
  by pat_completeness auto
termination
  by (relation "measure (\<lambda>s. length (recv_answers s))") (auto dest: sock_recv_shorter simp: send_all.write_keeps)

text \<open>The loop of phase 2 counts the bytes it has received, and prints the buffer as a C string,
  which reads up to a terminator that has to be in the buffer.\<close>

function echo_loop :: "u64 \<Rightarrow> stream \<Rightarrow> (u64 \<times> stream) call_end" where
  "echo_loop total_bytes_echoed s =
     and_then (sock_recv BUFFER_SIZE s) (\<lambda>(bytes_received, s').
       case bytes_received of
         RecvErr e \<Rightarrow> Returned (total_bytes_echoed, s')
       | Got bs \<Rightarrow>
           if bs = [] then Returned (total_bytes_echoed, s')
           else let total' = total_bytes_echoed + of_nat (length bs); buffer = fill_buffer bs in
             if 0 \<notin> set buffer then UndefinedCall
             else if wants_quit buffer then Returned (total', s')
             else and_then (send_all (take (length bs) buffer) s') (\<lambda>(bytes_sent, s'').
               if bytes_sent \<le> 0 then Returned (total', s'') else echo_loop total' s''))"
  by pat_completeness auto
termination
  by (relation "measure (\<lambda>(_, s). length (recv_answers s))") (auto dest: sock_recv_shorter simp: send_all.write_keeps)

declare client_loop.simps [simp del] echo_loop.simps [simp del]

subsection \<open>Lemmas\<close>

text \<open>Where every answer accepts something, \<open>send_all\<close> is the retrying loop.\<close>

lemma send_loops_agree:
  assumes "list_all (\<lambda>a. \<exists>n>0. a = Took n) (send_answers s)"
  shows "send_all_loop bs k s = send_with_retry_loop bs k s"
  using assms
proof (induction "send_answers s" arbitrary: k s)
  case Nil
  from Nil(1) [symmetric] show ?case
    by (simp add: send_all_loop.simps [of bs k s] send_with_retry_loop.simps [of bs k s] sock_send_def)
next
  case (Cons a rs)
  obtain n where a: "a = Took n" "0 < n" using Cons.hyps(2) [symmetric] Cons.prems by auto
  let ?s = "s\<lparr> send_answers := rs, delivered := delivered s @ take n (drop k bs) \<rparr>"
  have "send_all_loop bs (k + min n (length bs - k)) ?s = send_with_retry_loop bs (k + min n (length bs - k)) ?s"
    using Cons.hyps(2) [symmetric] Cons.prems by (intro Cons.hyps(1)) auto
  moreover have "0 < min n (length bs - k)" if "k < length bs" using a(2) that by simp
  ultimately show ?case
    using Cons.hyps(2) [symmetric] a
    by (auto simp: send_all_loop.simps [of bs k s] send_with_retry_loop.simps [of bs k s] sock_send_def)
qed

text \<open>A kernel whose every answer takes something needs at most one answer for each byte.\<close>

lemma send_all_loop_progress:
  assumes "list_all (\<lambda>a. \<exists>n>0. a = Took n) (send_answers s)" and "length bs - k \<le> length (send_answers s)" and "k \<le> length bs"
  shows "\<exists>t m. send_all_loop bs k s = Returned (int (length bs), t) \<and> accepted (drop k bs) (length bs - k) s t \<and>
    send_answers t = drop m (send_answers s) \<and> m \<le> length bs - k"
  using assms
proof (induction "send_answers s" arbitrary: k s)
  case Nil
  then have "k = length bs" by simp
  then show ?case by (auto intro: exI [of _ 0])
next
  case (Cons a rs)
  show ?case
  proof (cases "k < length bs")
    case False
    then have "k = length bs" using Cons.prems(3) by simp
    then show ?thesis by (auto intro: exI [of _ 0])
  next
    case True
    obtain n where a: "a = Took n" "0 < n" using Cons.hyps(2) [symmetric] Cons.prems(1) by auto
    let ?n = "min n (length bs - k)"
    let ?s = "s\<lparr> send_answers := rs, delivered := delivered s @ take n (drop k bs) \<rparr>"
    have n: "0 < ?n" "k + ?n \<le> length bs" using a(2) True by auto
    have acc: "accepted (drop k bs) ?n s ?s" by (simp add: accepted_def min_def)
    have "\<exists>t m. send_all_loop bs (k + ?n) ?s = Returned (int (length bs), t) \<and>
        accepted (drop (k + ?n) bs) (length bs - (k + ?n)) ?s t \<and> send_answers t = drop m rs \<and> m \<le> length bs - (k + ?n)"
      using Cons.hyps(1) [of ?s "k + ?n"] Cons.hyps(2) [symmetric] Cons.prems n by auto
    then obtain t m where t: "send_all_loop bs (k + ?n) ?s = Returned (int (length bs), t)"
      "accepted (drop (k + ?n) bs) (length bs - (k + ?n)) ?s t" "send_answers t = drop m rs" "m \<le> length bs - (k + ?n)" by blast
    have "send_all_loop bs k s = send_all_loop bs (k + ?n) ?s"
      using True a Cons.hyps(2) [symmetric] by (auto simp: send_all_loop.simps [of bs k s] sock_send_def min_def)
    moreover have "accepted (drop k bs) (length bs - k) s t"
      using accepted_append [OF acc t(2)] n(2) by simp
    moreover have "send_answers t = drop (Suc m) (send_answers s)" "Suc m \<le> length bs - k"
      using t(3,4) n Cons.hyps(2) [symmetric] by auto
    ultimately show ?thesis using t(1) by auto
  qed
qed

lemma send_with_retry_loop_no_signal: "send_with_retry_loop bs k s \<noteq> SigPipe"
proof (induction bs k s rule: send_with_retry_loop.induct)
  case (1 bs k s)
  show ?case
  proof
    assume "send_with_retry_loop bs k s = SigPipe"
    then obtain a s1 where *: "k < length bs" "sock_send True (drop k bs) s = Returned (a, s1)"
      "(case a of SendErr e \<Rightarrow> if e = EINTR then send_with_retry_loop bs k s1
          else if e = EPIPE \<or> e = ECONNRESET then Returned (-1, s1) else Returned (-1, s1)
        | Took n \<Rightarrow> if n = 0 then Returned (int k, s1) else send_with_retry_loop bs (k + n) s1) = SigPipe"
      by (auto simp: send_with_retry_loop.simps [of bs k s] and_then_iff sock_send_SigPipe split: if_splits)
    then show False using 1(1) [OF *(1,2) refl] 1(2) [OF *(1,2) refl]
      by (auto split: send_answer.splits if_splits)
  qed
qed

lemma sock_recv_Got:
  "sock_recv n s = Returned (Got bs, t) \<Longrightarrow>
     length bs \<le> n \<and> delivered t = delivered s \<and> received t = received s @ bs \<and> send_answers t = send_answers s \<and>
     (\<exists>as. recv_answers s = Got as # recv_answers t \<and> bs = take n as)"
  unfolding sock_recv_def by (cases "(n, recv_answers s, s)" rule: sock_recv_on.cases) auto

lemma sock_recv_RecvErr:
  "sock_recv n s = Returned (RecvErr e, t) \<Longrightarrow> delivered t = delivered s \<and> received t = received s \<and>
     send_answers t = send_answers s \<and> recv_answers s = RecvErr e # recv_answers t"
  unfolding sock_recv_def by (cases "(n, recv_answers s, s)" rule: sock_recv_on.cases) auto

lemma take_fill_buffer [simp]: "take (length bs) (fill_buffer bs) = bs"
  by (simp add: fill_buffer_def)

lemma fill_buffer_not_empty [simp]: "fill_buffer bs \<noteq> []"
  by (cases bs) (simp_all add: fill_buffer_def BUFFER_SIZE_def)

text \<open>What the client loop promises, stated on the answers of the kernel. The message of an answer is
  what fits into the buffer; a message ends the session if there is none (the end of the stream or an
  error) or if it begins with one of the two commands.\<close>

definition message_of :: "recv_answer \<Rightarrow> u8 list" where
  "message_of a = (case a of Got bs \<Rightarrow> take BUFFER_SIZE bs | RecvErr e \<Rightarrow> [])"

definition ends_session :: "recv_answer \<Rightarrow> bool" where
  "ends_session a \<longleftrightarrow> message_of a = [] \<or> prefix (map u8_of_char ''quit'') (message_of a) \<or>
     prefix (map u8_of_char ''exit'') (message_of a)"

definition fails :: "send_answer \<Rightarrow> bool" where
  "fails x \<longleftrightarrow> x = Took 0 \<or> (\<exists>e. x = SendErr e)"

text \<open>\<open>echo_session s as a n used t\<close>: from \<open>s\<close> to \<open>t\<close> the messages of \<open>as\<close> were read and echoed in full, none of
  them ending the session, then the message of \<open>a\<close> was read and its first \<open>n\<close> bytes were echoed, and
  \<open>used\<close> are the answers to the writes.\<close>

definition echo_session :: "stream \<Rightarrow> recv_answer list \<Rightarrow> recv_answer \<Rightarrow> nat \<Rightarrow> send_answer list \<Rightarrow> stream \<Rightarrow> bool" where
  "echo_session s as a n used t \<longleftrightarrow>
     recv_answers s = as @ a # recv_answers t \<and> send_answers s = used @ send_answers t \<and>
     (\<forall>b\<in>set as. \<not> ends_session b) \<and>
     received t = received s @ concat (map message_of as) @ message_of a \<and>
     delivered t = delivered s @ concat (map message_of as) @ take n (message_of a)"

text \<open>Why the session stopped at \<open>a\<close>: its message ends it and nothing of it was echoed, or the last
  write failed before all of it was taken. No other write failed.\<close>

definition stopped_by :: "recv_answer \<Rightarrow> nat \<Rightarrow> send_answer list \<Rightarrow> bool" where
  "stopped_by a n used \<longleftrightarrow>
     (if ends_session a then n = 0 \<and> (\<forall>x\<in>set used. \<not> fails x)
      else n < length (message_of a) \<and> used \<noteq> [] \<and> fails (last used) \<and> (\<forall>x\<in>set (butlast used). \<not> fails x))"

lemma take_padded_prefix:
  assumes "length c = 4" and "0 \<notin> set c"
  shows "take 4 (bs @ replicate k 0) = c \<longleftrightarrow> prefix c bs"
proof
  assume "prefix c bs"
  then show "take 4 (bs @ replicate k 0) = c" using assms(1) by (auto simp: prefix_def)
next
  assume eq: "take 4 (bs @ replicate k 0) = c"
  have "4 \<le> length bs"
  proof (rule ccontr)
    assume *: "\<not> 4 \<le> length bs"
    have "length c = min 4 (length bs + k)" unfolding eq [symmetric] by simp
    with * assms(1) have "0 \<in> set (take (4 - length bs) (replicate k (0 :: 'a)))" by auto
    with eq assms(2) show False by auto
  qed
  with eq have "take 4 bs = c" by simp
  then show "prefix c bs" using take_is_prefix by metis
qed

lemma wants_quit_prefix:
  "wants_quit (fill_buffer bs) \<longleftrightarrow> prefix (map u8_of_char ''quit'') bs \<or> prefix (map u8_of_char ''exit'') bs"
  unfolding wants_quit_def is_command_def fill_buffer_def
  by (subst (1 2) take_padded_prefix) (simp_all add: u8_of_char_def)

lemma ends_session_Got:
  "ends_session (Got as) \<longleftrightarrow> take BUFFER_SIZE as = [] \<or> wants_quit (fill_buffer (take BUFFER_SIZE as))"
  by (simp add: ends_session_def message_of_def wants_quit_prefix)

lemma sock_send_answer:
  assumes "sock_send b bs s = Returned (a, t)" and "bs \<noteq> []"
  shows "\<exists>x. send_answers s = x # send_answers t \<and> (fails x \<longleftrightarrow> fails a)"
  using assms unfolding sock_send_def fails_def
  by (cases "(b, bs, send_answers s, s)" rule: sock_send_on.cases) (auto simp: min_def split: if_splits)

text \<open>The answers \<open>send_all\<close> has used: all of them took something, but for the last one if the result is
  not positive.\<close>

lemma send_all_loop_used:
  assumes "send_all_loop bs k s = Returned (r, t)" and "k \<le> length bs" and "bs \<noteq> []"
  shows "\<exists>used. send_answers s = used @ send_answers t \<and>
    (if 0 < r then \<forall>x\<in>set used. \<not> fails x
     else used \<noteq> [] \<and> fails (last used) \<and> (\<forall>x\<in>set (butlast used). \<not> fails x))"
  using assms
proof (induction bs k s rule: send_all_loop.induct)
  case (1 bs k s)
  show ?case
  proof (cases "k < length bs")
    case False
    with 1(2-4) have "r = int (length bs)" "t = s" by (simp_all add: send_all_loop.simps [of bs k s])
    with 1(4) show ?thesis by simp
  next
    case True
    with 1(2) obtain a s1 where a: "sock_send False (drop k bs) s = Returned (a, s1)"
      and r: "(case a of SendErr e \<Rightarrow> Returned (-1, s1)
          | Took n \<Rightarrow> if n = 0 then Returned (0, s1) else send_all_loop bs (k + n) s1) = Returned (r, t)"
      by (auto simp: send_all_loop.simps [of bs k s] and_then_iff)
    obtain x where x: "send_answers s = x # send_answers s1" "fails x \<longleftrightarrow> fails a"
      using sock_send_answer [OF a] True by auto
    show ?thesis
    proof (cases "fails a")
      case fa: True
      with r have "t = s1" "r \<le> 0" by (auto simp: fails_def)
      with x fa show ?thesis by (intro exI [of _ "[x]"]) simp
    next
      case fa: False
      then obtain n where n: "a = Took n" "0 < n" by (cases a) (auto simp: fails_def)
      then have "k + n \<le> length bs" using sock_send_accepted [OF a] True by (auto simp: accepted_def)
      with 1(1) [OF True a refl n(1)] n r 1(4) obtain used where "send_answers s1 = used @ send_answers t"
        "if 0 < r then \<forall>x\<in>set used. \<not> fails x
         else used \<noteq> [] \<and> fails (last used) \<and> (\<forall>x\<in>set (butlast used). \<not> fails x)" by auto
      with x fa show ?thesis by (intro exI [of _ "x # used"]) (simp split: if_splits)
    qed
  qed
qed

lemma session_more:
  assumes "recv_answers s = b # recv_answers s1" and "\<not> ends_session b"
    and "send_answers s = u @ send_answers s1" and "\<forall>x\<in>set u. \<not> fails x"
    and "received s1 = received s @ message_of b" and "delivered s1 = delivered s @ message_of b"
    and "echo_session s1 as a n used t" and "stopped_by a n used"
  shows "echo_session s (b # as) a n (u @ used) t \<and> stopped_by a n (u @ used)"
  using assms by (auto simp: echo_session_def stopped_by_def butlast_append)

lemma client_loop_session:
  "client_loop s = Returned t \<Longrightarrow> \<exists>as a n used. echo_session s as a n used t \<and> stopped_by a n used"
proof (induction s rule: client_loop.induct)
  case (1 s)
  from 1(2) obtain a s1 where a: "sock_recv BUFFER_SIZE s = Returned (a, s1)"
    by (auto simp: client_loop.simps [of s] and_then_iff)
  show ?case
  proof (cases a)
    case (RecvErr e)
    with 1(2) a have "t = s1" by (auto simp: client_loop.simps [of s])
    with sock_recv_RecvErr [OF a [unfolded RecvErr]] show ?thesis
      by (intro exI [of _ "[]"] exI [of _ "RecvErr e"] exI [of _ 0])
        (simp add: echo_session_def stopped_by_def ends_session_def message_of_def)
  next
    case (Got bs)
    obtain as where as: "recv_answers s = Got as # recv_answers s1" "bs = message_of (Got as)"
      "received s1 = received s @ bs" "delivered s1 = delivered s" "send_answers s1 = send_answers s"
      using sock_recv_Got [OF a [unfolded Got]] by (auto simp: message_of_def)
    have ends: "ends_session (Got as) \<longleftrightarrow> bs = [] \<or> wants_quit (fill_buffer bs)"
      unfolding as(2) by (simp add: ends_session_Got message_of_def)
    show ?thesis
    proof (cases "ends_session (Got as)")
      case True
      with 1(2) a Got ends have "t = s1" by (auto simp: client_loop.simps [of s] Let_def split: if_splits)
      with as True show ?thesis
        by (intro exI [of _ "[]"] exI [of _ "Got as"] exI [of _ 0]) (simp add: echo_session_def stopped_by_def)
    next
      case False
      with 1(2) a Got ends obtain r s2 where s2: "send_all bs s1 = Returned (r, s2)"
        "(if r \<le> 0 then Returned s2 else client_loop s2) = Returned t"
        by (auto simp: client_loop.simps [of s] and_then_iff)
      have "bs \<noteq> []" using False ends by blast
      then obtain u where u: "send_answers s1 = u @ send_answers s2"
        "if 0 < r then \<forall>x\<in>set u. \<not> fails x else u \<noteq> [] \<and> fails (last u) \<and> (\<forall>x\<in>set (butlast u). \<not> fails x)"
        using send_all_loop_used [OF s2(1) [unfolded send_all_def]] by auto
      obtain n where n: "accepted bs n s1 s2" "n = length bs \<and> r = int (length bs) \<or> n < length bs \<and> r \<le> 0"
        using send_all_loop_spec [OF s2(1) [unfolded send_all_def]] by auto
      show ?thesis
      proof (cases "r \<le> 0")
        case True
        with s2(2) n \<open>bs \<noteq> []\<close> have "t = s2" "n < length bs" by auto
        with n(1) u as True False show ?thesis
          by (intro exI [of _ "[]"] exI [of _ "Got as"] exI [of _ n] exI [of _ u])
            (simp add: echo_session_def stopped_by_def accepted_def)
      next
        case r: False
        have "\<exists>as a n used. echo_session s2 as a n used t \<and> stopped_by a n used"
          using 1(1) [OF a refl Got _ refl] False ends r s2 by auto
        with session_more [of s "Got as" s2 u] False as n u r show ?thesis by (auto simp: accepted_def) blast
      qed
    qed
  qed
qed

text \<open>With a kernel that keeps taking what is written the loop returns, and has echoed every message
  before the one that ends the session.\<close>

lemma client_loop_completes:
  assumes "recv_answers s = as @ a # rs" and "\<forall>b\<in>set as. \<not> ends_session b" and "ends_session a"
    and "list_all (\<lambda>x. \<not> fails x) (send_answers s)"
    and "length (concat (map message_of as)) \<le> length (send_answers s)"
  shows "\<exists>t. client_loop s = Returned t \<and> recv_answers t = rs \<and> delivered t = delivered s @ concat (map message_of as)"
  using assms
proof (induction as arbitrary: s)
  case Nil
  then show ?case
    by (cases a) (auto simp: client_loop.simps [of s] sock_recv_def Let_def ends_session_Got)
next
  case (Cons b as)
  then obtain bs where b: "b = Got bs" by (cases b) (auto simp: ends_session_def message_of_def)
  define m where "m = take BUFFER_SIZE bs"
  have m: "message_of b = m" "m \<noteq> []" "\<not> wants_quit (fill_buffer m)"
    using Cons.prems(2) unfolding b m_def by (auto simp: ends_session_Got message_of_def)
  let ?s = "s\<lparr> recv_answers := as @ a # rs, received := received s @ m \<rparr>"
  have pos: "list_all (\<lambda>x. \<exists>n>0. x = Took n) (send_answers s)"
    using Cons.prems(4) unfolding list_all_iff fails_def by (metis gr0I send_answer.exhaust)
  have "length m - 0 \<le> length (send_answers ?s)" using Cons.prems(5) m(1) by simp
  with send_all_loop_progress [of ?s m 0] pos obtain t k where
    t: "send_all m ?s = Returned (int (length m), t)" "accepted m (length m) ?s t"
      "send_answers t = drop k (send_answers s)" "k \<le> length m"
    by (auto simp: send_all_def)
  have "sock_recv BUFFER_SIZE s = Returned (Got m, ?s)" using Cons.prems(1) b by (simp add: sock_recv_def m_def)
  with m t(1) have step: "client_loop s = client_loop t" by (simp add: client_loop.simps [of s] Let_def)
  have "\<exists>t'. client_loop t = Returned t' \<and> recv_answers t' = rs \<and> delivered t' = delivered t @ concat (map message_of as)"
  proof (rule Cons.IH)
    show "recv_answers t = as @ a # rs" using t(2) by (simp add: accepted_def)
    show "list_all (\<lambda>x. \<not> fails x) (send_answers t)"
      using Cons.prems(4) unfolding t(3) list_all_iff by (meson in_set_dropD)
    show "length (concat (map message_of as)) \<le> length (send_answers t)"
      using Cons.prems(5) t(3,4) m(1) by simp
  qed (use Cons.prems in auto)
  with step t(2) m(1) show ?case by (auto simp: accepted_def)
qed

text \<open>A message that fills the buffer and has no terminator in it.\<close>

definition overruns :: "u8 list \<Rightarrow> bool" where
  "overruns bs \<longleftrightarrow> BUFFER_SIZE \<le> length bs \<and> 0 \<notin> set (take BUFFER_SIZE bs)"

lemma fill_buffer_terminated: "bs = take BUFFER_SIZE as \<Longrightarrow> 0 \<notin> set (fill_buffer bs) \<longleftrightarrow> overruns as"
  by (auto simp: fill_buffer_def overruns_def min_def)

lemma send_all_loop_defined: "send_all_loop bs k s \<noteq> UndefinedCall"
proof (induction bs k s rule: send_all_loop.induct)
  case (1 bs k s)
  then show ?case
    by (auto simp: send_all_loop.simps [of bs k s] and_then_iff sock_calls_defined split: send_answer.splits if_splits)
qed

lemma echo_loop_undefined:
  "echo_loop n s = UndefinedCall \<Longrightarrow> \<exists>as. Got as \<in> set (recv_answers s) \<and> overruns as"
proof (induction n s rule: echo_loop.induct)
  case (1 n s)
  from 1(2) obtain a s1 where a: "sock_recv BUFFER_SIZE s = Returned (a, s1)"
    by (auto simp: echo_loop.simps [of n s] and_then_iff sock_calls_defined)
  then obtain bs where bs: "a = Got bs" "bs \<noteq> []"
    using 1(2) by (cases a) (auto simp: echo_loop.simps [of n s] split: if_splits)
  obtain as where as: "recv_answers s = Got as # recv_answers s1" "bs = take BUFFER_SIZE as"
    using sock_recv_Got [OF a [unfolded bs(1)]] by blast
  show ?case
  proof (cases "0 \<notin> set (fill_buffer bs)")
    case True
    with as fill_buffer_terminated show ?thesis by auto
  next
    case False
    with 1(2) a bs obtain r s2 where s2: "send_all bs s1 = Returned (r, s2)" "\<not> r \<le> 0"
      "echo_loop (n + of_nat (length bs)) s2 = UndefinedCall" "\<not> wants_quit (fill_buffer bs)"
      by (auto simp: echo_loop.simps [of n s] and_then_iff send_all_def send_all_loop_defined Let_def split: if_splits)
    with 1(1) [OF a refl bs(1,2) refl refl] False have "\<exists>as. Got as \<in> set (recv_answers s2) \<and> overruns as" by auto
    with as(1) send_all.write_keeps(1) [OF s2(1)] show ?thesis by auto
  qed
qed

lemma recv_with_retry_interrupted:
  assumes "recv_answers s = replicate n (RecvErr EINTR) @ a # rs" and "a \<noteq> RecvErr EINTR"
  shows "\<exists>t. recv_with_retry len s =
      Returned (case a of
          Got bs \<Rightarrow> (int (length (take len bs)), take len bs, t)
        | RecvErr e \<Rightarrow> (if e = EAGAIN \<or> e = EWOULDBLOCK then -2 else -1, [], t)) \<and> recv_answers t = rs"
  using assms
proof (induction n arbitrary: s)
  case 0
  then show ?case by (cases a) (auto simp: recv_with_retry.simps [of len s] sock_recv_def)
next
  case (Suc n)
  have "recv_with_retry len s = recv_with_retry len (s\<lparr> recv_answers := replicate n (RecvErr EINTR) @ a # rs \<rparr>)"
    using Suc.prems(1) by (simp add: recv_with_retry.simps [of len s] sock_recv_def)
  with Suc.IH [of "s\<lparr> recv_answers := replicate n (RecvErr EINTR) @ a # rs \<rparr>"] Suc.prems(2) show ?case by simp
qed

section \<open>Properties\<close>

text \<open>
  C18: \<open>send_all\<close> reports success exactly when the kernel has taken the whole buffer: when it
  returns, the kernel has taken a prefix of the buffer, in order and without gaps or repetitions,
  and either this is all of it and the result is its length, or the result is not positive.
\<close>

theorem send_all_exact:
  assumes "send_all bs s = Returned (r, t)"
  shows "\<exists>n. accepted bs n s t \<and> (n = length bs \<and> r = int (length bs) \<or> n < length bs \<and> r \<le> 0)"
  using send_all_loop_spec [OF assms [unfolded send_all_def]] by simp

theorem send_all_exact_witness:
  "\<exists>n. accepted [1, 2, 3] n
       \<lparr> send_answers = [Took 2, SendErr ECONNRESET], recv_answers = [], delivered = [], received = [] \<rparr>
       \<lparr> send_answers = [], recv_answers = [], delivered = [1, 2], received = [] \<rparr> \<and>
     (n = 3 \<and> (-1 :: int) = 3 \<or> n < 3 \<and> (-1 :: int) \<le> 0)"
proof -
  have "send_all [1, 2, 3] \<lparr> send_answers = [Took 2, SendErr ECONNRESET], recv_answers = [], delivered = [], received = [] \<rparr>
    = Returned (-1, \<lparr> send_answers = [], recv_answers = [], delivered = [1, 2], received = [] \<rparr>)"
    by (simp add: send_all_def send_all_loop.simps sock_send_def)
  from send_all_exact [OF this] show ?thesis by (simp add: numeral_3_eq_3)
qed

text \<open>
  C19: the retrying write gets the whole buffer through any number of interruptions and partial
  writes: if every answer of the kernel takes something or is \<open>EINTR\<close>, and the buffer is not longer
  than the number of answers that take something, \<open>send_with_retry\<close> returns the length of the
  buffer and the kernel has taken all of it.
\<close>

theorem send_with_retry_completes:
  assumes "progressing (send_answers s)" and "length bs \<le> takes (send_answers s)"
  shows "\<exists>t. send_with_retry bs s = Returned (int (length bs), t) \<and> delivered t = delivered s @ bs"
proof -
  from assms have "length bs - 0 \<le> takes (send_answers s)" by simp
  from send_with_retry_loop_full [OF assms(1) this] show ?thesis
    by (auto simp: send_with_retry_def accepted_def)
qed

theorem send_with_retry_completes_witness:
  "\<exists>t. send_with_retry [7, 8, 9]
      \<lparr> send_answers = [SendErr EINTR, Took 1, SendErr EINTR, Took 1, Took 5], recv_answers = [], delivered = [], received = [] \<rparr>
    = Returned (3, t) \<and> delivered t = [7, 8, 9]"
  using send_with_retry_completes [of "\<lparr> send_answers = [SendErr EINTR, Took 1, SendErr EINTR, Took 1, Took 5],
      recv_answers = [], delivered = [], received = [] \<rparr>" "[7, 8, 9]"] by simp

text \<open>
  C20: the client loop of phases 3 and 4 is an echo. Whenever it returns, it has read a sequence of
  messages (what fits into the buffer of each answer of \<open>recv\<close>) and sent each of them back whole and in order,
  none of them empty or beginning with \<open>quit\<close> or \<open>exit\<close>, and has then read one last message: either this
  one ends the session, nothing of it was sent and no write failed, or a proper prefix of it was sent and the
  last write failed, the first one to do so. Conversely, if the kernel keeps taking what is written, the loop
  returns, having read up to the first message that ends the session and echoed all messages before it.
\<close>

theorem client_loop_echoes:
  "(client_loop s = Returned t \<longrightarrow>
     (\<exists>as a n used.
       recv_answers s = as @ a # recv_answers t \<and> send_answers s = used @ send_answers t \<and>
       (\<forall>b\<in>set as. \<not> ends_session b) \<and>
       received t = received s @ concat (map message_of as) @ message_of a \<and>
       delivered t = delivered s @ concat (map message_of as) @ take n (message_of a) \<and>
       (if ends_session a then n = 0 \<and> (\<forall>x\<in>set used. \<not> fails x)
        else n < length (message_of a) \<and> used \<noteq> [] \<and> fails (last used) \<and> (\<forall>x\<in>set (butlast used). \<not> fails x)))) \<and>
   (\<forall>as a rs. recv_answers s = as @ a # rs \<and> (\<forall>b\<in>set as. \<not> ends_session b) \<and> ends_session a \<and>
      list_all (\<lambda>x. \<not> fails x) (send_answers s) \<and> length (concat (map message_of as)) \<le> length (send_answers s) \<longrightarrow>
     (\<exists>u. client_loop s = Returned u \<and> recv_answers u = rs \<and> delivered u = delivered s @ concat (map message_of as)))"
  using client_loop_session [of s t] client_loop_completes [of s] unfolding echo_session_def stopped_by_def
  by (intro conjI impI allI) (blast+)

theorem client_loop_echoes_witness:
  "\<exists>u. client_loop \<lparr> send_answers = [Took 1, Took 1], recv_answers = [Got [104, 105], Got [113, 117, 105, 116], Got [7]],
      delivered = [], received = [] \<rparr> = Returned u \<and> recv_answers u = [Got [7]] \<and> delivered u = [104, 105]"
proof -
  let ?s = "\<lparr> send_answers = [Took 1, Took 1], recv_answers = [Got [104, 105], Got [113, 117, 105, 116], Got [7]],
    delivered = [], received = [] \<rparr>"
  have "recv_answers ?s = [Got [104, 105]] @ Got [113, 117, 105, 116] # [Got [7]]"
    "\<forall>b\<in>set [Got [104, 105]]. \<not> ends_session b" "ends_session (Got [113, 117, 105, 116])"
    "list_all (\<lambda>x. \<not> fails x) (send_answers ?s)"
    "length (concat (map message_of [Got [104, 105]])) \<le> length (send_answers ?s)"
    by (simp_all add: ends_session_def message_of_def BUFFER_SIZE_def u8_of_char_def fails_def)
  then have "\<exists>u. client_loop ?s = Returned u \<and> recv_answers u = [Got [7]] \<and>
      delivered u = delivered ?s @ concat (map message_of [Got [104, 105]])"
    using client_loop_echoes [of ?s] by blast
  then show ?thesis by (simp add: message_of_def BUFFER_SIZE_def)
qed

text \<open>
  phase 2 prints the buffer as a C string although \<open>recv\<close> may fill all of it. Its behaviour is
  undefined only if some message fills the buffer without a zero byte, and it is undefined as soon
  as the next message does.
\<close>

theorem echo_loop_overrun:
  "(echo_loop n s = UndefinedCall \<longrightarrow> (\<exists>bs. Got bs \<in> set (recv_answers s) \<and> overruns bs)) \<and>
   (\<forall>bs rs. recv_answers s = Got bs # rs \<and> overruns bs \<longrightarrow> echo_loop n s = UndefinedCall)"
proof -
  have "echo_loop n s = UndefinedCall" if "recv_answers s = Got bs # rs" "overruns bs" for bs rs
    using that fill_buffer_terminated [of "take BUFFER_SIZE bs" bs]
    by (auto simp: echo_loop.simps [of n s] sock_recv_def Let_def overruns_def BUFFER_SIZE_def)
  then show ?thesis using echo_loop_undefined by blast
qed

theorem echo_loop_overrun_witness:
  "echo_loop 0 \<lparr> send_answers = [], recv_answers = [Got (replicate 1024 65)], delivered = [], received = [] \<rparr> = UndefinedCall"
  using echo_loop_overrun [of 0 "\<lparr> send_answers = [], recv_answers = [Got (replicate 1024 65)], delivered = [], received = [] \<rparr>"]
  by (simp add: overruns_def BUFFER_SIZE_def)

text \<open>
  C33: the write of a peer that is gone. A client whose connection is broken when its message is
  echoed ends the whole server of phases 3 and 4 with \<open>SIGPIPE\<close>, since \<open>send_all\<close> does not ask for
  \<open>MSG_NOSIGNAL\<close>; the wrapper of phase 18 is never ended by the signal, and returns \<open>-1\<close> there.
\<close>

theorem broken_pipe:
  assumes "recv_answers s = Got bs # rs" and "bs \<noteq> []" and "\<not> wants_quit (fill_buffer (take BUFFER_SIZE bs))"
    and "send_answers s = SendErr EPIPE # as"
  shows "client_loop s = SigPipe \<and> (\<exists>t. send_with_retry bs s = Returned (-1, t)) \<and>
    (\<forall>bs s. send_with_retry bs s \<noteq> SigPipe)"
proof (intro conjI allI)
  show "client_loop s = SigPipe"
    using assms by (simp add: client_loop.simps [of s] sock_recv_def BUFFER_SIZE_def Let_def send_all_def
        send_all_loop.simps sock_send_def)
  show "\<exists>t. send_with_retry bs s = Returned (-1, t)"
    using assms by (simp add: send_with_retry_def send_with_retry_loop.simps sock_send_def)
qed (simp add: send_with_retry_def send_with_retry_loop_no_signal)

theorem broken_pipe_witness:
  "client_loop \<lparr> send_answers = [SendErr EPIPE], recv_answers = [Got [65]], delivered = [], received = [] \<rparr> = SigPipe"
  using broken_pipe [of "\<lparr> send_answers = [SendErr EPIPE], recv_answers = [Got [65]], delivered = [], received = [] \<rparr>" "[65]"]
  by (simp add: wants_quit_def is_command_def fill_buffer_def BUFFER_SIZE_def u8_of_char_def)

text \<open>
  where every answer of the kernel takes something, \<open>send_all\<close> and \<open>send_with_retry\<close> do the
  same.
\<close>

theorem send_all_is_retry:
  assumes "list_all (\<lambda>a. \<exists>n>0. a = Took n) (send_answers s)"
  shows "send_all bs s = send_with_retry bs s"
  unfolding send_all_def send_with_retry_def by (rule send_loops_agree [OF assms])

theorem send_all_is_retry_witness:
  "send_all [1, 2] \<lparr> send_answers = [Took 1, Took 4], recv_answers = [], delivered = [], received = [] \<rparr> =
   send_with_retry [1, 2] \<lparr> send_answers = [Took 1, Took 4], recv_answers = [], delivered = [], received = [] \<rparr>"
  by (rule send_all_is_retry) simp

text \<open>
  \<open>recv_with_retry\<close> goes through interruptions to the first other answer of the kernel and
  reports it: the bytes, cut to the buffer, with their number (0 at the end of the stream), \<open>-2\<close>
  when the call would block, \<open>-1\<close> for any other error.
\<close>

theorem recv_with_retry_result:
  assumes "recv_answers s = replicate n (RecvErr EINTR) @ a # rs" and "a \<noteq> RecvErr EINTR"
  shows "\<exists>t. recv_with_retry len s =
      Returned (case a of
          Got bs \<Rightarrow> (int (length (take len bs)), take len bs, t)
        | RecvErr e \<Rightarrow> (if e = EAGAIN \<or> e = EWOULDBLOCK then -2 else -1, [], t)) \<and> recv_answers t = rs"
  using assms by (rule recv_with_retry_interrupted)

theorem recv_with_retry_result_witness:
  "\<exists>t. recv_with_retry 2 \<lparr> send_answers = [], recv_answers = [RecvErr EINTR, Got [1, 2, 3], Got []], delivered = [], received = [] \<rparr> =
     Returned (2, [1, 2], t) \<and> recv_answers t = [Got []]"
  using recv_with_retry_result [of "\<lparr> send_answers = [], recv_answers = [RecvErr EINTR, Got [1, 2, 3], Got []],
    delivered = [], received = [] \<rparr>" 1 "Got [1, 2, 3]" "[Got []]" 2] by (simp add: numeral_2_eq_2)

end
