(* ===== verification/Epoll_Reactor.thy ===== *)
theory Epoll_Reactor
  imports Connection_Manager RAII_Socket Socket_IO
begin

text \<open>
  The event loop of \<open>include/core/EpollReactor.hpp\<close>, the echo server of
  \<open>src/phase8_reactor_server.cpp\<close> and the connection-managing server of
  \<open>src/phase9_connection_manager_server.cpp\<close>. The kernel's interest list is part of the state;
  the results of the other system calls a handler makes are inputs of the event it handles, and
  descriptors are opened and closed in the table of \<open>RAII_Socket\<close>.
  A callback is a closure stored in \<open>callbacks_\<close>: reading a variable it has captured after its
  entry was erased reads destroyed storage, which is \<open>Undefined\<close>.
\<close>

section \<open>The reactor\<close>

record 'cb EpollReactor =
  reactor_running :: bool
  interest :: "(int, u32) umap"
  callbacks :: "(int, 'cb) umap"

definition make_reactor :: "bool \<Rightarrow> 'cb EpollReactor outcome" where
  "make_reactor create_ok =
     (if create_ok then Inr \<lparr> reactor_running = False, interest = [], callbacks = [] \<rparr>
      else Inl (RuntimeError ''Failed to create epoll instance''))"

text \<open>\<open>EPOLL_CTL_ADD\<close> fails for a registered descriptor (and for want of resources: \<open>os_ok\<close>),
  \<open>EPOLL_CTL_MOD\<close> and \<open>EPOLL_CTL_DEL\<close> for one that is not registered.\<close>

definition add_socket :: "bool \<Rightarrow> int \<Rightarrow> u32 \<Rightarrow> 'cb \<Rightarrow> 'cb EpollReactor \<Rightarrow> bool \<times> 'cb EpollReactor" where
  "add_socket os_ok fd event_flags callback r =
     (if \<not> os_ok \<or> um_find (interest r) fd \<noteq> None then (False, r)
      else (True, r\<lparr> interest := um_put fd event_flags (interest r),
                     callbacks := um_put fd callback (callbacks r) \<rparr>))"

definition modify_socket :: "int \<Rightarrow> u32 \<Rightarrow> 'cb EpollReactor \<Rightarrow> bool \<times> 'cb EpollReactor" where
  "modify_socket fd event_flags r =
     (if um_find (interest r) fd = None then (False, r)
      else (True, r\<lparr> interest := um_put fd event_flags (interest r) \<rparr>))"

definition remove_socket :: "int \<Rightarrow> 'cb EpollReactor \<Rightarrow> bool \<times> 'cb EpollReactor" where
  "remove_socket fd r =
     (True, r\<lparr> interest := um_erase fd (interest r), callbacks := um_erase fd (callbacks r) \<rparr>)"

definition stop_reactor :: "'cb EpollReactor \<Rightarrow> 'cb EpollReactor" where
  "stop_reactor r = r\<lparr> reactor_running := False \<rparr>"

text \<open>The inner loop of \<open>run\<close> over one batch of events, in a world of type \<open>'w\<close> that contains the
  reactor; \<open>'i\<close> are the results of the system calls the handler makes.\<close>

fun dispatch ::
  "('w \<Rightarrow> 'cb EpollReactor) \<Rightarrow> ('cb \<Rightarrow> int \<Rightarrow> u32 \<Rightarrow> 'i \<Rightarrow> 'w \<Rightarrow> 'w outcome) \<Rightarrow>
     (int \<times> u32 \<times> 'i) list \<Rightarrow> 'w \<Rightarrow> 'w outcome" where
  "dispatch rc call [] w = Inr w"
| "dispatch rc call ((fd, revents, i) # es) w =
     bind_outcome (case um_find (callbacks (rc w)) fd of None \<Rightarrow> Inr w | Some cb \<Rightarrow> call cb fd revents i w)
       (dispatch rc call es)"

datatype 'i wait_result = WaitEvents "(int \<times> u32 \<times> 'i) list" | WaitInterrupted | WaitFailed

text \<open>The outer loop, for a finite sequence of results of \<open>epoll_wait\<close>.\<close>

fun run_loop ::
  "('w \<Rightarrow> 'cb EpollReactor) \<Rightarrow> ('cb \<Rightarrow> int \<Rightarrow> u32 \<Rightarrow> 'i \<Rightarrow> 'w \<Rightarrow> 'w outcome) \<Rightarrow>
     'i wait_result list \<Rightarrow> 'w \<Rightarrow> 'w outcome" where
  "run_loop rc call [] w = Inr w"
| "run_loop rc call (b # bs) w =
     (if \<not> reactor_running (rc w) then Inr w
      else case b of
          WaitInterrupted \<Rightarrow> run_loop rc call bs w
        | WaitFailed \<Rightarrow> Inr w
        | WaitEvents es \<Rightarrow> bind_outcome (dispatch rc call es w) (run_loop rc call bs))"

section \<open>The servers\<close>

definition EPOLLIN :: u32 where "EPOLLIN = 0x001"

definition EPOLLERR :: u32 where "EPOLLERR = 0x008"

definition EPOLLHUP :: u32 where "EPOLLHUP = 0x010"

text \<open>The results of the system calls of one handler: an accepted descriptor with the peer's
  address and port, whether \<open>epoll_ctl\<close> has the resources it needs, what \<open>recv\<close> and \<open>send\<close> return, and the
  clock readings.\<close>

datatype recv_result = RecvData "u8 list" | RecvEof | RecvWouldBlock | RecvError

record io =
  io_accept :: "(int \<times> string \<times> u16) option"
  io_ctl_ok :: bool
  io_recv :: recv_result
  io_send :: send_answer
  io_clock :: "nat \<Rightarrow> time_ns"

datatype cb = AcceptCb | ClientCb

text \<open>\<open>process\<close> is the descriptor table of the whole process, \<open>unregistered\<close> collects accepted descriptors
  whose registration failed, \<open>sent\<close> the data passed to \<open>send\<close>.\<close>

record server =
  reactor :: "cb EpollReactor"
  server_fd :: int
  process :: os
  unregistered :: "int set"
  sent :: "(int \<times> u8 list) list"

text \<open>\<open>accept\<close> returns a descriptor that is not open in the process, or fails.\<close>

definition sys_accept :: "io \<Rightarrow> int set \<Rightarrow> (int \<times> string \<times> u16) option" where
  "sys_accept i opened =
     (case io_accept i of
        None \<Rightarrow> None
      | Some (fd, ip, prt) \<Rightarrow> if 0 \<le> fd \<and> fd \<notin> opened then Some (fd, ip, prt) else None)"

text \<open>\<open>recv\<close> into a buffer of \<open>BUFFER_SIZE - 1\<close> bytes; no bytes is the end of the stream.\<close>

definition sys_recv :: "io \<Rightarrow> recv_result" where
  "sys_recv i =
     (case io_recv i of
        RecvData bs \<Rightarrow> if bs = [] then RecvEof else RecvData (take 1023 bs)
      | r \<Rightarrow> r)"

text \<open>A read of captured state by the closure registered for \<open>fd\<close>.\<close>

definition captured :: "int \<Rightarrow> cb \<Rightarrow> cb EpollReactor \<Rightarrow> unit outcome" where
  "captured fd c r = (if um_find (callbacks r) fd = Some c then Inr () else Inl Undefined)"

definition register_client :: "int \<Rightarrow> io \<Rightarrow> ('a server_scheme) \<Rightarrow> 'a server_scheme" where
  "register_client fd i w =
     (let (ok, r) = add_socket (io_ctl_ok i) fd (EPOLLIN OR EPOLLHUP OR EPOLLERR) ClientCb (reactor w)
      in w\<lparr> reactor := r, process := (process w)\<lparr> open_fds := insert fd (open_fds (process w)) \<rparr>,
            unregistered := (if ok then unregistered w else insert fd (unregistered w)) \<rparr>)"

text \<open>\<open>remove_socket\<close> followed by \<open>close\<close>.\<close>

definition drop_client :: "int \<Rightarrow> 'a server_scheme \<Rightarrow> 'a server_scheme" where
  "drop_client fd w =
     w\<lparr> reactor := snd (remove_socket fd (reactor w)), process := sys_close fd (process w) \<rparr>"

subsection \<open>Phase 8\<close>

definition handle_accept :: "io \<Rightarrow> server \<Rightarrow> server" where
  "handle_accept i w =
     (case sys_accept i (open_fds (process w)) of
        None \<Rightarrow> w
      | Some (client_fd, ip, prt) \<Rightarrow> register_client client_fd i w)"

text \<open>The result of \<open>send\<close> is ignored, but it is called without \<open>MSG_NOSIGNAL\<close>: the error \<open>EPIPE\<close> comes with the signal.\<close>

definition sys_send :: "int \<Rightarrow> u8 list \<Rightarrow> io \<Rightarrow> 'a server_scheme \<Rightarrow> 'a server_scheme outcome" where
  "sys_send fd bs i w =
     (if io_send i = SendErr EPIPE then Inl SigPipeKill else Inr (w\<lparr> sent := sent w @ [(fd, bs)] \<rparr>))"

definition handle_client_io :: "int \<Rightarrow> u32 \<Rightarrow> io \<Rightarrow> server \<Rightarrow> server outcome" where
  "handle_client_io client_fd events i w =
     (if events AND (EPOLLHUP OR EPOLLERR) \<noteq> 0 then Inr (drop_client client_fd w)
      else if events AND EPOLLIN \<noteq> 0 then
        case sys_recv i of
          RecvData bs \<Rightarrow> sys_send client_fd bs i w
        | RecvEof \<Rightarrow> Inr (drop_client client_fd w)
        | RecvWouldBlock \<Rightarrow> Inr w
        | RecvError \<Rightarrow> Inr (drop_client client_fd w)
      else Inr w)"

text \<open>The closures of phase 8 read their captured \<open>this\<close> once, on entry.\<close>

definition call8 :: "cb \<Rightarrow> int \<Rightarrow> u32 \<Rightarrow> io \<Rightarrow> server \<Rightarrow> server outcome" where
  "call8 c fd events i w =
     bind_outcome (captured fd c (reactor w)) (\<lambda>_.
       case c of AcceptCb \<Rightarrow> Inr (handle_accept i w) | ClientCb \<Rightarrow> handle_client_io fd events i w)"

text \<open>\<open>start\<close> with a listening socket \<open>fd\<close>, open in the process with the table \<open>s\<close>, up to the call of \<open>run\<close>.\<close>

definition start8 :: "int \<Rightarrow> os \<Rightarrow> server" where
  "start8 fd s =
     \<lparr> reactor = (snd (add_socket True fd EPOLLIN AcceptCb
         \<lparr> reactor_running = False, interest = [], callbacks = [] \<rparr>))\<lparr> reactor_running := True \<rparr>,
       server_fd = fd, process = s\<lparr> open_fds := insert fd (open_fds s) \<rparr>, unregistered = {}, sent = [] \<rparr>"

subsection \<open>Phase 9\<close>

record conn_server = server +
  conn_mgr :: manager

definition on_conn :: "handle \<Rightarrow> (Connection \<Rightarrow> Connection) \<Rightarrow> conn_server \<Rightarrow> conn_server" where
  "on_conn h f w = w\<lparr> conn_mgr := via h f (conn_mgr w) \<rparr>"

definition accept9 :: "int \<Rightarrow> io \<Rightarrow> conn_server \<Rightarrow> conn_server outcome" where
  "accept9 fd i w =
     (case sys_accept i (open_fds (process w)) of
        None \<Rightarrow> Inr w
      | Some (client_fd, ip, prt) \<Rightarrow>
          bind_outcome (captured fd AcceptCb (reactor w)) (\<lambda>_.
            let (conn, m) = add_connection client_fd ip prt (io_clock i 0) (conn_mgr w);
                w = on_conn conn (set_state Conn_AUTHENTICATING (io_clock i 1)) (w\<lparr> conn_mgr := m \<rparr>)
            in Inr (register_client client_fd i w)))"

text \<open>The closing sequence: a state change through the local handle, \<open>reactor.remove_socket\<close>, and
  then \<open>conn_mgr\<close>, a captured reference, once more.\<close>

definition close9 :: "int \<Rightarrow> handle \<Rightarrow> io \<Rightarrow> conn_server \<Rightarrow> conn_server outcome" where
  "close9 fd h i w =
     (let w = on_conn h (set_state Conn_CLOSING (io_clock i 0)) w in
      bind_outcome (captured fd ClientCb (reactor w)) (\<lambda>_.
      let w = w\<lparr> reactor := snd (remove_socket fd (reactor w)) \<rparr> in
      bind_outcome (captured fd ClientCb (reactor w)) (\<lambda>_.
        Inr (w\<lparr> conn_mgr := remove_connection fd (conn_mgr w), process := sys_close fd (process w) \<rparr>))))"

definition client9 :: "int \<Rightarrow> u32 \<Rightarrow> io \<Rightarrow> conn_server \<Rightarrow> conn_server outcome" where
  "client9 fd events i w =
     bind_outcome (captured fd ClientCb (reactor w)) (\<lambda>_.
       case get_connection fd (conn_mgr w) of
         None \<Rightarrow> Inr w
       | Some h \<Rightarrow>
           if events AND (EPOLLHUP OR EPOLLERR) \<noteq> 0 then close9 fd h i w
           else if events AND EPOLLIN \<noteq> 0 then
             case sys_recv i of
               RecvData bs \<Rightarrow>
                 let w = on_conn h (record_recv (of_nat (length bs)) (io_clock i 0)) w;
                     w = (if conn_state (objects (conn_mgr w) ! h) = Conn_AUTHENTICATING
                          then on_conn h (set_state Conn_AUTHENTICATED (io_clock i 1)) w else w)
                 in bind_outcome (sys_send fd bs i w) (\<lambda>w.
                      Inr (on_conn h (record_send (of_nat (length bs)) (io_clock i 2)) w))
             | RecvEof \<Rightarrow> close9 fd h i w
             | _ \<Rightarrow> Inr w
           else Inr w)"

definition call9 :: "cb \<Rightarrow> int \<Rightarrow> u32 \<Rightarrow> io \<Rightarrow> conn_server \<Rightarrow> conn_server outcome" where
  "call9 c fd events i w =
     (case c of AcceptCb \<Rightarrow> accept9 fd i w | ClientCb \<Rightarrow> client9 fd events i w)"

definition start9 :: "int \<Rightarrow> os \<Rightarrow> conn_server" where
  "start9 fd s = server.extend (start8 fd s) \<lparr> conn_mgr = new_manager \<rparr>"

section \<open>Specification\<close>

text \<open>What the loop guarantees to an application whose handlers keep an invariant, for inputs
  that satisfy \<open>adm\<close>; and to one whose handlers end in no other than a \<open>benign\<close> way besides returning.\<close>

fun batch_ok :: "('i \<Rightarrow> bool) \<Rightarrow> 'i wait_result \<Rightarrow> bool" where
  "batch_ok adm (WaitEvents es) = list_all (\<lambda>(fd, ev, i). adm i) es"
| "batch_ok adm _ = True"

locale reactor_app =
  fixes rc :: "'w \<Rightarrow> 'cb EpollReactor"
    and call :: "'cb \<Rightarrow> int \<Rightarrow> u32 \<Rightarrow> 'i \<Rightarrow> 'w \<Rightarrow> 'w outcome"
    and adm :: "'i \<Rightarrow> bool"
    and inv :: "'w \<Rightarrow> bool"
  assumes call_inv: "inv w \<Longrightarrow> adm i \<Longrightarrow> um_find (callbacks (rc w)) fd = Some c \<Longrightarrow>
      call c fd ev i w = Inr w' \<Longrightarrow> inv w'"
begin

lemma dispatch_inv: "inv w \<Longrightarrow> list_all (\<lambda>(fd, ev, i). adm i) es \<Longrightarrow> dispatch rc call es w = Inr w' \<Longrightarrow> inv w'"
proof (induction es arbitrary: w)
  case (Cons e es)
  then show ?case by (cases e) (auto simp: bind_outcome_Inr split: option.splits dest: call_inv)
qed simp

lemma loop_inv: "inv w \<Longrightarrow> list_all (batch_ok adm) bs \<Longrightarrow> run_loop rc call bs w = Inr w' \<Longrightarrow> inv w'"
proof (induction bs arbitrary: w)
  case (Cons b bs)
  then show ?case
    by (cases b) (auto simp: bind_outcome_Inr dest: dispatch_inv split: if_splits)
qed simp

end

locale safe_reactor_app = reactor_app +
  fixes benign :: "cpp_error \<Rightarrow> bool"
  assumes call_safe: "inv w \<Longrightarrow> adm i \<Longrightarrow> um_find (callbacks (rc w)) fd = Some c \<Longrightarrow> call c fd ev i w = Inl e \<Longrightarrow> benign e"
begin

lemma dispatch_safe: "inv w \<Longrightarrow> list_all (\<lambda>(fd, ev, i). adm i) es \<Longrightarrow> dispatch rc call es w = Inl e \<Longrightarrow> benign e"
proof (induction es arbitrary: w)
  case (Cons x es)
  obtain fd ev i where x: "x = (fd, ev, i)" by (cases x)
  have adm: "adm i" "list_all (\<lambda>(fd, ev, i). adm i) es" using Cons.prems(2) by (simp_all add: x)
  show ?case
  proof (cases "um_find (callbacks (rc w)) fd")
    case None
    with Cons.IH [OF Cons.prems(1) adm(2)] Cons.prems(3) show ?thesis by (simp add: x bind_outcome_def)
  next
    case (Some c)
    with Cons.prems(3) consider "call c fd ev i w = Inl e" | w1 where "call c fd ev i w = Inr w1" "dispatch rc call es w1 = Inl e"
      by (auto simp: x bind_outcome_Inl)
    then show ?thesis
    proof cases
      case 1
      with call_safe [OF Cons.prems(1) adm(1) Some] show ?thesis .
    next
      case 2
      with Cons.IH [OF call_inv [OF Cons.prems(1) adm(1) Some 2(1)] adm(2)] show ?thesis by simp
    qed
  qed
qed simp

lemma loop_safe: "inv w \<Longrightarrow> list_all (batch_ok adm) bs \<Longrightarrow> run_loop rc call bs w = Inl e \<Longrightarrow> benign e"
proof (induction bs arbitrary: w)
  case (Cons b bs)
  show ?case
  proof (cases b)
    case (WaitEvents es)
    have es: "list_all (\<lambda>(fd, ev, i). adm i) es" using Cons.prems(2) WaitEvents by simp
    with Cons.prems WaitEvents consider "dispatch rc call es w = Inl e"
      | w1 where "dispatch rc call es w = Inr w1" "run_loop rc call bs w1 = Inl e"
      by (auto simp: bind_outcome_Inl split: if_splits)
    then show ?thesis
    proof cases
      case 1
      with dispatch_safe [OF Cons.prems(1) es] show ?thesis .
    next
      case 2
      with Cons.IH [OF dispatch_inv [OF Cons.prems(1) es 2(1)]] Cons.prems(2) show ?thesis by simp
    qed
  qed (use Cons in \<open>simp_all split: if_splits\<close>)
qed simp

end

text \<open>The clients a server has: the registered ones, and those left over by a failed registration.\<close>

definition clients :: "'a server_scheme \<Rightarrow> int set" where
  "clients w = {fd. um_find (callbacks (reactor w)) fd = Some ClientCb} \<union> unregistered w"

text \<open>What holds all the time: callbacks belong to descriptors in the kernel's list; of the descriptors
  of the process those not in \<open>base\<close>, which contains the listener, are exactly the clients; and so far \<open>n\<close> calls of
  \<open>close\<close> were bad.\<close>

definition server_ok :: "int set \<Rightarrow> nat \<Rightarrow> 'a server_scheme \<Rightarrow> bool" where
  "server_ok base n w \<longleftrightarrow> (\<forall>fd. um_find (callbacks (reactor w)) fd = None \<longleftrightarrow> um_find (interest (reactor w)) fd = None) \<and>
     (\<forall>fd. um_find (callbacks (reactor w)) fd = Some AcceptCb \<longrightarrow> fd = server_fd w) \<and>
     (\<forall>fd \<in> unregistered w. um_find (callbacks (reactor w)) fd = None) \<and>
     server_fd w \<in> base \<and> open_fds (process w) = base \<union> clients w \<and> base \<inter> clients w = {} \<and>
     bad_closes (process w) = n"

text \<open>Phase 9: every registered client is managed, and a managed connection waits for its first
  data or is authenticated.\<close>

definition conn_ok :: "Connection \<Rightarrow> bool" where
  "conn_ok c \<longleftrightarrow> conn_state c = Conn_AUTHENTICATING \<and> bytes_received c = 0 \<or> conn_state c = Conn_AUTHENTICATED"

definition conn_server_ok :: "int set \<Rightarrow> nat \<Rightarrow> conn_server \<Rightarrow> bool" where
  "conn_server_ok base n w \<longleftrightarrow> server_ok base n w \<and> manager_ok (conn_mgr w) \<and>
     (\<forall>fd. um_find (callbacks (reactor w)) fd = Some ClientCb \<longrightarrow> view (conn_mgr w) fd \<noteq> None) \<and>
     (\<forall>fd c. view (conn_mgr w) fd = Some c \<longrightarrow> conn_ok c)"

text \<open>What the handler does to the connection that sends data.\<close>

definition after_data :: "u8 list \<Rightarrow> io \<Rightarrow> Connection \<Rightarrow> Connection" where
  "after_data bs i c =
     (let c = record_recv (of_nat (length bs)) (io_clock i 0) c;
          c = (if conn_state c = Conn_AUTHENTICATING then set_state Conn_AUTHENTICATED (io_clock i 1) c else c)
      in record_send (of_nat (length bs)) (io_clock i 2) c)"

section \<open>Lemmas\<close>

lemma sys_accept_fresh: "sys_accept i opened = Some (fd, ip, prt) \<Longrightarrow> 0 \<le> fd \<and> fd \<notin> opened"
  by (auto simp: sys_accept_def split: option.splits if_splits)

lemma fresh_unregistered:
  assumes "server_ok base n w" and "fd \<notin> open_fds (process w)"
  shows "um_find (callbacks (reactor w)) fd = None" and "um_find (interest (reactor w)) fd = None"
proof -
  have "um_find (callbacks (reactor w)) fd \<noteq> Some c" for c
    using assms by (cases c) (auto simp: server_ok_def clients_def)
  then show "um_find (callbacks (reactor w)) fd = None" by (cases "um_find (callbacks (reactor w)) fd") auto
  with assms(1) show "um_find (interest (reactor w)) fd = None" by (simp add: server_ok_def)
qed

lemma register_client_ok:
  assumes "server_ok base n w" and "fd \<notin> open_fds (process w)"
  shows "server_ok base n (register_client fd i w)"
proof -
  note f = fresh_unregistered [OF assms]
  have "clients (register_client fd i w) = insert fd (clients w)"
    using f by (auto simp: clients_def register_client_def add_socket_def Let_def)
  moreover have "fd \<notin> unregistered w" using assms by (auto simp: server_ok_def clients_def)
  ultimately show ?thesis using assms f
    by (auto simp: server_ok_def register_client_def add_socket_def Let_def split: if_splits)
qed

lemma register_client_all:
  assumes "server_ok base n w" and "fd \<notin> open_fds (process w)" and "io_ctl_ok i"
  shows "unregistered (register_client fd i w) = unregistered w"
  using fresh_unregistered [OF assms(1,2)] assms(3) by (simp add: register_client_def add_socket_def Let_def)

lemma drop_client_ok:
  assumes "server_ok base n w" and "um_find (callbacks (reactor w)) fd = Some ClientCb"
  shows "server_ok base n (drop_client fd w)"
proof -
  have fd: "fd \<in> clients w" using assms(2) by (simp add: clients_def)
  moreover have "fd \<notin> unregistered w" using assms by (auto simp: server_ok_def)
  then have "clients (drop_client fd w) = clients w - {fd}"
    by (auto simp: clients_def drop_client_def remove_socket_def)
  ultimately show ?thesis using assms(1)
    by (auto simp: server_ok_def drop_client_def remove_socket_def sys_close_def)
qed

lemma server_ok_sent [simp]: "server_ok base n (w\<lparr> sent := x \<rparr>) = server_ok base n w"
  by (simp add: server_ok_def clients_def)

lemma unregistered_drop [simp]: "unregistered (drop_client fd w) = unregistered w"
  by (simp add: drop_client_def)

lemma start8_ok: "server_ok (insert fd (open_fds s)) (bad_closes s) (start8 fd s)"
  by (auto simp: server_ok_def clients_def start8_def add_socket_def)

lemma call8_ok:
  assumes "server_ok base n w" and "um_find (callbacks (reactor w)) fd = Some c" and "call8 c fd ev i w = Inr w'"
  shows "server_ok base n w'" and "io_ctl_ok i \<Longrightarrow> unregistered w' = unregistered w"
proof -
  have w': "(case c of AcceptCb \<Rightarrow> Inr (handle_accept i w) | ClientCb \<Rightarrow> handle_client_io fd ev i w) = Inr w'"
    using assms(3) by (auto simp: call8_def bind_outcome_Inr)
  have "server_ok base n (handle_accept i w) \<and> (io_ctl_ok i \<longrightarrow> unregistered (handle_accept i w) = unregistered w)"
    using assms(1) by (auto simp: handle_accept_def register_client_all [OF assms(1)] intro: register_client_ok
        dest: sys_accept_fresh split: option.splits)
  moreover have "server_ok base n w' \<and> unregistered w' = unregistered w"
    if "handle_client_io fd ev i w = Inr w'" "c = ClientCb"
    using that assms(1,2) drop_client_ok [of base n w fd]
    by (auto simp: handle_client_io_def sys_send_def split: recv_result.splits if_splits)
  ultimately show "server_ok base n w'" "io_ctl_ok i \<Longrightarrow> unregistered w' = unregistered w"
    using w' by (auto split: cb.splits)
qed

text \<open>The only way a handler of phase 8 ends besides returning is the signal.\<close>

lemma call8_safe:
  "um_find (callbacks (reactor w)) fd = Some c \<Longrightarrow> call8 c fd ev i w = Inl e \<Longrightarrow> e = SigPipeKill \<and> io_send i = SendErr EPIPE"
  by (auto simp: call8_def captured_def bind_outcome_def handle_client_io_def sys_send_def
      split: cb.splits recv_result.splits if_splits)

interpretation phase8: safe_reactor_app reactor call8 "\<lambda>_. True" "server_ok base n" "\<lambda>e. e = SigPipeKill" for base n
  by unfold_locales (auto intro: call8_ok(1) dest: call8_safe)

interpretation phase8_alive: safe_reactor_app reactor call8 "\<lambda>i. io_send i \<noteq> SendErr EPIPE" "server_ok base n" "\<lambda>_. False" for base n
  by unfold_locales (auto intro: call8_ok(1) dest: call8_safe)

interpretation phase8_ctl: reactor_app reactor call8 io_ctl_ok
  "\<lambda>w. server_ok base n w \<and> unregistered w = {}" for base n
  by unfold_locales (auto dest: call8_ok)

lemma server_ok_mgr [simp]: "server_ok base n (w\<lparr> conn_mgr := m \<rparr>) = server_ok base n w"
  by (simp add: server_ok_def clients_def)

lemma on_conn_frame [simp]:
  "server_ok base n (on_conn h f w) = server_ok base n w" "reactor (on_conn h f w) = reactor w"
  "process (on_conn h f w) = process w" "conn_mgr (on_conn h f w) = via h f (conn_mgr w)"
  by (simp_all add: on_conn_def)

lemma register_client_mgr [simp]: "conn_mgr (register_client fd i w) = conn_mgr w"
  by (simp add: register_client_def Let_def case_prod_beta)

lemma register_client_callbacks:
  "um_find (callbacks (reactor (register_client fd i w))) g = Some c \<Longrightarrow>
     g = fd \<or> um_find (callbacks (reactor w)) g = Some c"
  by (auto simp: register_client_def add_socket_def Let_def split: if_splits)

lemma server_extend [simp]:
  "server_ok base n (server.extend w x) = server_ok base n w" "reactor (server.extend w x) = reactor w"
  by (simp_all add: server_ok_def clients_def server.defs)

lemma start9_ok: "conn_server_ok (insert fd (open_fds s)) (bad_closes s) (start9 fd s)"
proof -
  have "um_find (callbacks (reactor (start8 fd s))) g \<noteq> Some ClientCb" for g by (simp add: start8_def add_socket_def)
  moreover have "conn_mgr (start9 fd s) = new_manager" by (simp add: start9_def server.defs)
  ultimately show ?thesis using start8_ok [of fd s] new_manager_ok by (simp add: conn_server_ok_def) (simp add: start9_def)
qed

text \<open>The connection an accepted descriptor gets.\<close>

lemma accept_manager:
  fixes fd :: int and ip :: string and prt :: u16 and t0 :: time_ns
  assumes "manager_ok m"
  defines "r \<equiv> add_connection fd ip prt t0 m"
  shows "manager_ok (via (fst r) (set_state st t1) (snd r))"
    and "view (via (fst r) (set_state st t1) (snd r)) =
      (view m)(fd \<mapsto> set_state st t1 (make_connection fd ip prt t0))"
proof -
  have ok: "manager_ok (snd r)" using add_connection_ok [OF assms(1)] by (simp add: r_def)
  have "um_find (connections (snd r)) fd = Some (fst r)"
    by (simp add: r_def add_connection_def Let_def)
  from view_via [OF ok this] show "view (via (fst r) (set_state st t1) (snd r)) =
      (view m)(fd \<mapsto> set_state st t1 (make_connection fd ip prt t0))"
    using view_add [OF assms(1)] by (simp add: r_def)
  show "manager_ok (via (fst r) (set_state st t1) (snd r))" using ok by (rule via_ok) simp
qed

lemma accept9_ok:
  assumes "conn_server_ok base n w" and "accept9 fd i w = Inr w'"
  shows "conn_server_ok base n w'"
proof (cases "sys_accept i (open_fds (process w))")
  case None
  with assms show ?thesis by (simp add: accept9_def)
next
  case (Some a)
  obtain cfd ip prt where a: "a = (cfd, ip, prt)" by (cases a)
  let ?r = "add_connection cfd ip prt (io_clock i 0) (conn_mgr w)"
  let ?w = "on_conn (fst ?r) (set_state Conn_AUTHENTICATING (io_clock i 1)) (w\<lparr> conn_mgr := snd ?r \<rparr>)"
  have w': "w' = register_client cfd i ?w"
    using assms(2) Some by (auto simp: accept9_def a bind_outcome_Inr case_prod_beta Let_def)
  have fresh: "cfd \<notin> open_fds (process w)" using sys_accept_fresh [OF Some [unfolded a]] by simp
  have ok: "server_ok base n w" "manager_ok (conn_mgr w)" using assms(1) by (simp_all add: conn_server_ok_def)
  have "server_ok base n w'" using register_client_ok [of base n ?w cfd i] ok fresh by (simp add: w')
  moreover have "view (conn_mgr w') = (view (conn_mgr w))(cfd \<mapsto>
      set_state Conn_AUTHENTICATING (io_clock i 1) (make_connection cfd ip prt (io_clock i 0)))"
    "manager_ok (conn_mgr w')"
    using accept_manager [OF ok(2), of cfd ip prt "io_clock i 0"] by (simp_all add: w')
  moreover have "um_find (callbacks (reactor w')) g = Some c \<Longrightarrow>
      g = cfd \<or> um_find (callbacks (reactor w)) g = Some c" for g c
    using register_client_callbacks [of cfd i ?w g c] by (simp add: w')
  moreover have "conn_ok (set_state Conn_AUTHENTICATING (io_clock i 1) (make_connection cfd ip prt (io_clock i 0)))"
    by (simp add: conn_ok_def connection_defs)
  ultimately show ?thesis
    using assms(1) unfolding conn_server_ok_def by (metis fun_upd_apply option.inject option.simps(3))
qed

lemma close9_undefined:
  "um_find (callbacks (reactor w)) fd = Some ClientCb \<Longrightarrow> close9 fd h i w = Inl Undefined"
  by (simp add: close9_def captured_def bind_outcome_def remove_socket_def Let_def)

lemma after_data_state: "conn_ok c \<Longrightarrow> conn_state (after_data bs i c) = Conn_AUTHENTICATED"
  by (auto simp: conn_ok_def after_data_def connection_defs)

lemma conn_fd_after_data [simp]: "conn_fd (after_data bs i c) = conn_fd c"
  by (simp add: after_data_def Let_def)

lemma via_via: "h < length (objects m) \<Longrightarrow> via h g (via h f m) = via h (g \<circ> f) m"
  by (simp add: via_def)

lemma client9_data:
  assumes "manager_ok (conn_mgr w)" and "um_find (callbacks (reactor w)) fd = Some ClientCb"
    and "get_connection fd (conn_mgr w) = Some h" and "ev AND (EPOLLHUP OR EPOLLERR) = 0"
    and "ev AND EPOLLIN \<noteq> 0" and "sys_recv i = RecvData bs" and "io_send i \<noteq> SendErr EPIPE"
  shows "client9 fd ev i w = Inr (on_conn h (after_data bs i) (w\<lparr> sent := sent w @ [(fd, bs)] \<rparr>))"
proof -
  have h: "h < length (objects (conn_mgr w))"
    using assms(1,3) by (simp add: manager_ok_def get_connection_def)
  show ?thesis
    using assms(2-7) h
    by (auto simp: client9_def sys_send_def captured_def bind_outcome_def on_conn_def via_def after_data_def Let_def)
qed

lemma client9_ok:
  assumes "conn_server_ok base n w" and "um_find (callbacks (reactor w)) fd = Some ClientCb"
    and "client9 fd ev i w = Inr w'"
  shows "conn_server_ok base n w'"
proof -
  have ok: "manager_ok (conn_mgr w)" and cok: "\<And>g c. view (conn_mgr w) g = Some c \<Longrightarrow> conn_ok c"
    using assms(1) unfolding conn_server_ok_def by blast+
  obtain h where h: "um_find (connections (conn_mgr w)) fd = Some h"
    using assms(1,2) unfolding conn_server_ok_def view_def by fastforce
  then have gc: "get_connection fd (conn_mgr w) = Some h" by (simp add: get_connection_def)
  consider (same) "w' = w"
    | (data) bs where "w' = on_conn h (after_data bs i) (w\<lparr> sent := sent w @ [(fd, bs)] \<rparr>)"
  proof (cases "ev AND (EPOLLHUP OR EPOLLERR) = 0 \<and> ev AND EPOLLIN \<noteq> 0 \<and> (\<exists>bs. sys_recv i = RecvData bs)")
    case True
    then obtain bs where bs: "sys_recv i = RecvData bs" by blast
    with True assms(2,3) gc have "io_send i \<noteq> SendErr EPIPE"
      by (auto simp: client9_def captured_def bind_outcome_def sys_send_def Let_def split: if_splits)
    with bs client9_data [OF ok assms(2) gc] True assms(3) show ?thesis by (auto intro: data)
  next
    case False
    then have "w' = w"
      using assms(2,3) gc close9_undefined [OF assms(2)]
      by (auto simp: client9_def captured_def bind_outcome_def split: if_splits recv_result.splits)
    then show ?thesis by (rule same)
  qed
  then show ?thesis
  proof cases
    case same
    with assms(1) show ?thesis by simp
  next
    case (data bs)
    have "view (conn_mgr w') = (view (conn_mgr w))(fd := map_option (after_data bs i) (view (conn_mgr w) fd))"
      using view_via [OF ok h] by (simp add: data)
    moreover have "manager_ok (conn_mgr w')" using via_ok [OF ok] by (simp add: data)
    ultimately show ?thesis
      using assms(1) after_data_state cok unfolding conn_server_ok_def
      by (auto simp: data conn_ok_def)
  qed
qed

lemma call9_ok:
  assumes "conn_server_ok base n w" and "um_find (callbacks (reactor w)) fd = Some c" and "call9 c fd ev i w = Inr w'"
  shows "conn_server_ok base n w'"
proof (cases c)
  case AcceptCb
  then show ?thesis using assms(3) by (intro accept9_ok [OF assms(1)]) (simp add: call9_def)
next
  case ClientCb
  then show ?thesis using assms(2,3) by (intro client9_ok [OF assms(1)]) (simp_all add: call9_def)
qed

interpretation phase9: reactor_app reactor call9 "\<lambda>_. True" "conn_server_ok base n" for base n
  by unfold_locales (rule call9_ok)

lemma batch_ok_any [simp]: "batch_ok (\<lambda>_. True) b"
  by (cases b) (simp_all add: list_all_iff)

lemma phase9_reach:
  "run_loop reactor call9 bs (start9 fd s) = Inr w \<Longrightarrow> conn_server_ok (insert fd (open_fds s)) (bad_closes s) w"
  by (rule phase9.loop_inv [OF start9_ok, where bs = bs]) (simp_all add: list_all_iff)

text \<open>A concrete run: descriptor 7 is accepted on the listening socket 3.\<close>

lemma accepted_client:
  "\<exists>w. run_loop reactor call9 [WaitEvents [(3, EPOLLIN, \<lparr> io_accept = Some (7, ''a'', 1), io_ctl_ok = True,
      io_recv = RecvEof, io_send = Took 0, io_clock = (\<lambda>_. 0) \<rparr>)]] (start9 3 \<lparr> open_fds = {}, bad_closes = 0 \<rparr>) = Inr w \<and>
    um_find (callbacks (reactor w)) 7 = Some ClientCb"
  by (simp add: start9_def server.defs start8_def add_socket_def call9_def accept9_def sys_accept_def
      captured_def bind_outcome_def register_client_def on_conn_def Let_def case_prod_beta)

section \<open>Properties\<close>

text \<open>
  The reactor server of phase 8 never runs into undefined behaviour, ends by \<open>SIGPIPE\<close> only if a \<open>send\<close> meets a broken connection,
  and loses no descriptor: after any sequence of wake-ups and system call results the descriptors opened are exactly
  the registered clients and those whose registration failed, and no \<open>close\<close> was bad; with registrations that succeed
  there are none of the latter.
\<close>

theorem phase8_tracks_sockets:
  "run_loop reactor call8 bs (start8 fd s) \<noteq> Inl Undefined \<and>
   (list_all (batch_ok (\<lambda>i. io_send i \<noteq> SendErr EPIPE)) bs \<longrightarrow> (\<exists>w. run_loop reactor call8 bs (start8 fd s) = Inr w)) \<and>
   (\<forall>w. run_loop reactor call8 bs (start8 fd s) = Inr w \<longrightarrow>
     open_fds (process w) = insert fd (open_fds s) \<union> clients w \<and> insert fd (open_fds s) \<inter> clients w = {} \<and>
     bad_closes (process w) = bad_closes s \<and> (list_all (batch_ok io_ctl_ok) bs \<longrightarrow> unregistered w = {}))"
proof (intro conjI impI allI)
  have any: "list_all (batch_ok (\<lambda>_ :: io. True)) bs" by (simp add: list_all_iff)
  show "run_loop reactor call8 bs (start8 fd s) \<noteq> Inl Undefined" using phase8.loop_safe [OF start8_ok any] by blast
  show "\<exists>w. run_loop reactor call8 bs (start8 fd s) = Inr w" if "list_all (batch_ok (\<lambda>i. io_send i \<noteq> SendErr EPIPE)) bs"
    using phase8_alive.loop_safe [OF start8_ok that] by (cases "run_loop reactor call8 bs (start8 fd s)") auto
  fix w assume w: "run_loop reactor call8 bs (start8 fd s) = Inr w"
  from phase8.loop_inv [OF start8_ok any w]
  show "open_fds (process w) = insert fd (open_fds s) \<union> clients w" "insert fd (open_fds s) \<inter> clients w = {}"
    "bad_closes (process w) = bad_closes s" by (simp_all add: server_ok_def)
  show "unregistered w = {}" if "list_all (batch_ok io_ctl_ok) bs"
    using phase8_ctl.loop_inv [OF _ that w] start8_ok [of fd s] by (auto simp: start8_def)
qed

theorem phase8_tracks_sockets_witness:
  "\<exists>w. run_loop reactor call8 [WaitEvents [(3, EPOLLIN, \<lparr> io_accept = Some (7, [], 0), io_ctl_ok = True,
      io_recv = RecvWouldBlock, io_send = Took 0, io_clock = (\<lambda>_. 0) \<rparr>)]] (start8 3 \<lparr> open_fds = {}, bad_closes = 0 \<rparr>) = Inr w \<and> unregistered w = {}"
  using phase8_tracks_sockets [of "[WaitEvents [(3, EPOLLIN, \<lparr> io_accept = Some (7, [], 0), io_ctl_ok = True,
      io_recv = RecvWouldBlock, io_send = Took 0, io_clock = (\<lambda>_. 0) \<rparr>)]]" 3 "\<lparr> open_fds = {}, bad_closes = 0 \<rparr>"]
  by auto

text \<open>
  C31: the handler of phase 9 uses its own closure after \<open>remove_socket\<close> has destroyed it: for
  every reachable state and every registered client, a hang-up, an error or an end of stream leads
  to undefined behaviour.
\<close>

theorem phase9_disconnect_undefined:
  assumes "run_loop reactor call9 bs (start9 listener s) = Inr w"
    and "um_find (callbacks (reactor w)) fd = Some ClientCb"
    and "ev AND (EPOLLHUP OR EPOLLERR) \<noteq> 0 \<or> ev AND EPOLLIN \<noteq> 0 \<and> sys_recv i = RecvEof"
  shows "dispatch reactor call9 [(fd, ev, i)] w = Inl Undefined"
proof -
  have "conn_server_ok (insert listener (open_fds s)) (bad_closes s) w" using assms(1) by (rule phase9_reach)
  then obtain h where "get_connection fd (conn_mgr w) = Some h"
    using assms(2) unfolding conn_server_ok_def view_def get_connection_def by fastforce
  then show ?thesis
    using assms(2,3) close9_undefined [OF assms(2)]
    by (auto simp: call9_def client9_def captured_def bind_outcome_def)
qed

theorem phase9_disconnect_undefined_witness:
  "\<exists>w. dispatch reactor call9 [(7, EPOLLHUP, \<lparr> io_accept = None, io_ctl_ok = True, io_recv = RecvEof,
     io_send = Took 0, io_clock = (\<lambda>_. 0) \<rparr>)] w = Inl Undefined"
proof -
  obtain w where "run_loop reactor call9 [WaitEvents [(3, EPOLLIN, \<lparr> io_accept = Some (7, ''a'', 1),
      io_ctl_ok = True, io_recv = RecvEof, io_send = Took 0, io_clock = (\<lambda>_. 0) \<rparr>)]] (start9 3 \<lparr> open_fds = {}, bad_closes = 0 \<rparr>) = Inr w"
    "um_find (callbacks (reactor w)) 7 = Some ClientCb"
    using accepted_client by blast
  from phase9_disconnect_undefined [OF this, of EPOLLHUP] show ?thesis
    by (auto simp: EPOLLHUP_def EPOLLERR_def)
qed

text \<open>
  in phase 9 any data authenticate: a connection in state AUTHENTICATING is moved to
  AUTHENTICATED by the first chunk it sends, whatever the bytes are, and the chunk is echoed.
\<close>

theorem phase9_any_data_authenticates:
  assumes "run_loop reactor call9 bs (start9 listener s) = Inr w"
    and "um_find (callbacks (reactor w)) fd = Some ClientCb"
    and "io_recv i = RecvData data" and "data \<noteq> []" and "io_send i \<noteq> SendErr EPIPE"
  shows "\<exists>w' c. dispatch reactor call9 [(fd, EPOLLIN, i)] w = Inr w' \<and> view (conn_mgr w') fd = Some c \<and>
    conn_state c = Conn_AUTHENTICATED \<and> sent w' = sent w @ [(fd, take 1023 data)]"
proof -
  have ok: "conn_server_ok (insert listener (open_fds s)) (bad_closes s) w" using assms(1) by (rule phase9_reach)
  then obtain h c where h: "um_find (connections (conn_mgr w)) fd = Some h"
      and c: "view (conn_mgr w) fd = Some c" "conn_ok c" and m: "manager_ok (conn_mgr w)"
    using assms(2) unfolding conn_server_ok_def view_def by fastforce
  let ?w = "on_conn h (after_data (take 1023 data) i) (w\<lparr> sent := sent w @ [(fd, take 1023 data)] \<rparr>)"
  have "client9 fd EPOLLIN i w = Inr ?w"
    using client9_data [OF m assms(2) _, of h EPOLLIN i "take 1023 data"] h assms(3-5)
    by (simp add: get_connection_def sys_recv_def EPOLLIN_def EPOLLHUP_def EPOLLERR_def)
  then have "dispatch reactor call9 [(fd, EPOLLIN, i)] w = Inr ?w"
    using assms(2) by (simp add: call9_def bind_outcome_def)
  moreover have "view (conn_mgr ?w) fd = Some (after_data (take 1023 data) i c)"
    using view_via [OF m h] c(1) by simp
  moreover have "sent ?w = sent w @ [(fd, take 1023 data)]" by (simp add: on_conn_def)
  ultimately show ?thesis using after_data_state [OF c(2)] by blast
qed

theorem phase9_any_data_authenticates_witness:
  "\<exists>w w' c. dispatch reactor call9 [(7, EPOLLIN, \<lparr> io_accept = None, io_ctl_ok = True,
      io_recv = RecvData [0], io_send = Took 1, io_clock = (\<lambda>_. 0) \<rparr>)] w = Inr w' \<and>
    view (conn_mgr w') 7 = Some c \<and> conn_state c = Conn_AUTHENTICATED"
proof -
  obtain w where w: "run_loop reactor call9 [WaitEvents [(3, EPOLLIN, \<lparr> io_accept = Some (7, ''a'', 1),
      io_ctl_ok = True, io_recv = RecvEof, io_send = Took 0, io_clock = (\<lambda>_. 0) \<rparr>)]] (start9 3 \<lparr> open_fds = {}, bad_closes = 0 \<rparr>) = Inr w"
    "um_find (callbacks (reactor w)) 7 = Some ClientCb"
    using accepted_client by blast
  have "io_recv \<lparr> io_accept = None, io_ctl_ok = True, io_recv = RecvData [0], io_send = Took 1, io_clock = (\<lambda>_. 0) \<rparr> =
      RecvData [0]" by simp
  from phase9_any_data_authenticates [OF w this] show ?thesis by auto
qed

end
