(* ===== verification/Thread_Pool.thy ===== *)
theory Thread_Pool
  imports "HOL-Library.Multiset" Gateway_Prelude
begin

text \<open>
  The thread pool of \<open>include/concurrency/ThreadPool.hpp\<close> as a machine of atomic events. What
  a thread does while it holds \<open>queue_mutex_\<close> is one event; the notification of the condition
  variable, which the code sends after releasing the mutex, is an event of its own, and a sleeping
  worker may wake up spuriously. The histories \<open>submitted\<close>, \<open>started\<close> and \<open>finished\<close> record
  the tasks that were enqueued, taken from the queue and completed. A task is assumed to return.
\<close>

section \<open>Data and operations\<close>

text \<open>A worker is about to lock the mutex and look at the queue, asleep in \<open>cv_.wait\<close>, running
  a task outside the lock, or has left its loop.\<close>

datatype 't worker = Ready | Sleeping | Running 't | Exited

record 't pool =
  workers :: "'t worker list"
  tasks :: "'t list"
  stop :: bool
  notify_owed :: nat
  notify_all_owed :: bool
  submitted :: "'t list"
  started :: "'t list"
  finished :: "'t list"

definition new_pool :: "nat \<Rightarrow> 't pool" where
  "new_pool num_threads =
     \<lparr> workers = replicate num_threads Ready, tasks = [], stop = False, notify_owed = 0,
       notify_all_owed = False, submitted = [], started = [], finished = [] \<rparr>"

definition worker_count :: "'t pool \<Rightarrow> nat" where
  "worker_count p = length (workers p)"

text \<open>The critical section of a worker: evaluate the predicate of \<open>cv_.wait\<close>; sleep, leave the
  loop, or take the front task.\<close>

definition worker_check :: "nat \<Rightarrow> 't pool \<Rightarrow> 't pool" where
  "worker_check i p =
     (if \<not> (stop p \<or> tasks p \<noteq> []) then p\<lparr> workers := (workers p)[i := Sleeping] \<rparr>
      else if stop p \<and> tasks p = [] then p\<lparr> workers := (workers p)[i := Exited] \<rparr>
      else p\<lparr> workers := (workers p)[i := Running (hd (tasks p))], tasks := tl (tasks p),
              started := started p @ [hd (tasks p)] \<rparr>)"

text \<open>The locked part of \<open>enqueue\<close>; the call to \<open>notify_one\<close> is still owed.\<close>

definition enqueue :: "'t \<Rightarrow> 't pool \<Rightarrow> 't pool outcome" where
  "enqueue t p =
     (if stop p then Inl (RuntimeError ''enqueue on stopped ThreadPool'')
      else Inr (p\<lparr> tasks := tasks p @ [t], submitted := submitted p @ [t],
                   notify_owed := Suc (notify_owed p) \<rparr>))"

text \<open>\<open>notify_one\<close> wakes some sleeping worker, if there is one.\<close>

definition notify_one :: "nat \<Rightarrow> 't pool \<Rightarrow> 't pool option" where
  "notify_one i p =
     (if notify_owed p = 0 then None
      else if i < length (workers p) \<and> workers p ! i = Sleeping
      then Some (p\<lparr> notify_owed := notify_owed p - 1, workers := (workers p)[i := Ready] \<rparr>)
      else if Sleeping \<notin> set (workers p) then Some (p\<lparr> notify_owed := notify_owed p - 1 \<rparr>)
      else None)"

definition wake :: "'t worker \<Rightarrow> 't worker" where
  "wake w = (case w of Sleeping \<Rightarrow> Ready | _ \<Rightarrow> w)"

text \<open>The destructor: set \<open>stop_\<close> under the lock, then \<open>notify_all\<close>; it returns when every
  worker has exited.\<close>

definition begin_stop :: "'t pool \<Rightarrow> 't pool" where
  "begin_stop p = p\<lparr> stop := True, notify_all_owed := True \<rparr>"

definition notify_all :: "'t pool \<Rightarrow> 't pool" where
  "notify_all p = p\<lparr> notify_all_owed := False, workers := map wake (workers p) \<rparr>"

definition joined :: "'t pool \<Rightarrow> bool" where
  "joined p \<longleftrightarrow> stop p \<and> \<not> notify_all_owed p \<and> (\<forall>w \<in> set (workers p). w = Exited)"

datatype 't pool_event =
    Check nat
  | Spurious nat
  | Finish nat
  | Enqueue 't
  | NotifyOne nat
  | BeginStop
  | NotifyAll

fun pool_act :: "'t pool_event \<Rightarrow> 't pool \<Rightarrow> 't pool option" where
  "pool_act (Check i) p =
     (if i < length (workers p) \<and> workers p ! i = Ready then Some (worker_check i p) else None)"
| "pool_act (Spurious i) p =
     (if i < length (workers p) \<and> workers p ! i = Sleeping
      then Some (p\<lparr> workers := (workers p)[i := Ready] \<rparr>) else None)"
| "pool_act (Finish i) p =
     (if i < length (workers p)
      then (case workers p ! i of
              Running t \<Rightarrow> Some (p\<lparr> workers := (workers p)[i := Ready], finished := finished p @ [t] \<rparr>)
            | _ \<Rightarrow> None)
      else None)"
| "pool_act (Enqueue t) p = (case enqueue t p of Inl _ \<Rightarrow> None | Inr q \<Rightarrow> Some q)"
| "pool_act (NotifyOne i) p = notify_one i p"
| "pool_act BeginStop p = (if stop p then None else Some (begin_stop p))"
| "pool_act NotifyAll p = (if notify_all_owed p then Some (notify_all p) else None)"

section \<open>Specification\<close>

fun running :: "'t worker list \<Rightarrow> 't list" where
  "running [] = []"
| "running (Running t # ws) = t # running ws"
| "running (_ # ws) = running ws"

text \<open>Conservation, and that nobody sleeps on work: with tasks queued, a notification is owed or
  a worker is up; a worker exits only from a stopped, drained pool; once \<open>notify_all\<close> has been
  sent nobody sleeps any more.\<close>

definition pool_inv :: "'t pool \<Rightarrow> bool" where
  "pool_inv p \<longleftrightarrow>
     submitted p = started p @ tasks p \<and>
     mset (started p) = mset (running (workers p)) + mset (finished p) \<and>
     (Exited \<in> set (workers p) \<longrightarrow> stop p \<and> tasks p = []) \<and>
     (tasks p \<noteq> [] \<and> workers p \<noteq> [] \<longrightarrow>
        0 < notify_owed p \<or> (\<exists>w \<in> set (workers p). w \<noteq> Sleeping)) \<and>
     (stop p \<and> \<not> notify_all_owed p \<longrightarrow> Sleeping \<notin> set (workers p)) \<and>
     (notify_all_owed p \<longrightarrow> stop p)"

text \<open>What is left to do of a pool: three events per queued task, and the way of each worker to
  its exit.\<close>

definition worker_weight :: "'t worker \<Rightarrow> nat" where
  "worker_weight w = (case w of Ready \<Rightarrow> 1 | Sleeping \<Rightarrow> 2 | Running _ \<Rightarrow> 2 | Exited \<Rightarrow> 0)"

definition remaining :: "'t pool \<Rightarrow> nat" where
  "remaining p = 3 * length (tasks p) + sum_list (map worker_weight (workers p)) +
     notify_owed p + (if notify_all_owed p then 1 else 0)"

section \<open>Lemmas\<close>

lemma mset_running_append: "running (xs @ ys) = running xs @ running ys"
  by (induction xs rule: running.induct) simp_all

lemma mset_running_update:
  assumes "i < length ws"
  shows "mset (running (ws[i := w])) + mset (running [ws ! i]) = mset (running ws) + mset (running [w])"
proof -
  have ws: "ws = take i ws @ [ws ! i] @ drop (Suc i) ws"
    using assms by (simp add: id_take_nth_drop)
  have "ws[i := w] = take i ws @ [w] @ drop (Suc i) ws"
    using assms by (simp add: upd_conv_take_nth_drop)
  then have "mset (running (ws[i := w])) =
      mset (running (take i ws)) + mset (running [w]) + mset (running (drop (Suc i) ws))"
    by (simp only: mset_running_append mset_append add.assoc)
  moreover have "mset (running ws) =
      mset (running (take i ws)) + mset (running [ws ! i]) + mset (running (drop (Suc i) ws))"
    by (subst ws) (simp only: mset_running_append mset_append add.assoc)
  ultimately show ?thesis by simp
qed

lemma weight_update:
  "i < length ws \<Longrightarrow> sum_list (map worker_weight (ws[i := w])) + worker_weight (ws ! i) =
     sum_list (map worker_weight ws) + worker_weight w"
proof (induction ws arbitrary: i)
  case (Cons v ws)
  then show ?case by (cases i) simp_all
qed simp

lemma running_wake [simp]: "running (map wake ws) = running ws"
  by (induction ws rule: running.induct) (simp_all add: wake_def)

lemma in_set_update: "w \<in> set (ws[i := v]) \<Longrightarrow> w = v \<or> w \<in> set ws"
  using set_update_subset_insert by fastforce

lemma updated_in_set: "i < length ws \<Longrightarrow> v \<in> set (ws[i := v])"
  by (simp add: set_update_memI)

lemma new_pool_inv: "pool_inv (new_pool n)"
proof -
  have "running (replicate n Ready) = []" by (induction n) simp_all
  then show ?thesis by (simp add: pool_inv_def new_pool_def)
qed

lemma mset_running_same:
  assumes "i < length ws" and "running [ws ! i] = []" and "running [w] = []"
  shows "mset (running (ws[i := w])) = mset (running ws)"
  using mset_running_update [OF assms(1), of w] assms(2,3) by simp

text \<open>A worker that is asleep or ready changes between these two, or exits.\<close>

lemma inv_worker_ready:
  assumes "pool_inv p" and "i < length (workers p)" and "workers p ! i \<in> {Ready, Sleeping}"
  shows "pool_inv (p\<lparr> workers := (workers p)[i := Ready] \<rparr>)"
  using assms updated_in_set [OF assms(2), of Ready]
  by (auto simp: pool_inv_def mset_running_same dest: in_set_update)

lemma worker_check_inv:
  assumes "pool_inv p" and "i < length (workers p)" and "workers p ! i = Ready"
  shows "pool_inv (worker_check i p)"
proof -
  let ?ws = "workers p"
  consider (sleep) "\<not> stop p" "tasks p = []" | (exit) "stop p" "tasks p = []"
    | (run) t ts where "tasks p = t # ts"
    by (cases "tasks p") auto
  then show ?thesis
  proof cases
    case sleep
    with assms show ?thesis
      by (auto simp: worker_check_def pool_inv_def mset_running_same dest!: in_set_update)
  next
    case exit
    with assms show ?thesis
      by (auto simp: worker_check_def pool_inv_def mset_running_same dest!: in_set_update)
  next
    case (run t ts)
    have "mset (running (?ws[i := Running t])) = mset (running ?ws) + {#t#}"
      using mset_running_update [OF assms(2), of "Running t"] assms(3) by simp
    moreover have "Running t \<in> set (?ws[i := Running t])" using assms(2) by (rule updated_in_set)
    ultimately show ?thesis
      using assms run by (auto simp: worker_check_def pool_inv_def dest: in_set_update)
  qed
qed

lemma finish_inv:
  assumes "pool_inv p" and "i < length (workers p)" and "workers p ! i = Running t"
  shows "pool_inv (p\<lparr> workers := (workers p)[i := Ready], finished := finished p @ [t] \<rparr>)"
proof -
  have "mset (running ((workers p)[i := Ready])) + {#t#} = mset (running (workers p))"
    using mset_running_update [OF assms(2), of Ready] assms(3) by simp
  moreover have "Ready \<in> set ((workers p)[i := Ready])" using assms(2) by (rule updated_in_set)
  ultimately show ?thesis
    using assms(1) by (auto simp: pool_inv_def dest: in_set_update)
qed

lemma notify_one_inv:
  assumes "pool_inv p" and "notify_one i p = Some q"
  shows "pool_inv q"
proof (cases "i < length (workers p) \<and> workers p ! i = Sleeping")
  case True
  then have "pool_inv (p\<lparr> workers := (workers p)[i := Ready] \<rparr>)"
    using assms(1) by (intro inv_worker_ready) simp_all
  then show ?thesis
    using assms(2) True updated_in_set [of i "workers p" Ready]
    by (auto simp: notify_one_def pool_inv_def split: if_splits)
next
  case False
  then have q: "q = p\<lparr> notify_owed := notify_owed p - 1 \<rparr>" "Sleeping \<notin> set (workers p)"
    using assms(2) by (auto simp: notify_one_def split: if_splits)
  then have "workers p \<noteq> [] \<longrightarrow> (\<exists>w \<in> set (workers p). w \<noteq> Sleeping)"
    by (cases "workers p") auto
  with q assms(1) show ?thesis by (auto simp: pool_inv_def)
qed

lemma notify_all_inv: "pool_inv p \<Longrightarrow> notify_all_owed p \<Longrightarrow> pool_inv (notify_all p)"
  by (auto simp: pool_inv_def notify_all_def wake_def split: worker.splits)

lemma pool_act_inv: "pool_inv p \<Longrightarrow> pool_act e p = Some q \<Longrightarrow> pool_inv q"
proof (induction e p rule: pool_act.induct)
  case (1 i p)
  then show ?case by (auto simp: worker_check_inv split: if_splits)
next
  case (2 i p)
  then show ?case by (auto simp: inv_worker_ready split: if_splits)
next
  case (3 i p)
  then show ?case by (auto simp: finish_inv split: if_splits worker.splits)
next
  case (4 t p)
  then show ?case by (auto simp: enqueue_def pool_inv_def split: if_splits)
next
  case (5 i p)
  then show ?case by (auto intro: notify_one_inv)
next
  case (6 p)
  then show ?case by (auto simp: begin_stop_def pool_inv_def split: if_splits)
next
  case (7 p)
  then show ?case by (auto intro: notify_all_inv split: if_splits)
qed

interpretation pool: event_machine pool_act "\<lambda>p. \<exists>n. p = new_pool n" pool_inv
  by unfold_locales (auto simp: new_pool_inv intro: pool_act_inv)

lemma workers_length: "pool_act e p = Some q \<Longrightarrow> length (workers q) = length (workers p)"
  by (induction e p rule: pool_act.induct)
    (auto simp: worker_check_def enqueue_def notify_one_def begin_stop_def notify_all_def
      split: if_splits worker.splits)

interpretation pool_size: event_machine pool_act "\<lambda>p. p = new_pool n" "\<lambda>p. length (workers p) = n" for n
  by unfold_locales (auto simp: workers_length new_pool_def)

lemma stop_stays: "pool_act e p = Some q \<Longrightarrow> stop p \<Longrightarrow> stop q"
  by (induction e p rule: pool_act.induct)
    (auto simp: worker_check_def enqueue_def notify_one_def begin_stop_def notify_all_def
      split: if_splits worker.splits)

lemma weight_drop:
  assumes "i < length ws" and "worker_weight w < worker_weight (ws ! i)"
  shows "sum_list (map worker_weight (ws[i := w])) < sum_list (map worker_weight ws)"
  using weight_update [OF assms(1), of w] assms(2) by linarith

lemma weight_wake: "sum_list (map worker_weight (map wake ws)) \<le> sum_list (map worker_weight ws)"
  by (intro sum_list_mono2) (simp_all add: wake_def worker_weight_def split: worker.splits)

lemma remaining_decreases:
  assumes "stop p" and "pool_act e p = Some q"
  shows "remaining q < remaining p"
proof (cases e)
  case (Check i)
  then have i: "i < length (workers p)" "workers p ! i = Ready" and q: "q = worker_check i p"
    using assms by (auto split: if_splits)
  have "sum_list (map worker_weight ((workers p)[i := w])) + 1 =
      sum_list (map worker_weight (workers p)) + worker_weight w" for w
    using weight_update [OF i(1), of w] i(2) by (simp add: worker_weight_def)
  from this [of Exited] this [of "Running (hd (tasks p))"] show ?thesis
    using assms(1) q by (cases "tasks p") (auto simp: worker_check_def remaining_def worker_weight_def)
next
  case (Spurious i)
  with assms show ?thesis
    by (auto simp: remaining_def worker_weight_def intro!: weight_drop split: if_splits)
next
  case (Finish i)
  with assms show ?thesis
    by (auto simp: remaining_def worker_weight_def intro!: weight_drop split: if_splits worker.splits)
next
  case (Enqueue t)
  with assms show ?thesis by (simp add: enqueue_def)
next
  case (NotifyOne i)
  have "i < length (workers p) \<Longrightarrow> workers p ! i = Sleeping \<Longrightarrow>
      sum_list (map worker_weight ((workers p)[i := Ready])) < sum_list (map worker_weight (workers p))"
    by (intro weight_drop) (simp_all add: worker_weight_def)
  with NotifyOne assms show ?thesis
    by (auto simp: notify_one_def remaining_def split: if_splits)
next
  case BeginStop
  with assms show ?thesis by simp
next
  case NotifyAll
  with assms weight_wake [of "workers p"] show ?thesis
    by (auto simp: notify_all_def remaining_def split: if_splits)
qed

lemma stopped_run_bound:
  "stop p \<Longrightarrow> run_events pool_act es p = Some q \<Longrightarrow> stop q \<and> length es + remaining q \<le> remaining p"
proof (induction es arbitrary: p)
  case (Cons e es)
  from Cons.prems(2) obtain r where r: "pool_act e p = Some r" "run_events pool_act es r = Some q"
    by (auto split: option.splits)
  with Cons.IH [of r] Cons.prems(1) remaining_decreases [OF Cons.prems(1) r(1)] stop_stays [OF r(1)]
  show ?case by simp
qed simp

lemma running_exited: "\<forall>w \<in> set ws. w = Exited \<Longrightarrow> running ws = []"
  by (induction ws rule: running.induct) simp_all

text \<open>A stopped pool in which nothing can happen any more has ended properly.\<close>

lemma stopped_stuck:
  assumes "pool_inv p" and "stop p" and "workers p \<noteq> []"
    and "\<forall>e. (\<forall>i. e \<noteq> Spurious i) \<longrightarrow> pool_act e p = None"
  shows "joined p \<and> tasks p = [] \<and> mset (finished p) = mset (submitted p)"
proof -
  have owed: "\<not> notify_all_owed p" using assms(4) [THEN spec [of _ NotifyAll]] by (auto split: if_splits)
  have ex: "w = Exited" if w: "w \<in> set (workers p)" for w
  proof -
    obtain i where i: "i < length (workers p)" "workers p ! i = w"
      using w by (auto simp: in_set_conv_nth)
    moreover have "Sleeping \<notin> set (workers p)" using assms(1,2) owed by (simp add: pool_inv_def)
    ultimately show ?thesis
      using w assms(4) [THEN spec [of _ "Check i"]] assms(4) [THEN spec [of _ "Finish i"]]
      by (cases w) auto
  qed
  then have run: "running (workers p) = []" by (simp add: running_exited)
  have "Exited \<in> set (workers p)" using ex assms(3) by (cases "workers p") auto
  with assms(1) have "tasks p = []" by (simp add: pool_inv_def)
  with assms(1,2) owed ex run show ?thesis by (auto simp: joined_def pool_inv_def)
qed

section \<open>Properties\<close>

text \<open>
  C12: in every interleaving tasks are taken from the queue in the order in which they were
  enqueued, and every task is run exactly once: what was enqueued is what was started followed by
  what is queued, and what was started is running or finished.
\<close>

theorem pool_fifo_once:
  assumes "run_events pool_act es (new_pool n) = Some p"
  shows "submitted p = started p @ tasks p \<and>
    mset (started p) = mset (running (workers p)) + mset (finished p)"
  using pool.run_inv [OF _ assms] by (auto simp: pool_inv_def)

text \<open>
  C13: no wake-up is lost: with tasks queued and at least one worker, some step of the pool itself
  is always possible (a worker looks at the queue, a task ends, or an owed notification is
  delivered), so the queue is never stuck with all workers asleep.
\<close>

theorem no_lost_wakeup:
  assumes "run_events pool_act es (new_pool n) = Some p" and "0 < n" and "tasks p \<noteq> []"
  shows "\<exists>i. pool_act (Check i) p \<noteq> None \<or> pool_act (Finish i) p \<noteq> None \<or> pool_act (NotifyOne i) p \<noteq> None"
proof -
  have inv: "pool_inv p" using pool.run_inv [OF _ assms(1)] by auto
  have "length (workers p) = n" using pool_size.run_inv [OF refl assms(1)] .
  then have ne: "workers p \<noteq> []" using assms(2) by auto
  show ?thesis
  proof (cases "\<exists>w \<in> set (workers p). w \<noteq> Sleeping")
    case True
    then obtain i where i: "i < length (workers p)" "workers p ! i \<noteq> Sleeping"
      by (auto simp: in_set_conv_nth)
    moreover have "workers p ! i \<noteq> Exited"
      using inv assms(3) i(1) nth_mem by (fastforce simp: pool_inv_def)
    ultimately show ?thesis by (cases "workers p ! i") (auto intro!: exI [of _ i])
  next
    case False
    then have "workers p ! 0 = Sleeping" "0 < length (workers p)" using ne by simp_all
    moreover have "0 < notify_owed p" using inv assms(3) ne False by (auto simp: pool_inv_def)
    ultimately show ?thesis by (auto simp: notify_one_def intro!: exI [of _ 0])
  qed
qed

theorem no_lost_wakeup_witness:
  "case run_events pool_act [Check 0, Check 1, Enqueue 7] (new_pool 2 :: nat pool) of
     None \<Rightarrow> False
   | Some p \<Rightarrow> tasks p = [7] \<and> workers p = [Sleeping, Sleeping] \<and>
       (\<exists>i. pool_act (Check i) p \<noteq> None \<or> pool_act (Finish i) p \<noteq> None \<or> pool_act (NotifyOne i) p \<noteq> None)"
proof -
  let ?es = "[Check 0, Check 1, Enqueue 7] :: nat pool_event list"
  obtain p where p: "run_events pool_act ?es (new_pool 2) = Some p" "tasks p = [7]"
      "workers p = [Sleeping, Sleeping]"
    by (simp add: new_pool_def worker_check_def enqueue_def numeral_eq_Suc)
  from no_lost_wakeup [OF p(1)] p show ?thesis by simp
qed

theorem pool_fifo_once_witness:
  "case run_events pool_act [Enqueue 7, Enqueue 8, Check 0, NotifyOne 0, Finish 0] (new_pool 1 :: nat pool) of
     None \<Rightarrow> False
   | Some p \<Rightarrow> submitted p = started p @ tasks p \<and> finished p = [7] \<and> tasks p = [8]"
proof -
  let ?es = "[Enqueue 7, Enqueue 8, Check 0, NotifyOne 0, Finish 0] :: nat pool_event list"
  obtain p where p: "run_events pool_act ?es (new_pool 1) = Some p" "tasks p = [8]" "finished p = [7]"
    by (simp add: new_pool_def worker_check_def enqueue_def notify_one_def)
  from pool_fifo_once [OF p(1)] p show ?thesis by simp
qed

text \<open>
  C14: graceful shutdown: once the destructor has set \<open>stop_\<close>, every schedule ends: no run has
  more steps than \<open>remaining\<close> counts, and a pool of at least one worker in which no step
  other than a spurious wake-up is possible any more has joined all workers, drained its queue and
  finished every task that was ever enqueued.
\<close>

theorem shutdown_completes:
  assumes "run_events pool_act es (new_pool n) = Some p" and "0 < n" and "stop p"
    and "run_events pool_act fs p = Some q"
  shows "length fs \<le> remaining p \<and>
    ((\<forall>e. (\<forall>i. e \<noteq> Spurious i) \<longrightarrow> pool_act e q = None) \<longrightarrow> joined q \<and> tasks q = [] \<and> mset (finished q) = mset (submitted q))"
proof -
  have "pool_inv p" using pool.run_inv [OF _ assms(1)] by auto
  then have "pool_inv q" using assms(4) by (rule pool.run_keeps)
  moreover have "length (workers q) = n"
    using pool_size.run_keeps [OF _ assms(4)] pool_size.run_inv [OF refl assms(1)] by blast
  moreover have "stop q" "length fs \<le> remaining p"
    using stopped_run_bound [OF assms(3,4)] by simp_all
  ultimately show ?thesis using stopped_stuck [of q] assms(2) by force
qed

theorem shutdown_completes_witness:
  "case run_events pool_act [Check 0, Enqueue 7, BeginStop] (new_pool 1 :: nat pool) of
     None \<Rightarrow> False
   | Some p \<Rightarrow> length [NotifyOne 0, Check 0, Finish 0, NotifyAll, Check 0 :: nat pool_event] \<le> remaining p"
proof -
  let ?es = "[Check 0, Enqueue 7, BeginStop] :: nat pool_event list"
  let ?fs = "[NotifyOne 0, Check 0, Finish 0, NotifyAll, Check 0] :: nat pool_event list"
  obtain p q where p: "run_events pool_act ?es (new_pool 1) = Some p" "stop p"
      "run_events pool_act ?fs p = Some q"
    by (simp add: new_pool_def worker_check_def enqueue_def notify_one_def begin_stop_def notify_all_def
        wake_def)
  from shutdown_completes [OF p(1) _ p(2,3)] p(1) show ?thesis by simp
qed

end
