(* ===== verification/Echo_Servers.thy ===== *)
theory Echo_Servers
  imports Socket_IO Thread_Pool
begin

text \<open>
  The accept loops around the client loop: \<open>src/phase3_multithreaded_server.cpp\<close> with a thread
  for every client and \<open>src/phase4_threadpool_server.cpp\<close> with the four workers of a
  \<open>ThreadPool\<close>. Each atomic access of \<open>handle_client\<close> to the shared counters, each run of its loop
  and each \<open>close\<close> is a step of its own, so that the clients interleave. A client brings the
  answers the kernel will give on its socket.
\<close>

section \<open>Data and operations\<close>

subsection \<open>The client handlers\<close>

record shared =
  active_clients :: u64
  total_clients_served :: u64
  socks :: "int set"
  killed :: bool

text \<open>Where \<open>handle_client\<close> is: not begun, past the first increment, in its loop, past the loop,
  past \<open>close\<close>, and returned.\<close>

datatype thread =
    Spawned int stream
  | Entered int stream
  | Serving int stream
  | Leaving int
  | Closed
  | Ended

fun handle_client3 :: "thread \<Rightarrow> shared \<Rightarrow> (thread \<times> shared) option" where
  "handle_client3 (Spawned fd s) g = Some (Entered fd s, g\<lparr> active_clients := active_clients g + 1 \<rparr>)"
| "handle_client3 (Entered fd s) g = Some (Serving fd s, g\<lparr> total_clients_served := total_clients_served g + 1 \<rparr>)"
| "handle_client3 (Serving fd s) g =
     (case client_loop s of
        Returned t \<Rightarrow> Some (Leaving fd, g)
      | Blocked \<Rightarrow> None
      | SigPipe \<Rightarrow> Some (Serving fd s, g\<lparr> killed := True \<rparr>)
      | UndefinedCall \<Rightarrow> None)"
| "handle_client3 (Leaving fd) g = Some (Closed, g\<lparr> socks := socks g - {fd} \<rparr>)"
| "handle_client3 Closed g = Some (Ended, g\<lparr> active_clients := active_clients g - 1 \<rparr>)"
| "handle_client3 Ended g = None"

fun handle_client4 :: "thread \<Rightarrow> shared \<Rightarrow> (thread \<times> shared) option" where
  "handle_client4 (Spawned fd s) g = Some (Serving fd s, g\<lparr> active_clients := active_clients g + 1 \<rparr>)"
| "handle_client4 (Entered fd s) g = None"
| "handle_client4 (Serving fd s) g =
     (case client_loop s of
        Returned t \<Rightarrow> Some (Leaving fd, g)
      | Blocked \<Rightarrow> None
      | SigPipe \<Rightarrow> Some (Serving fd s, g\<lparr> killed := True \<rparr>)
      | UndefinedCall \<Rightarrow> None)"
| "handle_client4 (Leaving fd) g = Some (Closed, g\<lparr> socks := socks g - {fd} \<rparr>)"
| "handle_client4 Closed g = Some (Ended, g\<lparr> active_clients := active_clients g - 1 \<rparr>)"
| "handle_client4 Ended g = None"

text \<open>One step of the \<open>i\<close>-th of several handlers, in a process that is alive.\<close>

definition step_at ::
  "(thread \<Rightarrow> shared \<Rightarrow> (thread \<times> shared) option) \<Rightarrow> nat \<Rightarrow> thread list \<Rightarrow> shared \<Rightarrow> (thread list \<times> shared) option" where
  "step_at step i ths g =
     (if i < length ths \<and> \<not> killed g
      then case step (ths ! i) g of None \<Rightarrow> None | Some (th, h) \<Rightarrow> Some (ths[i := th], h)
      else None)"

text \<open>\<open>accept\<close> hands out a descriptor that is not open.\<close>

definition accepts :: "int \<Rightarrow> shared \<Rightarrow> bool" where
  "accepts fd g \<longleftrightarrow> 0 \<le> fd \<and> fd \<notin> socks g \<and> \<not> killed g"

subsection \<open>Phase 3\<close>

record server3 =
  threads :: "thread list"
  globals3 :: shared

datatype event3 = Accept3 int stream | AcceptFailed3 | Step3 nat

definition start3 :: "int \<Rightarrow> server3" where
  "start3 server_fd = \<lparr> threads = [],
     globals3 = \<lparr> active_clients = 0, total_clients_served = 0, socks = {server_fd}, killed = False \<rparr> \<rparr>"

fun act3 :: "event3 \<Rightarrow> server3 \<Rightarrow> server3 option" where
  "act3 (Accept3 fd s) w =
     (if accepts fd (globals3 w)
      then Some (w\<lparr> threads := threads w @ [Spawned fd s],
                    globals3 := (globals3 w)\<lparr> socks := insert fd (socks (globals3 w)) \<rparr> \<rparr>)
      else None)"
| "act3 AcceptFailed3 w = (if killed (globals3 w) then None else Some w)"
| "act3 (Step3 i) w =
     (case step_at handle_client3 i (threads w) (globals3 w) of
        None \<Rightarrow> None
      | Some (ths, g) \<Rightarrow> Some (w\<lparr> threads := ths, globals3 := g \<rparr>))"

subsection \<open>Phase 4\<close>

definition THREAD_POOL_SIZE :: nat where
  "THREAD_POOL_SIZE = 4"

text \<open>\<open>stages\<close> holds for every worker where the task it runs is, \<open>Ended\<close> when it runs none.\<close>

record server4 =
  wpool :: "(int \<times> stream) pool"
  stages :: "thread list"
  globals4 :: shared

datatype event4 =
    Accept4 int stream
  | AcceptFailed4
  | Check4 nat
  | Spurious4 nat
  | NotifyOne4 nat
  | Step4 nat
  | TaskDone4 nat

definition start4 :: "int \<Rightarrow> server4" where
  "start4 server_fd = \<lparr> wpool = new_pool THREAD_POOL_SIZE, stages = replicate THREAD_POOL_SIZE Ended,
     globals4 = \<lparr> active_clients = 0, total_clients_served = 0, socks = {server_fd}, killed = False \<rparr> \<rparr>"

definition pool_step :: "(int \<times> stream) pool_event \<Rightarrow> server4 \<Rightarrow> server4 option" where
  "pool_step e w =
     (if killed (globals4 w) then None
      else case pool_act e (wpool w) of None \<Rightarrow> None | Some p \<Rightarrow> Some (w\<lparr> wpool := p \<rparr>))"

fun act4 :: "event4 \<Rightarrow> server4 \<Rightarrow> server4 option" where
  "act4 (Accept4 fd s) w =
     (if accepts fd (globals4 w)
      then pool_step (Enqueue (fd, s)) (w\<lparr> globals4 := (globals4 w)\<lparr> socks := insert fd (socks (globals4 w)) \<rparr> \<rparr>)
      else None)"
| "act4 AcceptFailed4 w = (if killed (globals4 w) then None else Some w)"
| "act4 (Check4 i) w =
     (case pool_step (Check i) w of
        None \<Rightarrow> None
      | Some w' \<Rightarrow>
          (case workers (wpool w') ! i of
             Running (fd, s) \<Rightarrow> Some (w'\<lparr> stages := (stages w)[i := Spawned fd s] \<rparr>)
           | _ \<Rightarrow> Some w'))"
| "act4 (Spurious4 i) w = pool_step (Spurious i) w"
| "act4 (NotifyOne4 i) w = pool_step (NotifyOne i) w"
| "act4 (Step4 i) w =
     (case step_at handle_client4 i (stages w) (globals4 w) of
        None \<Rightarrow> None
      | Some (ths, g) \<Rightarrow> Some (w\<lparr> stages := ths, globals4 := g \<rparr>))"
| "act4 (TaskDone4 i) w =
     (if i < length (stages w) \<and> stages w ! i = Ended then pool_step (Finish i) w else None)"

section \<open>Specification\<close>

fun in_handler :: "thread \<Rightarrow> bool" where
  "in_handler (Entered fd s) = True"
| "in_handler (Serving fd s) = True"
| "in_handler (Leaving fd) = True"
| "in_handler Closed = True"
| "in_handler _ = False"

fun owned :: "thread \<Rightarrow> int set" where
  "owned (Spawned fd s) = {fd}"
| "owned (Entered fd s) = {fd}"
| "owned (Serving fd s) = {fd}"
| "owned (Leaving fd) = {fd}"
| "owned _ = {}"

text \<open>The counter is exact, and every open socket belongs to the listener or to exactly one
  client.\<close>

definition owners :: "int \<Rightarrow> thread list \<Rightarrow> nat" where
  "owners fd ths = length (filter (\<lambda>th. fd \<in> owned th) ths)"

definition handlers_ok :: "int \<Rightarrow> thread list \<Rightarrow> shared \<Rightarrow> bool" where
  "handlers_ok server_fd ths g \<longleftrightarrow>
     active_clients g = of_nat (length (filter in_handler ths)) \<and> server_fd \<in> socks g \<and>
     (\<forall>fd. owners fd ths = of_bool (fd \<in> socks g \<and> fd \<noteq> server_fd))"

lemma length_filter_update:
  "i < length xs \<Longrightarrow> length (filter P (xs[i := x])) + of_bool (P (xs ! i)) = length (filter P xs) + of_bool (P x)"
proof (induction xs arbitrary: i)
  case (Cons y xs)
  then show ?case by (cases i) auto
qed simp

lemma owners_update:
  "i < length ths \<Longrightarrow> owners fd (ths[i := th]) + of_bool (fd \<in> owned (ths ! i)) = owners fd ths + of_bool (fd \<in> owned th)"
  unfolding owners_def by (rule length_filter_update)

lemma handlers_ok_update:
  assumes ok: "handlers_ok server_fd ths g" and i: "i < length ths" and sub: "owned th \<subseteq> owned (ths ! i)"
    and count: "active_clients h + of_bool (in_handler (ths ! i)) = active_clients g + of_bool (in_handler th)"
    and closed: "socks h = socks g - (owned (ths ! i) - owned th)"
  shows "handlers_ok server_fd (ths[i := th]) h"
proof -
  have "of_nat (length (filter in_handler (ths[i := th]))) + of_bool (in_handler (ths ! i)) =
      (of_nat (length (filter in_handler ths)) + of_bool (in_handler th) :: u64)"
    using length_filter_update [OF i, of in_handler th] by (metis of_nat_add of_nat_of_bool)
  with count ok have "active_clients h = of_nat (length (filter in_handler (ths[i := th])))"
    unfolding handlers_ok_def by (metis add_right_cancel)
  moreover have own: "owners fd ths = of_bool (fd \<in> socks g \<and> fd \<noteq> server_fd)" for fd
    using ok unfolding handlers_ok_def by blast
  moreover have "owners fd (ths[i := th]) = of_bool (fd \<in> socks h \<and> fd \<noteq> server_fd)" for fd
    using owners_update [OF i, of fd th] own [of fd] sub unfolding closed
    by (cases "fd \<in> owned (ths ! i)"; cases "fd \<in> owned th"; cases "fd \<in> socks g \<and> fd \<noteq> server_fd") auto
  moreover have "server_fd \<in> socks h"
    using ok own [of server_fd] owners_update [OF i, of server_fd th] sub unfolding closed handlers_ok_def
    by (cases "server_fd \<in> owned th") auto
  ultimately show ?thesis unfolding handlers_ok_def by blast
qed

lemma handlers_ok_accept:
  assumes "handlers_ok server_fd (xs @ ys) g" and "accepts fd g"
  shows "handlers_ok server_fd (xs @ Spawned fd s # ys) (g\<lparr> socks := insert fd (socks g) \<rparr>)"
  using assms unfolding handlers_ok_def accepts_def owners_def by (auto split: if_splits)

lemma handlers_ok_mset: "mset xs = mset ys \<Longrightarrow> handlers_ok server_fd xs g \<longleftrightarrow> handlers_ok server_fd ys g"
  unfolding handlers_ok_def owners_def by (metis mset_filter size_mset)

lemma handlers_ok_Ended: "handlers_ok server_fd (Ended # ths) g \<longleftrightarrow> handlers_ok server_fd ths g"
  by (simp add: handlers_ok_def owners_def)

text \<open>What a handler promises in each of its steps: the counter moves with its entry and exit, and
  the only socket it closes is its own.\<close>

locale client_handler =
  fixes step :: "thread \<Rightarrow> shared \<Rightarrow> (thread \<times> shared) option"
  assumes counts: "step th g = Some (th', h) \<Longrightarrow>
      active_clients h + of_bool (in_handler th) = active_clients g + of_bool (in_handler th')"
    and closes: "step th g = Some (th', h) \<Longrightarrow>
      owned th' \<subseteq> owned th \<and> socks h = socks g - (owned th - owned th')"

begin

lemma step_at_ok:
  assumes "handlers_ok server_fd ths g" and "step_at step i ths g = Some (ths', h)"
  shows "handlers_ok server_fd ths' h"
proof -
  obtain th where th: "i < length ths" "step (ths ! i) g = Some (th, h)" "ths' = ths[i := th]"
    using assms(2) by (auto simp: step_at_def split: if_splits option.splits)
  show ?thesis unfolding th(3)
    using closes [OF th(2)] counts [OF th(2)] by (intro handlers_ok_update [OF assms(1) th(1)]) auto
qed

end

section \<open>Lemmas\<close>

interpretation client3: client_handler handle_client3
proof
  show "active_clients h + of_bool (in_handler th) = active_clients g + of_bool (in_handler th')"
    if "handle_client3 th g = Some (th', h)" for th g th' h
    using that by (cases th) (auto split: call_end.splits)
  show "owned th' \<subseteq> owned th \<and> socks h = socks g - (owned th - owned th')"
    if "handle_client3 th g = Some (th', h)" for th g th' h
    using that by (cases th) (auto split: call_end.splits)
qed

interpretation client4: client_handler handle_client4
proof
  show "active_clients h + of_bool (in_handler th) = active_clients g + of_bool (in_handler th')"
    if "handle_client4 th g = Some (th', h)" for th g th' h
    using that by (cases th) (auto split: call_end.splits)
  show "owned th' \<subseteq> owned th \<and> socks h = socks g - (owned th - owned th')"
    if "handle_client4 th g = Some (th', h)" for th g th' h
    using that by (cases th) (auto split: call_end.splits)
qed

lemma start_ok: "handlers_ok server_fd ths \<lparr> active_clients = 0, total_clients_served = 0, socks = {server_fd}, killed = False \<rparr>"
  if "ths = replicate n Ended" for ths n
  using that by (simp add: handlers_ok_def owners_def)

text \<open>Phase 3, with the number of handlers that have passed the second counter.\<close>

fun counted :: "thread \<Rightarrow> bool" where
  "counted (Spawned fd s) = False"
| "counted (Entered fd s) = False"
| "counted _ = True"

definition server3_ok :: "int \<Rightarrow> server3 \<Rightarrow> bool" where
  "server3_ok server_fd w \<longleftrightarrow> handlers_ok server_fd (threads w) (globals3 w) \<and>
     total_clients_served (globals3 w) = of_nat (length (filter counted (threads w)))"

lemma handle_client3_counts:
  "handle_client3 th g = Some (th', h) \<Longrightarrow>
     total_clients_served h + of_bool (counted th) = total_clients_served g + of_bool (counted th')"
  by (cases th) (auto split: call_end.splits)

lemma step3_total:
  assumes "step_at handle_client3 i ths g = Some (ths', h)"
    and "total_clients_served g = of_nat (length (filter counted ths))"
  shows "total_clients_served h = of_nat (length (filter counted ths'))"
proof -
  obtain th where th: "i < length ths" "handle_client3 (ths ! i) g = Some (th, h)" "ths' = ths[i := th]"
    using assms(1) by (auto simp: step_at_def split: if_splits option.splits)
  have "of_nat (length (filter counted (ths[i := th]))) + of_bool (counted (ths ! i)) =
      (of_nat (length (filter counted ths)) + of_bool (counted th) :: u64)"
    using length_filter_update [OF th(1), of counted th] by (metis of_nat_add of_nat_of_bool)
  with handle_client3_counts [OF th(2)] assms(2) show ?thesis unfolding th(3) by (metis add_right_cancel)
qed

interpretation phase3: event_machine act3 "\<lambda>w. w = start3 server_fd" "server3_ok server_fd" for server_fd
proof
  show "server3_ok server_fd w" if "w = start3 server_fd" for w
    using that start_ok [of "[]" 0] by (simp add: server3_ok_def start3_def)
  show "server3_ok server_fd w'" if "server3_ok server_fd w" "act3 e w = Some w'" for e w w'
  proof (cases e)
    case (Accept3 fd s)
    with that handlers_ok_accept [of server_fd "threads w" "[]"] show ?thesis
      by (auto simp: server3_ok_def split: if_splits)
  next
    case AcceptFailed3
    with that show ?thesis by (auto split: if_splits)
  next
    case (Step3 i)
    with that(2) obtain ths h where st: "step_at handle_client3 i (threads w) (globals3 w) = Some (ths, h)"
      "w' = w\<lparr> threads := ths, globals3 := h \<rparr>" by (auto split: option.splits)
    from that(1) client3.step_at_ok [OF _ st(1)] step3_total [OF st(1)] show ?thesis
      by (simp add: server3_ok_def st(2))
  qed
qed

text \<open>Phase 4: the queued clients together with those the workers handle.\<close>

definition spawn :: "int \<times> stream \<Rightarrow> thread" where
  "spawn c = Spawned (fst c) (snd c)"

definition server4_ok :: "int \<Rightarrow> server4 \<Rightarrow> bool" where
  "server4_ok server_fd w \<longleftrightarrow>
     length (workers (wpool w)) = THREAD_POOL_SIZE \<and> length (stages w) = THREAD_POOL_SIZE \<and>
     handlers_ok server_fd (map spawn (tasks (wpool w)) @ stages w) (globals4 w) \<and>
     (\<forall>i < THREAD_POOL_SIZE. (\<forall>c. workers (wpool w) ! i \<noteq> Running c) \<longrightarrow> stages w ! i = Ended)"

text \<open>Pool steps that move no client keep the invariant.\<close>

lemma server4_ok_pool:
  assumes "server4_ok server_fd w" and "tasks p = tasks (wpool w)" and "length (workers p) = length (workers (wpool w))"
    and "\<And>i. i < THREAD_POOL_SIZE \<Longrightarrow> (\<forall>c. workers p ! i \<noteq> Running c) \<Longrightarrow>
      (\<forall>c. workers (wpool w) ! i \<noteq> Running c) \<or> stages w ! i = Ended"
  shows "server4_ok server_fd (w\<lparr> wpool := p \<rparr>)"
  using assms unfolding server4_ok_def by fastforce

lemma server4_ok_take:
  assumes "server4_ok server_fd w" and "tasks (wpool w) = c # cs" and "i < THREAD_POOL_SIZE" and "stages w ! i = Ended"
    and "tasks p = cs" and "workers p = (workers (wpool w))[i := Running c]"
  shows "server4_ok server_fd (w\<lparr> wpool := p, stages := (stages w)[i := spawn c] \<rparr>)"
proof -
  have len: "length (stages w) = THREAD_POOL_SIZE" "length (workers (wpool w)) = THREAD_POOL_SIZE"
    using assms(1) by (simp_all add: server4_ok_def)
  have "mset ((stages w)[i := spawn c]) + {#Ended#} = mset (stages w) + {#spawn c#}"
    using assms(3,4) len by (simp add: mset_update) (metis insert_DiffM nth_mem set_mset_mset)
  then have "mset (map spawn (c # cs) @ stages w) = mset (Ended # map spawn cs @ (stages w)[i := spawn c])" by simp
  from handlers_ok_mset [OF this] assms(1,2)
  have "handlers_ok server_fd (map spawn cs @ (stages w)[i := spawn c]) (globals4 w)"
    by (simp add: handlers_ok_Ended server4_ok_def)
  with assms len show ?thesis by (cases c) (auto simp: server4_ok_def nth_list_update)
qed

lemma pool_step_keeps:
  assumes "server4_ok server_fd w" and "pool_step e w = Some w'"
    and "(\<exists>i. e = Spurious i) \<or> (\<exists>i. e = NotifyOne i) \<or> (\<exists>i. e = Finish i \<and> stages w ! i = Ended)"
  shows "server4_ok server_fd w'"
proof -
  obtain p where p: "pool_act e (wpool w) = Some p" "w' = w\<lparr> wpool := p \<rparr>"
    using assms(2) by (auto simp: pool_step_def split: if_splits option.splits)
  show ?thesis unfolding p(2)
    using assms(3) p(1)
    by (intro server4_ok_pool [OF assms(1)])
      (auto simp: notify_one_def nth_list_update split: if_splits worker.splits)
qed

lemma check4_keeps:
  assumes ok: "server4_ok server_fd w" and "act4 (Check4 i) w = Some w'"
  shows "server4_ok server_fd w'"
proof -
  obtain p where p: "i < length (workers (wpool w))" "workers (wpool w) ! i = Ready" "p = worker_check i (wpool w)"
      "(case workers p ! i of Running (fd, s) \<Rightarrow> Some (w\<lparr> wpool := p, stages := (stages w)[i := Spawned fd s] \<rparr>)
        | _ \<Rightarrow> Some (w\<lparr> wpool := p \<rparr>)) = Some w'"
    using assms(2) by (auto simp: pool_step_def split: if_splits option.splits)
  have i: "i < THREAD_POOL_SIZE" "stages w ! i = Ended" using ok p(1,2) by (simp_all add: server4_ok_def)
  show ?thesis
  proof (cases "tasks (wpool w)")
    case Nil
    with p have "w' = w\<lparr> wpool := p \<rparr>" by (auto simp: worker_check_def split: if_splits)
    moreover have "tasks p = []" "workers p = (workers (wpool w))[i := if stop (wpool w) then Exited else Sleeping]"
      using Nil p(3) by (simp_all add: worker_check_def)
    moreover from this(2) have "workers p ! j = workers (wpool w) ! j" if "j \<noteq> i" for j using that by simp
    ultimately have tasks: "tasks p = tasks (wpool w)" and len: "length (workers p) = length (workers (wpool w))"
      and same: "\<And>j. j \<noteq> i \<Longrightarrow> workers p ! j = workers (wpool w) ! j" and w': "w' = w\<lparr> wpool := p \<rparr>" using Nil by simp_all
    have "(\<forall>c. workers (wpool w) ! j \<noteq> Running c) \<or> stages w ! j = Ended" if "\<forall>c. workers p ! j \<noteq> Running c" for j
      using that same [of j] i(2) by (cases "j = i") simp_all
    then show ?thesis unfolding w' by (intro server4_ok_pool [OF ok tasks len])
  next
    case (Cons c cs)
    with p have "w' = w\<lparr> wpool := p, stages := (stages w)[i := spawn c] \<rparr>"
      by (auto simp: worker_check_def spawn_def split: prod.splits)
    moreover have "tasks p = cs" "workers p = (workers (wpool w))[i := Running c]"
      using Cons p(3) by (simp_all add: worker_check_def)
    ultimately show ?thesis using server4_ok_take [OF ok Cons i] by simp
  qed
qed

lemma step4_keeps:
  assumes ok: "server4_ok server_fd w" and "act4 (Step4 i) w = Some w'"
  shows "server4_ok server_fd w'"
proof -
  let ?q = "map spawn (tasks (wpool w))"
  obtain ths h where st: "step_at handle_client4 i (stages w) (globals4 w) = Some (ths, h)"
    "w' = w\<lparr> stages := ths, globals4 := h \<rparr>" using assms(2) by (auto split: option.splits)
  then obtain th where th: "i < length (stages w)" "handle_client4 (stages w ! i) (globals4 w) = Some (th, h)"
    "ths = (stages w)[i := th]" by (auto simp: step_at_def split: if_splits option.splits)
  have "step_at handle_client4 (length ?q + i) (?q @ stages w) (globals4 w) = Some (?q @ ths, h)"
    using st(1) th by (simp add: step_at_def nth_append list_update_append split: if_splits)
  then have "handlers_ok server_fd (?q @ ths) h" using ok client4.step_at_ok unfolding server4_ok_def by blast
  moreover have "stages w ! i \<noteq> Ended" using th(2) by auto
  ultimately show ?thesis using ok th(1) unfolding st(2) th(3) server4_ok_def by (auto simp: nth_list_update)
qed

interpretation phase4: event_machine act4 "\<lambda>w. w = start4 server_fd" "server4_ok server_fd" for server_fd
proof
  show "server4_ok server_fd w" if "w = start4 server_fd" for w
    using that start_ok [OF refl] by (simp add: server4_ok_def start4_def new_pool_def)
  show "server4_ok server_fd w'" if "server4_ok server_fd w" "act4 e w = Some w'" for e w w'
  proof (cases e)
    case (Accept4 fd s)
    with that handlers_ok_accept [of server_fd "map spawn (tasks (wpool w))" "stages w"] show ?thesis
      by (auto simp: server4_ok_def pool_step_def enqueue_def spawn_def split: if_splits)
  qed (use that in \<open>auto intro: pool_step_keeps check4_keeps step4_keeps simp del: act4.simps
        simp: act4.simps(2,4,5,7) split: if_splits\<close>)
qed

lemma queued_not_active: "filter in_handler (map spawn q) = []"
  by (auto simp: spawn_def filter_empty_conv)

lemma active_bound: "server4_ok server_fd w \<Longrightarrow> unat (active_clients (globals4 w)) \<le> THREAD_POOL_SIZE"
proof -
  assume ok: "server4_ok server_fd w"
  then have "length (filter in_handler (stages w)) \<le> THREAD_POOL_SIZE"
    by (metis length_filter_le server4_ok_def)
  moreover have "active_clients (globals4 w) = of_nat (length (filter in_handler (stages w)))"
    using ok by (simp add: server4_ok_def handlers_ok_def queued_not_active)
  ultimately show ?thesis
    using order_trans [OF take_bit_nat_less_eq_self] by (simp add: unsigned_of_nat)
qed

section \<open>Properties\<close>

text \<open>
  C39: the counters of phase 3 are exact in every interleaving of clients and accept loop (modulo
  \<open>2^64\<close>), and sockets do not leak: once every handler has returned, no client is counted as
  active, all that were accepted are counted as served, and only the listening socket is open.
\<close>

theorem phase3_counters:
  assumes "run_events act3 es (start3 server_fd) = Some w"
  shows "active_clients (globals3 w) = of_nat (length (filter in_handler (threads w))) \<and>
    ((\<forall>th \<in> set (threads w). th = Ended) \<longrightarrow>
      active_clients (globals3 w) = 0 \<and> total_clients_served (globals3 w) = of_nat (length (threads w)) \<and>
      socks (globals3 w) = {server_fd})"
proof -
  have ok: "handlers_ok server_fd (threads w) (globals3 w)"
    "total_clients_served (globals3 w) = of_nat (length (filter counted (threads w)))"
    using phase3.run_inv [OF refl assms] by (simp_all add: server3_ok_def)
  have "filter in_handler (threads w) = []" "filter counted (threads w) = threads w" "owners fd (threads w) = 0"
    if "\<forall>th \<in> set (threads w). th = Ended" for fd
    using that unfolding owners_def by (auto simp: filter_empty_conv filter_id_conv)
  with ok show ?thesis unfolding handlers_ok_def by auto
qed

theorem phase3_counters_witness:
  "active_clients (globals3 (the (run_events act3 [Accept3 5 \<lparr> send_answers = [], recv_answers = [Got []],
      delivered = [], received = [] \<rparr>, Step3 0, Step3 0, Step3 0, Step3 0, Step3 0] (start3 3)))) = 0"
proof -
  let ?s = "\<lparr> send_answers = [], recv_answers = [Got []], delivered = [], received = [] \<rparr>"
  have "client_loop ?s = Returned \<lparr> send_answers = [], recv_answers = [], delivered = [], received = [] \<rparr>"
    by (simp add: client_loop.simps sock_recv_def)
  then obtain w where w: "run_events act3 [Accept3 5 ?s, Step3 0, Step3 0, Step3 0, Step3 0, Step3 0] (start3 3) = Some w"
    "threads w = [Ended]" by (simp add: start3_def step_at_def accepts_def)
  from phase3_counters [OF w(1)] w show ?thesis by simp
qed

text \<open>
  C37: the thread pool bounds the load: in every interleaving of phase 4 at most \<open>THREAD_POOL_SIZE\<close>
  clients are active at a time, the others wait in the queue with their sockets open, and each
  open socket other than the listening one is owned by exactly one queued or active client.
\<close>

theorem phase4_bounded:
  assumes "run_events act4 es (start4 server_fd) = Some w"
  shows "unat (active_clients (globals4 w)) \<le> THREAD_POOL_SIZE \<and>
    (\<forall>fd. owners fd (map spawn (tasks (wpool w)) @ stages w) = of_bool (fd \<in> socks (globals4 w) \<and> fd \<noteq> server_fd))"
  using phase4.run_inv [OF refl assms] active_bound [of server_fd w]
  by (simp add: server4_ok_def handlers_ok_def)

theorem phase4_bounded_witness:
  "\<exists>w. run_events act4 [Accept4 5 \<lparr> send_answers = [], recv_answers = [], delivered = [], received = [] \<rparr>, Check4 2, Step4 2] (start4 3) = Some w \<and>
     active_clients (globals4 w) = 1 \<and> owners 5 (map spawn (tasks (wpool w)) @ stages w) = 1"
proof -
  let ?es = "[Accept4 5 \<lparr> send_answers = [], recv_answers = [], delivered = [], received = [] \<rparr>, Check4 2, Step4 2]"
  obtain w where w: "run_events act4 ?es (start4 3) = Some w" "active_clients (globals4 w) = 1" "5 \<in> socks (globals4 w)"
    by (simp add: start4_def accepts_def pool_step_def new_pool_def enqueue_def THREAD_POOL_SIZE_def
        worker_check_def step_at_def)
  from phase4_bounded [OF w(1)] w show ?thesis by auto
qed

end
