(* ===== verification/Polling_Servers.thy ===== *)
theory Polling_Servers
  imports Socket_IO
begin

text \<open>
  The polling server of \<open>src/phase6_non_blocking_server.cpp\<close> with the helpers of
  \<open>include/network/SocketUtils.hpp\<close>, and the datagram server of \<open>src/phase11_udp_server.cpp\<close>.
  Each iteration of a loop gets the answers of the kernel for that iteration.
\<close>

section \<open>Data and operations\<close>

subsection \<open>SocketUtils\<close>

definition O_NONBLOCK :: u32 where
  "O_NONBLOCK = 0x800"

text \<open>The file status flags of a descriptor, before and after; the arguments say whether the two
  calls of \<open>fcntl\<close> succeed.\<close>

definition set_non_blocking :: "bool \<Rightarrow> bool \<Rightarrow> int \<Rightarrow> (int \<Rightarrow> u32) \<Rightarrow> bool \<times> (int \<Rightarrow> u32)" where
  "set_non_blocking getfl_ok setfl_ok fd flags =
     (if \<not> getfl_ok then (False, flags)
      else if \<not> setfl_ok then (False, flags)
      else (True, flags(fd := flags fd OR O_NONBLOCK)))"

definition is_would_block :: "errno \<Rightarrow> bool" where
  "is_would_block e \<longleftrightarrow> e = EAGAIN \<or> e = EWOULDBLOCK"

subsection \<open>Phase 6\<close>

record poll_server =
  client_fds :: "int list"
  poll_socks :: "int set"
  poll_flags :: "int \<Rightarrow> u32"
  poll_killed :: bool
  poll_sent :: "(int \<times> u8 list) list"

text \<open>The answers of one iteration: the accepted descriptor, the success of the calls of \<open>fcntl\<close> on
  it, and for every descriptor what \<open>recv\<close> and the \<open>send\<close> after it answer.\<close>

record poll_input =
  in_accept :: "int option"
  in_fcntl :: "bool \<times> bool"
  in_recv :: "int \<Rightarrow> recv_answer"
  in_send :: "int \<Rightarrow> send_answer"

definition accept_client :: "poll_input \<Rightarrow> poll_server \<Rightarrow> poll_server" where
  "accept_client i w =
     (case in_accept i of
        None \<Rightarrow> w
      | Some fd \<Rightarrow>
          if 0 \<le> fd \<and> fd \<notin> poll_socks w
          then let (_, fl) = set_non_blocking (fst (in_fcntl i)) (snd (in_fcntl i)) fd (poll_flags w)
               in w\<lparr> client_fds := client_fds w @ [fd], poll_socks := insert fd (poll_socks w), poll_flags := fl \<rparr>
          else w)"

text \<open>The inner loop: the clients it keeps, and the state. A client is kept when it sent data or
  has none; the echo is one call of \<open>send\<close> whose result is not looked at.\<close>

fun sweep :: "poll_input \<Rightarrow> int list \<Rightarrow> poll_server \<Rightarrow> int list \<times> poll_server" where
  "sweep i [] w = ([], w)"
| "sweep i (c_fd # rest) w =
     (if poll_killed w then (c_fd # rest, w)
      else case in_recv i c_fd of
          Got bs \<Rightarrow>
            if bs = [] then sweep i rest (w\<lparr> poll_socks := poll_socks w - {c_fd} \<rparr>)
            else
              let bytes = take (BUFFER_SIZE - 1) bs;
                  w = (case in_send i c_fd of
                         Took k \<Rightarrow> w\<lparr> poll_sent := poll_sent w @ [(c_fd, take k bytes)] \<rparr>
                       | SendErr e \<Rightarrow> if e = EPIPE then w\<lparr> poll_killed := True \<rparr> else w);
                  (kept, w) = sweep i rest w
              in (c_fd # kept, w)
        | RecvErr e \<Rightarrow>
            if is_would_block e then let (kept, w) = sweep i rest w in (c_fd # kept, w)
            else sweep i rest (w\<lparr> poll_socks := poll_socks w - {c_fd} \<rparr>))"

definition poll_iteration :: "poll_input \<Rightarrow> poll_server \<Rightarrow> poll_server" where
  "poll_iteration i w =
     (if poll_killed w then w
      else let w = accept_client i w; (kept, w) = sweep i (client_fds w) w in w\<lparr> client_fds := kept \<rparr>)"

definition LOOPS :: nat where
  "LOOPS = 30"

definition start6 :: "int \<Rightarrow> (int \<Rightarrow> u32) \<Rightarrow> poll_server" where
  "start6 server_fd flags =
     \<lparr> client_fds = [], poll_socks = {server_fd}, poll_flags = flags, poll_killed = False, poll_sent = [] \<rparr>"

text \<open>The loop of \<open>LOOPS\<close> iterations and the cleanup, which closes the clients and the listener.\<close>

definition poll_loop :: "(nat \<Rightarrow> poll_input) \<Rightarrow> nat \<Rightarrow> poll_server \<Rightarrow> poll_server" where
  "poll_loop inp n w = fold (\<lambda>k. poll_iteration (inp k)) [0..<n] w"

definition phase6_main :: "int \<Rightarrow> (int \<Rightarrow> u32) \<Rightarrow> (nat \<Rightarrow> poll_input) \<Rightarrow> poll_server" where
  "phase6_main server_fd flags inp =
     (let w = poll_loop inp LOOPS (start6 server_fd flags)
      in if poll_killed w then w
         else w\<lparr> poll_socks := poll_socks w - set (client_fds w) - {server_fd} \<rparr>)"

subsection \<open>Phase 11\<close>

definition MAX_PAYLOAD :: nat where
  "MAX_PAYLOAD = 65507"

type_synonym address = "u32 \<times> u16"

record udp_server =
  total_datagrams :: u64
  total_bytes :: u64
  udp_sent :: "(address \<times> u8 list) list"
  udp_warned :: nat

text \<open>One event on the socket: the datagram \<open>recvfrom\<close> takes from the queue, with its sender, or an
  error; and whether \<open>sendto\<close> succeeds. \<open>recvfrom\<close> discards what does not fit into the buffer.\<close>

type_synonym udp_event = "(address \<times> u8 list) option \<times> bool"

definition on_datagram :: "udp_event \<Rightarrow> udp_server \<Rightarrow> udp_server" where
  "on_datagram ev w =
     (case fst ev of
        None \<Rightarrow> w
      | Some (client_addr, data) \<Rightarrow>
          let bytes = take (MAX_PAYLOAD - 1) data
          in w\<lparr> total_datagrams := total_datagrams w + 1,
                total_bytes := total_bytes w + of_nat (length bytes),
                udp_sent := (if snd ev then udp_sent w @ [(client_addr, bytes)] else udp_sent w),
                udp_warned := (if length bytes = MAX_PAYLOAD - 1 then udp_warned w + 1 else udp_warned w) \<rparr>)"

datatype udp_wait = UdpFailed | UdpIdle | UdpEvents "(int \<times> udp_event) list"

fun udp_loop :: "int \<Rightarrow> udp_wait list \<Rightarrow> udp_server \<Rightarrow> udp_server" where
  "udp_loop udp_fd [] w = w"
| "udp_loop udp_fd (UdpFailed # bs) w = w"
| "udp_loop udp_fd (UdpIdle # bs) w = udp_loop udp_fd bs w"
| "udp_loop udp_fd (UdpEvents es # bs) w =
     udp_loop udp_fd bs (fold (\<lambda>(fd, ev) w. if fd \<noteq> udp_fd then w else on_datagram ev w) es w)"

definition start11 :: udp_server where
  "start11 = \<lparr> total_datagrams = 0, total_bytes = 0, udp_sent = [], udp_warned = 0 \<rparr>"

section \<open>Specification\<close>

text \<open>Phase 6: the open sockets are the listener and the clients in the list, each once.\<close>

definition poll_ok :: "int \<Rightarrow> poll_server \<Rightarrow> bool" where
  "poll_ok server_fd w \<longleftrightarrow> distinct (client_fds w) \<and> server_fd \<notin> set (client_fds w) \<and>
     poll_socks w = insert server_fd (set (client_fds w))"

text \<open>Phase 11: the datagrams the loop gets to, in order.\<close>

fun arrivals :: "int \<Rightarrow> udp_wait list \<Rightarrow> udp_event list" where
  "arrivals udp_fd [] = []"
| "arrivals udp_fd (UdpFailed # bs) = []"
| "arrivals udp_fd (UdpIdle # bs) = arrivals udp_fd bs"
| "arrivals udp_fd (UdpEvents es # bs) = map snd (filter (\<lambda>e. fst e = udp_fd) es) @ arrivals udp_fd bs"

fun datagrams :: "udp_event list \<Rightarrow> (address \<times> u8 list) list" where
  "datagrams [] = []"
| "datagrams ((None, ok) # es) = datagrams es"
| "datagrams ((Some d, ok) # es) = d # datagrams es"

definition fits :: "address \<times> u8 list \<Rightarrow> bool" where
  "fits d \<longleftrightarrow> length (snd d) < MAX_PAYLOAD"

section \<open>Lemmas\<close>

lemma sweep_spec:
  assumes "sweep i cs w = (kept, w')" and "distinct cs"
  shows "set kept \<subseteq> set cs \<and> distinct kept \<and> poll_socks w' = poll_socks w - (set cs - set kept)"
  using assms
proof (induction cs arbitrary: w kept w')
  case (Cons c cs)
  have IH: "set k \<subseteq> set cs \<and> distinct k \<and> poll_socks u' = poll_socks u - (set cs - set k)" if "sweep i cs u = (k, u')" for u k u'
    using Cons.IH [OF that] Cons.prems(2) by simp
  show ?case
  proof (cases "poll_killed w")
    case True
    with Cons.prems show ?thesis by auto
  next
    case False
    with Cons.prems show ?thesis
      by (auto simp: Let_def split: recv_answer.splits send_answer.splits if_splits prod.splits dest!: IH)
  qed
qed auto

lemma accept_client_ok: "poll_ok server_fd w \<Longrightarrow> poll_ok server_fd (accept_client i w)"
  by (auto simp: poll_ok_def accept_client_def split: option.splits prod.splits)

lemma poll_iteration_ok: "poll_ok server_fd w \<Longrightarrow> poll_ok server_fd (poll_iteration i w)"
proof (cases "poll_killed w")
  case False
  assume ok: "poll_ok server_fd w"
  let ?u = "accept_client i w"
  obtain kept w' where sw: "sweep i (client_fds ?u) ?u = (kept, w')" by fastforce
  have u: "poll_ok server_fd ?u" by (rule accept_client_ok [OF ok])
  then have "set kept \<subseteq> set (client_fds ?u)" "distinct kept" "poll_socks w' = poll_socks ?u - (set (client_fds ?u) - set kept)"
    using sweep_spec [OF sw] by (auto simp: poll_ok_def)
  with u False sw show ?thesis by (auto simp: poll_iteration_def poll_ok_def)
qed (simp add: poll_iteration_def)

lemma poll_loop_ok: "poll_ok server_fd w \<Longrightarrow> poll_ok server_fd (poll_loop inp n w)"
  unfolding poll_loop_def by (induction n) (simp_all add: poll_iteration_ok)

lemma udp_loop_fold: "udp_loop udp_fd bs w = fold on_datagram (arrivals udp_fd bs) w"
proof (induction udp_fd bs w rule: udp_loop.induct)
  case (4 udp_fd es bs w)
  have "fold (\<lambda>(fd, ev) w. if fd \<noteq> udp_fd then w else on_datagram ev w) es w =
      fold on_datagram (map snd (filter (\<lambda>e. fst e = udp_fd) es)) w" for w
    by (induction es arbitrary: w) auto
  with 4 show ?case by simp
qed simp_all

text \<open>What any sequence of events adds to the state.\<close>

definition received_part :: "address \<times> u8 list \<Rightarrow> address \<times> u8 list" where
  "received_part d = (fst d, take (MAX_PAYLOAD - 1) (snd d))"

lemma received_part_fits: "fits d \<Longrightarrow> received_part d = d"
  by (cases d) (auto simp: fits_def received_part_def)

lemma on_datagrams:
  assumes "list_all snd es"
  shows "udp_sent (fold on_datagram es w) = udp_sent w @ map received_part (datagrams es) \<and>
    total_datagrams (fold on_datagram es w) = total_datagrams w + of_nat (length (datagrams es)) \<and>
    total_bytes (fold on_datagram es w) = total_bytes w + of_nat (sum_list (map (length \<circ> snd \<circ> received_part) (datagrams es)))"
  using assms
proof (induction es arbitrary: w rule: datagrams.induct)
  case (2 ok es)
  then show ?case by (simp add: on_datagram_def)
next
  case (3 d ok es)
  obtain a bs where "d = (a, bs)" by (cases d)
  with 3 show ?case by (simp add: on_datagram_def received_part_def Let_def algebra_simps)
qed simp

section \<open>Properties\<close>

text \<open>
  the polling server of phase 6 neither leaks a socket nor closes one twice: whatever the
  kernel answers in its iterations, the sockets open before the cleanup are the listener and the
  clients in the list, each once; and a process that is not killed by \<open>SIGPIPE\<close> ends with no socket
  open.
\<close>

theorem phase6_closes_all:
  "poll_ok server_fd (poll_loop inp LOOPS (start6 server_fd flags)) \<and>
   (\<not> poll_killed (phase6_main server_fd flags inp) \<longrightarrow> poll_socks (phase6_main server_fd flags inp) = {})"
proof -
  have "poll_ok server_fd (poll_loop inp LOOPS (start6 server_fd flags))"
    by (rule poll_loop_ok) (simp add: poll_ok_def start6_def)
  then show ?thesis by (auto simp: phase6_main_def Let_def poll_ok_def)
qed

theorem phase6_closes_all_witness:
  "poll_socks (phase6_main 3 (\<lambda>_. 0) (\<lambda>k. \<lparr> in_accept = Some 10, in_fcntl = (False, False),
     in_recv = (\<lambda>_. Got []), in_send = (\<lambda>_. Took 0) \<rparr>)) = {}"
proof -
  let ?i = "\<lparr> in_accept = Some 10, in_fcntl = (False, False), in_recv = (\<lambda>_. Got []), in_send = (\<lambda>_. Took 0) \<rparr>"
  let ?w = "start6 3 (\<lambda>_. 0)"
  have "poll_iteration ?i ?w = ?w"
    by (simp add: poll_iteration_def accept_client_def start6_def set_non_blocking_def)
  then have "poll_loop (\<lambda>_. ?i) n ?w = ?w" for n by (induction n) (simp_all add: poll_loop_def)
  then have "\<not> poll_killed (phase6_main 3 (\<lambda>_. 0) (\<lambda>_. ?i))"
    by (simp add: phase6_main_def Let_def start6_def)
  with phase6_closes_all [of 3 "\<lambda>_. ?i" "\<lambda>_. 0"] show ?thesis by simp
qed

text \<open>
  the datagram server of phase 11 answers every datagram it receives, in order, to its sender,
  with the first \<open>MAX_PAYLOAD - 1\<close> bytes, and counts the datagrams and the bytes received: a
  datagram that is shorter than \<open>MAX_PAYLOAD\<close>, the largest payload UDP allows over IPv4, comes back
  unchanged, and one of exactly this size comes back without its last byte.
\<close>

theorem udp_echo:
  assumes "list_all snd (arrivals udp_fd bs)"
  shows "(let w = udp_loop udp_fd bs start11; ds = datagrams (arrivals udp_fd bs) in
      udp_sent w = map (\<lambda>d. (fst d, take (MAX_PAYLOAD - 1) (snd d))) ds \<and>
      total_datagrams w = of_nat (length ds) \<and>
      total_bytes w = of_nat (sum_list (map (length \<circ> snd) (udp_sent w))) \<and>
      (list_all fits ds \<longrightarrow> udp_sent w = ds))"
proof -
  let ?w = "udp_loop udp_fd bs start11" and ?ds = "datagrams (arrivals udp_fd bs)"
  have w: "udp_sent ?w = map received_part ?ds" "total_datagrams ?w = of_nat (length ?ds)"
    "total_bytes ?w = of_nat (sum_list (map (length \<circ> snd \<circ> received_part) ?ds))"
    using on_datagrams [OF assms, of start11] by (simp_all add: udp_loop_fold start11_def)
  have "map received_part ?ds = ?ds" if "list_all fits ?ds"
    using that by (simp add: list_all_iff map_idI received_part_fits)
  with w show ?thesis unfolding Let_def received_part_def by (auto simp: comp_def)
qed

theorem udp_echo_witness:
  "udp_sent (udp_loop 4 [UdpIdle, UdpEvents [(4, Some ((1, 2), [7, 8]), True)]] start11) = [((1, 2), [7, 8])]"
  using udp_echo [of 4 "[UdpIdle, UdpEvents [(4, Some ((1, 2), [7, 8]), True)]]"]
  by (simp add: Let_def fits_def MAX_PAYLOAD_def)

end
