(* ===== verification/Stream_Format.thy ===== *)
theory Stream_Format
  imports Complex_Main Gateway_Prelude
begin

text \<open>
  The part of \<open>std::ostream\<close> the programs format their reports with: \<open>std::to_string\<close>, insertion of strings, integers and
  fixed-point numbers under \<open>std::setw\<close>, \<open>std::setfill\<close>, \<open>std::hex\<close>, \<open>std::dec\<close>, \<open>std::left\<close>, \<open>std::fixed\<close> and
  \<open>std::setprecision\<close>. The width is used up by one insertion; the other settings stay on the stream. A number of type \<open>double\<close>
  is a real number, rounded to the digits shown with ties to even.
\<close>

section \<open>Numbers as text\<close>

fun to_string :: "nat \<Rightarrow> string" where
  "to_string n = (if n < 10 then [char_of (48 + n)] else to_string (n div 10) @ [char_of (48 + n mod 10)])"

declare to_string.simps [simp del]

fun to_hex :: "nat \<Rightarrow> string" where
  "to_hex n = (if n < 16 then [hex_digit n] else to_hex (n div 16) @ [hex_digit (n mod 16)])"

declare to_hex.simps [simp del]

definition int_text :: "int \<Rightarrow> string" where
  "int_text n = (if n < 0 then CHR ''-'' # to_string (nat (- n)) else to_string (nat n))"

text \<open>Rounding to the nearest integer, ties to even.\<close>

definition round_even :: "real \<Rightarrow> int" where
  "round_even x =
     (let f = \<lfloor>x\<rfloor>; d = x - of_int f
      in if d < 1 / 2 \<or> d = 1 / 2 \<and> even f then f else f + 1)"

definition zero_padded :: "nat \<Rightarrow> nat \<Rightarrow> string" where
  "zero_padded k n = replicate (k - length (to_string n)) CHR ''0'' @ to_string n"

text \<open>\<open>std::fixed << std::setprecision(k) << x\<close>.\<close>

definition fixed_text :: "nat \<Rightarrow> real \<Rightarrow> string" where
  "fixed_text k x =
     (let m = nat (round_even (\<bar>x\<bar> * 10 ^ k))
      in (if x < 0 then ''-'' else []) @ to_string (m div 10 ^ k) @
         (if k = 0 then [] else CHR ''.'' # zero_padded k (m mod 10 ^ k)))"

section \<open>The stream\<close>

record ostream =
  shown :: string
  os_width :: nat
  os_fill :: char
  os_hex :: bool
  os_left :: bool
  os_prec :: nat

definition cout :: ostream where
  "cout = \<lparr> shown = [], os_width = 0, os_fill = CHR '' '', os_hex = False, os_left = False, os_prec = 6 \<rparr>"

definition padded :: "ostream \<Rightarrow> string \<Rightarrow> string" where
  "padded os s =
     (let p = replicate (os_width os - length s) (os_fill os) in if os_left os then s @ p else p @ s)"

definition insert_text :: "string \<Rightarrow> ostream \<Rightarrow> ostream" where
  "insert_text s os = os\<lparr> shown := shown os @ padded os s, os_width := 0 \<rparr>"

definition put_nat :: "nat \<Rightarrow> ostream \<Rightarrow> ostream" where
  "put_nat n os = insert_text (if os_hex os then to_hex n else to_string n) os"

definition put_fixed :: "real \<Rightarrow> ostream \<Rightarrow> ostream" where
  "put_fixed x os = insert_text (fixed_text (os_prec os) x) os"

definition setw :: "nat \<Rightarrow> ostream \<Rightarrow> ostream" where
  "setw n os = os\<lparr> os_width := n \<rparr>"

definition setfill :: "char \<Rightarrow> ostream \<Rightarrow> ostream" where
  "setfill c os = os\<lparr> os_fill := c \<rparr>"

definition set_hex :: "bool \<Rightarrow> ostream \<Rightarrow> ostream" where
  "set_hex b os = os\<lparr> os_hex := b \<rparr>"

definition set_left :: "ostream \<Rightarrow> ostream" where
  "set_left os = os\<lparr> os_left := True \<rparr>"

definition setprecision :: "nat \<Rightarrow> ostream \<Rightarrow> ostream" where
  "setprecision k os = os\<lparr> os_prec := k \<rparr>"

text \<open>A chain of insertions, and a whole line.\<close>

definition emit :: "(ostream \<Rightarrow> ostream) list \<Rightarrow> ostream \<Rightarrow> ostream" where
  "emit fs os = fold (\<lambda>f. f) fs os"

definition newline :: string where
  "newline = [CHR 0x0A]"

lemmas stream_defs = insert_text_def put_nat_def put_fixed_def setw_def setfill_def set_hex_def set_left_def setprecision_def
  emit_def padded_def

section \<open>Lemmas\<close>

lemma emit_simps [simp]: "emit [] os = os" "emit (f # fs) os = emit fs (f os)"
  by (simp_all add: emit_def)

lemma digit_char:
  assumes "d < 10"
  shows "is_digit (char_of (48 + d))" and "of_char (char_of (48 + d :: nat) :: char) = 48 + d"
proof -
  show c: "of_char (char_of (48 + d :: nat) :: char) = 48 + d" using assms by simp
  show "is_digit (char_of (48 + d))" using assms by (simp add: is_digit_def)
qed

lemma to_string_ne [simp]: "to_string n \<noteq> []"
  by (subst to_string.simps) simp

lemma to_string_digits: "list_all is_digit (to_string n)"
proof (induction n rule: to_string.induct)
  case (1 n)
  then show ?case using digit_char(1) [of n] digit_char(1) [of "n mod 10"] by (subst to_string.simps) simp
qed

lemma digits_val_append: "list_all is_digit ds \<Longrightarrow> digits_val acc (ds @ cs) = digits_val (digits_val acc ds) cs"
  by (induction ds arbitrary: acc) simp_all

lemma digits_val_to_string: "digits_val 0 (to_string n) = int n"
proof (induction n rule: to_string.induct)
  case (1 n)
  show ?case
  proof (cases "n < 10")
    case True
    then show ?thesis using digit_char [OF True] by (simp add: to_string.simps [of n])
  next
    case False
    then have "digits_val 0 (to_string n) = 10 * int (n div 10) + int (n mod 10)" using 1 digit_char [of "n mod 10"]
      by (simp add: to_string.simps [of n] digits_val_append to_string_digits)
    also have "\<dots> = int n" by (metis of_nat_add of_nat_mult of_nat_numeral mult_div_mod_eq)
    finally show ?thesis .
  qed
qed

lemma to_string_inj: "to_string m = to_string n \<Longrightarrow> m = n"
  by (metis digits_val_to_string of_nat_eq_iff)

lemma digit_not_special: "is_digit c \<Longrightarrow> c \<noteq> CHR 0x0A \<and> c \<noteq> CHR '' '' \<and> c \<noteq> CHR ''.'' \<and> c \<noteq> CHR ''-'' \<and> c \<noteq> CHR ''+''"
  by (auto simp: is_digit_def)

lemma to_string_length: "length (to_string n) \<le> k \<longleftrightarrow> n < 10 ^ k \<and> 0 < k"
proof (induction k arbitrary: n)
  case (Suc k)
  show ?case
  proof (cases "n < 10")
    case True
    then have "n < 10 ^ Suc k" using power_increasing [of 1 "Suc k" "10 :: nat"] by (simp only: power_one_right) linarith
    with True show ?thesis by (simp add: to_string.simps [of n])
  next
    case False
    then show ?thesis using Suc [of "n div 10"]
      by (cases k) (auto simp: to_string.simps [of n] div_less_iff_less_mult mult.commute)
  qed
qed simp

lemma zero_padded_length: "n < 10 ^ k \<Longrightarrow> 0 < k \<Longrightarrow> length (zero_padded k n) = k"
  using to_string_length [of n k] by (simp add: zero_padded_def)

lemma strto_to_string: "strto (to_string n) = Some (False, int n)"
proof -
  obtain c cs where cs: "to_string n = c # cs" by (cases "to_string n") auto
  then have d: "is_digit c" using to_string_digits [of n] by simp
  then have "\<not> is_space c" "c \<noteq> CHR ''-''" "c \<noteq> CHR ''+''" by (auto simp: is_digit_def is_space_def)
  with cs d show ?thesis using digits_val_to_string [of n] by (simp add: strto_def unsigned_part_def)
qed

lemma stoi_to_string: "n < 2 ^ 31 \<Longrightarrow> stoi (to_string n) = Inr (int n)"
  by (simp add: stoi_def strto_to_string signed_value_def in_int32_def)

text \<open>Reading a fixed-point number back.\<close>

definition fixed_value :: "nat \<Rightarrow> string \<Rightarrow> real" where
  "fixed_value k s = (if s \<noteq> [] \<and> hd s = CHR ''-'' then - 1 else 1) * of_int (digits_val 0 (filter is_digit s)) / 10 ^ k"

lemma digits_val_shift: "list_all is_digit ds \<Longrightarrow> digits_val acc ds = acc * 10 ^ length ds + digits_val 0 ds"
proof (induction ds arbitrary: acc)
  case (Cons d ds)
  from Cons.IH [of "10 * acc + (int (of_char d) - 48)"] Cons.IH [of "int (of_char d) - 48"] Cons.prems
  show ?case by (simp add: algebra_simps)
qed simp

lemma zero_padded_digits: "list_all is_digit (zero_padded k n)"
  using to_string_digits [of n] by (auto simp: zero_padded_def list_all_iff is_digit_def)

lemma digits_val_zeros: "digits_val 0 (replicate j CHR ''0'' @ ds) = digits_val 0 ds"
  by (induction j) (simp_all add: is_digit_def)

lemma digits_val_zero_padded:
  "n < 10 ^ k \<Longrightarrow> 0 < k \<Longrightarrow> digits_val acc (zero_padded k n) = acc * 10 ^ k + int n"
  using digits_val_shift [OF zero_padded_digits, of acc k n] zero_padded_length [of n k]
  by (simp add: zero_padded_def digits_val_zeros digits_val_to_string)

lemma filter_digits: "list_all is_digit ds \<Longrightarrow> filter is_digit ds = ds"
  by (induction ds) simp_all

lemma fixed_digits: "digits_val 0 (filter is_digit (fixed_text k x)) = int (nat (round_even (\<bar>x\<bar> * 10 ^ k)))"
proof -
  let ?m = "nat (round_even (\<bar>x\<bar> * 10 ^ k))"
  have "filter is_digit (fixed_text k x) = to_string (?m div 10 ^ k) @ (if k = 0 then [] else zero_padded k (?m mod 10 ^ k))"
    by (simp add: fixed_text_def Let_def filter_digits to_string_digits zero_padded_digits) (simp add: is_digit_def)
  then have "digits_val 0 (filter is_digit (fixed_text k x)) = int (?m div 10 ^ k) * 10 ^ k + int (?m mod 10 ^ k)"
    by (cases "k = 0") (simp_all add: digits_val_append to_string_digits digits_val_to_string digits_val_zero_padded)
  also have "\<dots> = int (?m div 10 ^ k * 10 ^ k + ?m mod 10 ^ k)" by simp
  also have "\<dots> = int ?m" by (simp only: div_mult_mod_eq)
  finally show ?thesis .
qed

lemma round_even_error: "\<bar>of_int (round_even x) - x\<bar> \<le> 1 / 2"
proof -
  have "of_int \<lfloor>x\<rfloor> \<le> x" "x < of_int \<lfloor>x\<rfloor> + 1" by linarith+
  then show ?thesis by (auto simp: round_even_def Let_def abs_le_iff field_simps)
qed

lemma round_even_nonneg: "0 \<le> x \<Longrightarrow> 0 \<le> round_even x"
  by (simp add: round_even_def Let_def)

lemma fixed_sign: "(fixed_text k x \<noteq> [] \<and> hd (fixed_text k x) = CHR ''-'') \<longleftrightarrow> x < 0"
proof (cases "x < 0")
  case False
  let ?n = "nat (round_even (\<bar>x\<bar> * 10 ^ k)) div 10 ^ k"
  have "is_digit (hd (to_string ?n))" using to_string_digits [of ?n] by (cases "to_string ?n") auto
  then have "hd (to_string ?n) \<noteq> CHR ''-''" using digit_not_special by blast
  with False show ?thesis by (simp add: fixed_text_def Let_def)
qed (simp add: fixed_text_def Let_def)

lemma fixed_text_error: "\<bar>fixed_value k (fixed_text k x) - x\<bar> \<le> 1 / (2 * 10 ^ k)"
proof -
  let ?y = "\<bar>x\<bar> * 10 ^ k"
  have y: "of_int (int (nat (round_even ?y))) = (of_int (round_even ?y) :: real)"
    using round_even_nonneg [of ?y] by simp
  have "fixed_value k (fixed_text k x) = (if x < 0 then - 1 else 1) * of_int (round_even ?y) / 10 ^ k"
    unfolding fixed_value_def fixed_sign fixed_digits y ..
  then have "fixed_value k (fixed_text k x) - x = (if x < 0 then - 1 else 1) * ((of_int (round_even ?y) - ?y) / 10 ^ k)"
    by (cases "x < 0") (simp_all add: diff_divide_distrib)
  then have "\<bar>fixed_value k (fixed_text k x) - x\<bar> = \<bar>of_int (round_even ?y) - ?y\<bar> / 10 ^ k"
    by (simp add: abs_mult)
  also have "\<dots> \<le> (1 / 2) / 10 ^ k" by (intro divide_right_mono round_even_error) simp
  finally show ?thesis by simp
qed

text \<open>A field that fits its width, and where the next one starts.\<close>

lemma padded_length: "length (padded os s) = max (os_width os) (length s)"
  by (simp add: padded_def Let_def max_def)

lemma shown_insert: "shown (insert_text s os) = shown os @ padded os s" "os_width (insert_text s os) = 0"
  by (simp_all add: insert_text_def)

lemma emit_append: "emit (fs @ gs) os = emit gs (emit fs os)"
  by (simp add: emit_def)

text \<open>A horizontal rule of the reports.\<close>

definition rule100 :: string where
  "rule100 = replicate 100 CHR ''='' @ newline"

text \<open>A stream settled for the next output; the fill character does not matter as long as no width is set.\<close>

definition settled :: "ostream \<Rightarrow> bool" where
  "settled os \<longleftrightarrow> os_width os = 0 \<and> \<not> os_hex os \<and> \<not> os_left os"

lemma settled_insert [simp]:
  "settled os \<Longrightarrow> settled (insert_text s os)" "settled os \<Longrightarrow> shown (insert_text s os) = shown os @ s"
  "settled os \<Longrightarrow> settled (put_nat n os)" "settled os \<Longrightarrow> shown (put_nat n os) = shown os @ to_string n"
  "os_fill (insert_text s os) = os_fill os" "os_fill (put_nat n os) = os_fill os"
  by (simp_all add: settled_def stream_defs Let_def)

lemma settled_cout [simp]: "settled cout" "shown cout = []"
  by (simp_all add: settled_def cout_def)

end
