(* ===== verification/Double_Arith.thy ===== *)
theory Double_Arith
  imports Stream_Format
begin

text \<open>
  The arithmetic of type \<open>double\<close> as the statistics of \<open>include/benchmark/BenchmarkingSuite.hpp\<close> use it: the result of an
  operation is the exact one rounded to 53 significant bits, to the nearest such number and to the even one of two that are
  equally near. The exponent is unbounded, so that there is no overflow, underflow or infinity: the numbers the program computes
  with are latencies in microseconds and their sums. A locale states what the error analysis uses of a rounding.
\<close>

section \<open>Rounding to 53 bits\<close>

text \<open>The unit in the last place of the numbers in the binade of \<open>x\<close>.\<close>

definition ulp :: "real \<Rightarrow> real" where
  "ulp x = 2 powr (of_int \<lfloor>log 2 \<bar>x\<bar>\<rfloor> - 52)"

definition round_double :: "real \<Rightarrow> real" where
  "round_double x = of_int (round_even (x / ulp x)) * ulp x"

section \<open>Sums under a rounding with a relative error\<close>

locale relative_rounding =
  fixes rd :: "real \<Rightarrow> real"
    and u :: real
  assumes rd_error: "\<bar>rd x - x\<bar> \<le> \<bar>x\<bar> * u"
    and unit: "0 \<le> u" "u < 1"
begin

lemma rd_zero: "rd 0 = 0"
  using rd_error [of 0] by simp

lemma rd_bounds:
  assumes "0 \<le> x"
  shows "x * (1 - u) \<le> rd x" and "rd x \<le> x * (1 + u)" and "0 \<le> rd x"
proof -
  show "x * (1 - u) \<le> rd x" "rd x \<le> x * (1 + u)"
    using rd_error [of x] assms by (auto simp: abs_le_iff algebra_simps)
  moreover have "0 \<le> x * (1 - u)" using assms unit by simp
  ultimately show "0 \<le> rd x" by linarith
qed

text \<open>One more operation on a number that is known up to \<open>k\<close> roundings.\<close>

lemma rd_step:
  assumes "0 \<le> a" and "a * (1 - u) ^ k \<le> x" and "x \<le> a * (1 + u) ^ k"
  shows "a * (1 - u) ^ Suc k \<le> rd x" and "rd x \<le> a * (1 + u) ^ Suc k"
proof -
  have "0 \<le> a * (1 - u) ^ k" using assms(1) unit by simp
  then have x: "0 \<le> x" using assms(2) by linarith
  have "a * (1 - u) ^ k * (1 - u) \<le> x * (1 - u)" "x * (1 + u) \<le> a * (1 + u) ^ k * (1 + u)"
    using assms(2,3) unit by (intro mult_right_mono; simp)+
  with rd_bounds [OF x] show "a * (1 - u) ^ Suc k \<le> rd x" "rd x \<le> a * (1 + u) ^ Suc k" by (simp_all add: algebra_simps)
qed

lemma accumulate_bounds:
  assumes "\<forall>x\<in>set xs. 0 \<le> x" and "0 \<le> a" and "a * (1 - u) ^ k \<le> s" and "s \<le> a * (1 + u) ^ k"
  shows "(a + sum_list xs) * (1 - u) ^ (k + length xs) \<le> foldl (\<lambda>s x. rd (s + x)) s xs \<and>
    foldl (\<lambda>s x. rd (s + x)) s xs \<le> (a + sum_list xs) * (1 + u) ^ (k + length xs)"
  using assms
proof (induction xs arbitrary: a s k)
  case (Cons x xs)
  have x: "0 \<le> x" using Cons.prems(1) by simp
  have "(1 - u) ^ k \<le> 1" "1 \<le> (1 + u) ^ k" using unit by (simp_all add: power_le_one)
  then have "x * (1 - u) ^ k \<le> x" "x \<le> x * (1 + u) ^ k"
    using x mult_left_mono [of "(1 - u) ^ k" 1 x] mult_left_mono [of 1 "(1 + u) ^ k" x] by simp_all
  then have "(a + x) * (1 - u) ^ k \<le> s + x" "s + x \<le> (a + x) * (1 + u) ^ k"
    using Cons.prems(3,4) by (simp_all add: distrib_right)
  from rd_step [OF _ this] have s: "(a + x) * (1 - u) ^ Suc k \<le> rd (s + x)" "rd (s + x) \<le> (a + x) * (1 + u) ^ Suc k"
    using Cons.prems(2) x by simp_all
  show ?case using Cons.IH [OF _ _ s] Cons.prems(1,2) x by (simp add: add.assoc)
qed simp

end

section \<open>Lemmas\<close>

lemma ulp_pos [simp]: "0 < ulp x"
  by (simp add: ulp_def)

lemma ulp_bounds:
  assumes "x \<noteq> 0"
  shows "ulp x * 2 ^ 52 \<le> \<bar>x\<bar>" and "\<bar>x\<bar> < ulp x * 2 ^ 53"
proof -
  let ?e = "\<lfloor>log 2 \<bar>x\<bar>\<rfloor>"
  have "2 powr of_int ?e \<le> 2 powr log 2 \<bar>x\<bar>" "2 powr log 2 \<bar>x\<bar> < 2 powr (of_int ?e + 1)" by simp_all
  moreover have "2 powr log 2 \<bar>x\<bar> = \<bar>x\<bar>" using assms by simp
  moreover have "ulp x * 2 ^ 52 = 2 powr of_int ?e" "ulp x * 2 ^ 53 = 2 powr (of_int ?e + 1)"
    unfolding ulp_def by (simp_all add: powr_diff powr_add)
  ultimately show "ulp x * 2 ^ 52 \<le> \<bar>x\<bar>" "\<bar>x\<bar> < ulp x * 2 ^ 53" by simp_all
qed

lemma round_double_error: "\<bar>round_double x - x\<bar> \<le> \<bar>x\<bar> * (1 / 2 ^ 53)"
proof (cases "x = 0")
  case False
  have "round_double x - x = (of_int (round_even (x / ulp x)) - x / ulp x) * ulp x"
    by (simp add: round_double_def left_diff_distrib less_imp_neq [OF ulp_pos, symmetric])
  then have "\<bar>round_double x - x\<bar> = \<bar>of_int (round_even (x / ulp x)) - x / ulp x\<bar> * ulp x"
    by (simp add: abs_mult less_imp_le)
  also have "\<dots> \<le> 1 / 2 * ulp x" by (intro mult_right_mono round_even_error less_imp_le ulp_pos)
  also have "\<dots> \<le> \<bar>x\<bar> * (1 / 2 ^ 53)" using ulp_bounds(1) [OF False] by simp
  finally show ?thesis .
qed (simp add: round_double_def round_even_def)

interpretation double: relative_rounding round_double "1 / 2 ^ 53"
  by unfold_locales (rule round_double_error, simp_all)

lemma round_even_near:
  assumes "\<bar>x - of_int k\<bar> < 1 / 2"
  shows "round_even x = k"
proof -
  have "\<bar>of_int (round_even x) - of_int k\<bar> < (1 :: real)"
    using assms round_even_error [of x] by linarith
  then show ?thesis by linarith
qed

text \<open>A number in a known binade is rounded there.\<close>

lemma round_double_binade:
  assumes "2 powr of_int e \<le> \<bar>x\<bar>" and "\<bar>x\<bar> < 2 powr (of_int e + 1)"
  shows "round_double x = of_int (round_even (x * 2 powr (52 - of_int e))) / 2 powr (52 - of_int e)"
proof -
  have "0 < \<bar>x\<bar>" using assms(1) by (smt (verit) powr_gt_zero)
  then have "of_int e \<le> log 2 \<bar>x\<bar>" "log 2 \<bar>x\<bar> < of_int e + 1"
    using assms by (simp_all add: le_log_iff log_less_iff)
  then have "\<lfloor>log 2 \<bar>x\<bar>\<rfloor> = e" by (simp add: floor_eq_iff)
  moreover have "2 powr (of_int e - 52) = 1 / 2 powr (52 - of_int e :: real)"
    by (metis minus_diff_eq powr_minus_divide)
  ultimately show ?thesis by (simp add: round_double_def ulp_def)
qed

text \<open>A number very close to an integer below \<open>2 ^ 53\<close> is rounded to it; in particular these integers are exact.\<close>

lemma round_double_near:
  assumes "0 < m" and "m < 2 ^ 53" and "\<bar>x - of_int m\<bar> \<le> of_int m / 2 ^ 55"
  shows "round_double x = of_int m"
proof -
  define e where "e = \<lfloor>log 2 \<bar>x\<bar>\<rfloor>"
  have "m \<le> 2 ^ 53 - 1" using assms(2) by simp
  then have "real_of_int m \<le> of_int (2 ^ 53 - 1)" by (simp only: of_int_le_iff)
  moreover have "0 < real_of_int m" using assms(1) by simp
  moreover have "x - of_int m \<le> of_int m / 2 ^ 55" "of_int m - x \<le> of_int m / 2 ^ 55" using assms(3) by linarith+
  ultimately have x: "0 < x" "x < 2 ^ 53" "of_int m \<le> 2 * x" by (simp_all add: field_simps)
  have "log 2 x < 53" using x by (simp add: log_less_iff powr_numeral)
  then have "e \<le> 52" using x(1) unfolding e_def by (simp add: floor_le_iff)
  define j where "j = nat (52 - e)"
  have j: "ulp x = 1 / 2 ^ j"
  proof -
    have "ulp x = 2 powr - of_nat j" using \<open>e \<le> 52\<close> by (simp add: ulp_def e_def [symmetric] j_def)
    then show ?thesis by (simp add: powr_minus_divide powr_realpow)
  qed
  have "x * 2 ^ j < 2 ^ 53" using ulp_bounds(2) [of x] x(1) unfolding j by (simp add: field_simps)
  have "\<bar>x * 2 ^ j - of_int (m * 2 ^ j)\<bar> = \<bar>x - of_int m\<bar> * 2 ^ j" by (simp add: abs_mult left_diff_distrib [symmetric])
  also have "\<dots> \<le> of_int m / 2 ^ 55 * 2 ^ j" by (intro mult_right_mono assms(3)) simp
  also have "\<dots> \<le> 2 * (x * 2 ^ j) / 2 ^ 55" using x(3) by simp
  also have "\<dots> < 1 / 2" using \<open>x * 2 ^ j < 2 ^ 53\<close> by simp
  finally have "round_even (x * 2 ^ j) = m * 2 ^ j" by (rule round_even_near)
  then show ?thesis by (simp add: round_double_def j)
qed

lemma round_double_nat: "n < 2 ^ 53 \<Longrightarrow> round_double (real n) = real n"
  using round_double_near [of "int n" "real n"] double.rd_zero by (cases "n = 0") auto

end
