(* ===== verification/Benchmark_Suite.thy ===== *)
theory Benchmark_Suite
  imports "HOL-Library.Multiset" Double_Arith
begin

text \<open>
  The latency statistics of \<open>include/benchmark/BenchmarkingSuite.hpp\<close> and the three benchmarks of
  \<open>src/phase16_benchmarking_suite.cpp\<close>. A value of type \<open>double\<close> is a real number, and the result of every
  operation on such values and of every conversion to them is rounded (\<open>round_double\<close>): the literals \<open>0.90\<close> and \<open>0.99\<close>, the
  products that select the percentiles, the sums of \<open>std::accumulate\<close>, the divisions. The clock readings are arguments.
\<close>

section \<open>Data and operations\<close>

record BenchmarkResult =
  bench_name :: string
  total_ops :: u64
  duration_sec :: real
  throughput_ops_sec :: real
  min_us :: real
  p50_us :: real
  p90_us :: real
  p99_us :: real
  max_us :: real
  avg_us :: real

type_synonym LatencyTracker = "real list"

definition record_us :: "real \<Rightarrow> LatencyTracker \<Rightarrow> LatencyTracker" where
  "record_us microseconds samples = samples @ [microseconds]"

text \<open>\<open>sorted[i]\<close>: outside the vector it is undefined.\<close>

definition at_index :: "real list \<Rightarrow> nat \<Rightarrow> real outcome" where
  "at_index xs i = (if i < length xs then Inr (xs ! i) else Inl Undefined)"

text \<open>\<open>static_cast<size_t>(n * q)\<close> with a literal \<open>q\<close>.\<close>

definition scaled :: "nat \<Rightarrow> real \<Rightarrow> nat" where
  "scaled n q = nat \<lfloor>round_double (round_double (real n) * round_double q)\<rfloor>"

text \<open>\<open>std::accumulate\<close> from \<open>0.0\<close>.\<close>

definition accumulate :: "real list \<Rightarrow> real" where
  "accumulate xs = foldl (\<lambda>sum x. round_double (sum + x)) 0 xs"

definition compute_results :: "string \<Rightarrow> real \<Rightarrow> u64 \<Rightarrow> LatencyTracker \<Rightarrow> BenchmarkResult outcome" where
  "compute_results nm elapsed_sec ops samples =
     (if samples = [] then
        Inr \<lparr> bench_name = nm, total_ops = ops, duration_sec = elapsed_sec, throughput_ops_sec = 0,
          min_us = 0, p50_us = 0, p90_us = 0, p99_us = 0, max_us = 0, avg_us = 0 \<rparr>
      else
        let sorted = sort samples;
            n = length sorted;
            avg = round_double (accumulate sorted / round_double (real n));
            min_val = hd sorted;
            max_val = last sorted;
            throughput = (if elapsed_sec > 0 then round_double (round_double (real (unat ops)) / elapsed_sec) else 0)
        in bind_outcome (at_index sorted (scaled n 0.50)) (\<lambda>p50.
           bind_outcome (at_index sorted (scaled n 0.90)) (\<lambda>p90.
           bind_outcome (at_index sorted (min (scaled n 0.99) (n - 1))) (\<lambda>p99.
             Inr \<lparr> bench_name = nm, total_ops = ops, duration_sec = elapsed_sec,
               throughput_ops_sec = throughput, min_us = min_val, p50_us = p50, p90_us = p90,
               p99_us = p99, max_us = max_val, avg_us = avg \<rparr>))))"

text \<open>\<open>BenchmarkTimer\<close>, with the readings of the clock in nanoseconds.\<close>

record BenchmarkTimer =
  timer_start :: time_ns

definition make_timer :: "time_ns \<Rightarrow> BenchmarkTimer" where
  "make_timer now = \<lparr> timer_start = now \<rparr>"

definition reset_timer :: "time_ns \<Rightarrow> BenchmarkTimer \<Rightarrow> BenchmarkTimer" where
  "reset_timer now t = t\<lparr> timer_start := now \<rparr>"

definition elapsed_sec_of :: "time_ns \<Rightarrow> BenchmarkTimer \<Rightarrow> real" where
  "elapsed_sec_of now t = round_double (round_double (of_int (now - timer_start t)) / 10 ^ 9)"

definition elapsed_us_of :: "time_ns \<Rightarrow> BenchmarkTimer \<Rightarrow> real" where
  "elapsed_us_of now t = round_double (round_double (of_int (now - timer_start t)) / 10 ^ 3)"

subsection \<open>Phase 16\<close>

definition NUM_OPERATIONS_PER_CLIENT :: nat where
  "NUM_OPERATIONS_PER_CLIENT = 1000"

text \<open>\<open>lat c op\<close> is what the timer of operation \<open>op\<close> of client \<open>c\<close> shows. The clients append their
  samples one client at a time, under the mutex; \<open>order\<close> is the order in which they get it.\<close>

definition local_samples :: "(nat \<Rightarrow> nat \<Rightarrow> real) \<Rightarrow> nat \<Rightarrow> real list" where
  "local_samples lat c = map (lat c) [0..<NUM_OPERATIONS_PER_CLIENT]"

definition merge_samples :: "(nat \<Rightarrow> nat \<Rightarrow> real) \<Rightarrow> nat list \<Rightarrow> LatencyTracker" where
  "merge_samples lat order = fold (\<lambda>c tracker. fold record_us (local_samples lat c) tracker) order []"

definition benchmark_thread_per_client ::
  "nat \<Rightarrow> (nat \<Rightarrow> nat \<Rightarrow> real) \<Rightarrow> nat list \<Rightarrow> real \<Rightarrow> BenchmarkResult outcome" where
  "benchmark_thread_per_client num_clients lat order elapsed_sec =
     compute_results (''Thread-per-Client ('' @ to_string num_clients @ '' clients)'') elapsed_sec
       (of_nat num_clients * of_nat NUM_OPERATIONS_PER_CLIENT) (merge_samples lat order)"

text \<open>The pool runs the tasks of the clients; \<open>completed_tasks\<close> counts the operations of those that
  have appended their samples, and \<open>main\<close> goes on when all have.\<close>

definition completed_tasks :: "nat list \<Rightarrow> u64" where
  "completed_tasks order = fold (\<lambda>_ n. n + of_nat NUM_OPERATIONS_PER_CLIENT) order 0"

definition benchmark_thread_pool ::
  "nat \<Rightarrow> nat \<Rightarrow> (nat \<Rightarrow> nat \<Rightarrow> real) \<Rightarrow> nat list \<Rightarrow> real \<Rightarrow> BenchmarkResult outcome option" where
  "benchmark_thread_pool num_clients pool_size lat order elapsed_sec =
     (let ops = of_nat num_clients * of_nat NUM_OPERATIONS_PER_CLIENT
      in if completed_tasks order < ops then None
         else Some (compute_results (''ThreadPool ('' @ to_string pool_size @ '' workers, '' @
                to_string num_clients @ '' clients)'') elapsed_sec ops (merge_samples lat order)))"

definition benchmark_event_reactor :: "nat \<Rightarrow> (nat \<Rightarrow> real) \<Rightarrow> real \<Rightarrow> BenchmarkResult outcome" where
  "benchmark_event_reactor num_clients lat elapsed_sec =
     (let ops = of_nat num_clients * of_nat NUM_OPERATIONS_PER_CLIENT :: u64
      in compute_results (''Epoll Reactor Core ('' @ to_string num_clients @ '' clients)'') elapsed_sec ops
           (fold (\<lambda>i. record_us (lat i)) [0..<unat ops] []))"

section \<open>Specification\<close>

text \<open>\<open>p\<close> is a \<open>q\<close>-quantile of the samples: at most the share \<open>q\<close> of them is below \<open>p\<close>, and more than
  that share is not above it.\<close>

definition quantile :: "real list \<Rightarrow> real \<Rightarrow> real \<Rightarrow> bool" where
  "quantile xs q p \<longleftrightarrow> real (length (filter (\<lambda>x. x < p) xs)) \<le> q * real (length xs) \<and>
     q * real (length xs) < real (length (filter (\<lambda>x. x \<le> p) xs))"

section \<open>Lemmas\<close>

lemma filter_less_sorted: "sorted xs \<Longrightarrow> i < length xs \<Longrightarrow> length (filter (\<lambda>x. x < xs ! i) xs) \<le> i"
proof -
  assume s: "sorted xs" and i: "i < length xs"
  have "filter (\<lambda>x. x < xs ! i) (drop i xs) = []"
    using s i by (auto simp: filter_empty_conv in_set_conv_nth sorted_iff_nth_mono not_less)
  then have "filter (\<lambda>x. x < xs ! i) xs = filter (\<lambda>x. x < xs ! i) (take i xs)"
    by (metis append_Nil2 append_take_drop_id filter_append)
  then show ?thesis by (metis i length_filter_le length_take less_imp_le_nat min_absorb2)
qed

lemma filter_le_sorted: "sorted xs \<Longrightarrow> i < length xs \<Longrightarrow> i < length (filter (\<lambda>x. x \<le> xs ! i) xs)"
proof -
  assume s: "sorted xs" and i: "i < length xs"
  have "filter (\<lambda>x. x \<le> xs ! i) (take (Suc i) xs) = take (Suc i) xs"
    using s i by (auto simp: filter_id_conv in_set_conv_nth sorted_iff_nth_mono)
  moreover have "length (filter (\<lambda>x. x \<le> xs ! i) xs) =
      length (filter (\<lambda>x. x \<le> xs ! i) (take (Suc i) xs)) + length (filter (\<lambda>x. x \<le> xs ! i) (drop (Suc i) xs))"
    by (metis append_take_drop_id filter_append length_append)
  ultimately show ?thesis using i by simp
qed

lemma length_filter_sort: "length (filter P (sort xs)) = length (filter P xs)"
  by (metis mset_filter mset_sort size_mset)

text \<open>The two literals that are not exact, and the percentile indices: below \<open>2 ^ 44\<close> samples they are those of exact arithmetic,
  since the product is rounded to the integer if the exact one is an integer, and stays on its side of the next integer if not.\<close>

lemma literals: "\<bar>round_double 0.90 - 0.90\<bar> \<le> 0.90 / 2 ^ 55" "\<bar>round_double 0.99 - 0.99\<bar> \<le> 0.99 / 2 ^ 55"
  "round_double 0.50 = 0.50"
proof -
  have p: "2 powr (-1) = (1 / 2 :: real)" "2 powr (53 :: real) = 2 ^ 53" by (simp_all add: powr_minus_divide powr_numeral)
  have r: "round_double x = of_int (round_even (x * 2 ^ 53)) / 2 ^ 53" if "1 / 2 \<le> x" "x < 1" for x
    using round_double_binade [of "-1" x] that p by simp
  have "round_even (0.90 * 2 ^ 53) = 8106479329266893" "round_even (0.99 * 2 ^ 53) = 8917127262193582"
    "round_even (0.50 * 2 ^ 53) = 4503599627370496"
    by (intro round_even_near; simp)+
  with r [of "0.90"] r [of "0.99"] r [of "0.50"]
  show "\<bar>round_double 0.90 - 0.90\<bar> \<le> 0.90 / 2 ^ 55" "\<bar>round_double 0.99 - 0.99\<bar> \<le> 0.99 / 2 ^ 55" "round_double 0.50 = 0.50"
    by simp_all
qed

lemma product_error:
  assumes "0 \<le> y" and "\<bar>y - x\<bar> \<le> x / 2 ^ 55" and "0 \<le> x" and "x < 2 ^ 44"
  shows "\<bar>round_double y - x\<bar> < 1 / 100"
proof -
  have "\<bar>round_double y - y\<bar> \<le> y / 2 ^ 53" using round_double_error [of y] assms(1) by simp
  then have "\<bar>round_double y - x\<bar> \<le> y / 2 ^ 53 + x / 2 ^ 55" using assms(2) by linarith
  moreover have "y - x \<le> x / 2 ^ 55" using assms(2) by linarith
  then have "y \<le> 2 * x" using assms(3) by (simp add: field_simps)
  then have "y / 2 ^ 53 + x / 2 ^ 55 \<le> x / 2 ^ 51" using assms(3) by (simp add: field_simps)
  moreover have "x / 2 ^ 51 < 1 / 100" using assms(4) by (simp add: field_simps)
  ultimately show ?thesis by linarith
qed

lemma scaled_exact:
  assumes "\<bar>round_double q - q\<bar> \<le> q / 2 ^ 55" and q: "q = real a / 100" "a \<le> 100" and n: "n < 2 ^ 44"
  shows "scaled n q = a * n div 100"
proof -
  let ?x = "real n * q" and ?y = "real n * round_double q"
  have x: "0 \<le> ?x" "?x < 2 ^ 44" "?x = real (a * n) / 100"
  proof -
    have "real n * q \<le> real n" using q by (simp add: mult_left_le)
    also have "\<dots> < 2 ^ 44" using n by (metis of_nat_less_numeral_power_cancel_iff)
    finally show "?x < 2 ^ 44" .
  qed (use q in simp_all)
  have q0: "0 \<le> q" "0 \<le> ?y" using q double.rd_bounds(3) [of q] by simp_all
  have "\<bar>?y - ?x\<bar> = real n * \<bar>round_double q - q\<bar>" by (simp add: abs_mult right_diff_distrib [symmetric])
  also have "\<dots> \<le> real n * (q / 2 ^ 55)" by (intro mult_left_mono assms(1)) simp
  finally have y: "\<bar>?y - ?x\<bar> \<le> ?x / 2 ^ 55" by simp
  have "real n = round_double (real n)" using round_double_nat [of n] n by simp
  then have s: "scaled n q = nat \<lfloor>round_double ?y\<rfloor>" by (simp add: scaled_def)
  show ?thesis
  proof (cases "100 dvd a * n")
    case True
    then obtain m where m: "a * n = 100 * m" by blast
    then have xm: "?x = of_int (int m)" using x(3) by simp
    have "round_double ?y = of_int (int m)"
    proof (cases "m = 0")
      case False
      have "real_of_int (int m) < real_of_int (2 ^ 44)" using x(2) unfolding xm by simp
      then have "int m < 2 ^ 44" by (simp only: of_int_less_iff)
      then show ?thesis using False y unfolding xm by (intro round_double_near) auto
    next
      case True
      then have "?y = 0" using y xm by simp
      with True show ?thesis by (simp only: double.rd_zero of_nat_0 of_int_0)
    qed
    then show ?thesis using s m by simp
  next
    case False
    let ?k = "a * n div 100" and ?r = "a * n mod 100"
    have r: "1 \<le> ?r" "?r \<le> 99" using False by (auto simp: mod_greater_zero_iff_not_dvd Suc_le_eq)
    have "real (a * n) = 100 * real ?k + real ?r" by (metis mult_div_mod_eq of_nat_add of_nat_mult of_nat_numeral)
    then have "?x = real ?k + real ?r / 100" using x(3) by simp
    moreover have "\<bar>round_double ?y - ?x\<bar> < 1 / 100" by (rule product_error [OF q0(2) y x(1,2)])
    moreover have "1 \<le> real ?r" "real ?r \<le> 99" using of_nat_mono [OF r(1), where 'a = real] of_nat_mono [OF r(2), where 'a = real] by simp_all
    ultimately have "real ?k < round_double ?y" "round_double ?y < real ?k + 1" by linarith+
    then have "\<lfloor>round_double ?y\<rfloor> = int ?k" by (simp add: floor_eq_iff)
    then show ?thesis using s by simp
  qed
qed

lemma scaled_percentiles:
  assumes "n < 2 ^ 44"
  shows "scaled n 0.50 = n div 2" and "scaled n 0.90 = 9 * n div 10" and "scaled n 0.99 = 99 * n div 100"
  using scaled_exact [of "0.50" 50 n] scaled_exact [of "0.90" 90 n] scaled_exact [of "0.99" 99 n] literals assms
  by (simp_all add: mult.commute)

text \<open>The element at the index that is a share of the length is a quantile.\<close>

lemma quantile_index:
  assumes "0 < b" and "a < b" and "samples \<noteq> []"
  shows "quantile samples (real a / real b) (sort samples ! (a * length samples div b))"
proof -
  let ?n = "length samples" let ?i = "a * ?n div b"
  have n: "0 < ?n" using assms(3) by simp
  then have "a * ?n < b * ?n" using assms(2) by simp
  then have i: "?i < length (sort samples)" by (simp add: less_mult_imp_div_less mult.commute)
  have q: "real a / real b * real ?n = real (a * ?n) / real b" by simp
  have "b * ?i \<le> a * ?n" "a * ?n < b * (?i + 1)"
    using assms(1) by (simp_all add: dividend_less_div_times mult.commute [of b])
  then have "real (b * ?i) \<le> real (a * ?n)" "real (a * ?n) < real (b * (?i + 1))" by (simp_all only: of_nat_le_iff of_nat_less_iff)
  then have "real ?i \<le> real (a * ?n) / real b" "real (a * ?n) / real b < real ?i + 1"
    using assms(1) by (simp_all add: field_simps)
  moreover have "length (filter (\<lambda>x. x < sort samples ! ?i) samples) \<le> ?i"
    "?i < length (filter (\<lambda>x. x \<le> sort samples ! ?i) samples)"
    using filter_less_sorted [OF _ i] filter_le_sorted [OF _ i] by (simp_all add: length_filter_sort)
  ultimately show ?thesis unfolding quantile_def q by linarith
qed

text \<open>The report of a tracker with samples, written out.\<close>

lemma compute_results_eq:
  assumes "samples \<noteq> []" and "length samples < 2 ^ 44"
  shows "compute_results nm e ops samples = Inr \<lparr> bench_name = nm, total_ops = ops, duration_sec = e,
     throughput_ops_sec = (if e > 0 then round_double (round_double (real (unat ops)) / e) else 0), min_us = hd (sort samples),
     p50_us = sort samples ! (length samples div 2), p90_us = sort samples ! (9 * length samples div 10),
     p99_us = sort samples ! (99 * length samples div 100), max_us = last (sort samples),
     avg_us = round_double (accumulate (sort samples) / real (length samples)) \<rparr>"
proof -
  have n: "0 < length samples" using assms(1) by simp
  then have "length samples div 2 < length samples" "9 * length samples div 10 < length samples"
    "99 * length samples div 100 < length samples" by linarith+
  moreover have "round_double (real (length samples)) = real (length samples)" using round_double_nat assms(2) by simp
  ultimately show ?thesis using assms(1) scaled_percentiles [OF assms(2)]
    by (simp add: compute_results_def Let_def at_index_def bind_outcome_def min_def)
qed

text \<open>The average is the mean up to one rounding for every sample and one for the division.\<close>

lemma average_bounds:
  assumes "samples \<noteq> []" and "\<forall>x\<in>set samples. 0 \<le> x"
  shows "sum_list samples / real (length samples) * (1 - 1 / 2 ^ 53) ^ (length samples + 1) \<le>
      round_double (accumulate (sort samples) / real (length samples))"
    and "round_double (accumulate (sort samples) / real (length samples)) \<le>
      sum_list samples / real (length samples) * (1 + 1 / 2 ^ 53) ^ (length samples + 1)"
proof -
  let ?n = "length samples" and ?u = "1 / 2 ^ 53 :: real"
  have sum: "sum_list (sort samples) = sum_list samples"
    by (metis mset_sort sum_mset_sum_list)
  have n: "0 < real ?n" using assms(1) by simp
  have acc: "sum_list samples * (1 - ?u) ^ ?n \<le> accumulate (sort samples)" "accumulate (sort samples) \<le> sum_list samples * (1 + ?u) ^ ?n"
    using double.accumulate_bounds [of "sort samples" 0 0 0] assms(2) by (simp_all add: accumulate_def sum)
  have "0 \<le> sum_list samples" using assms(2) by (simp add: sum_list_nonneg)
  then have "0 \<le> sum_list samples / real ?n" by simp
  from double.rd_step [OF this, of ?n "accumulate (sort samples) / real ?n"]
  show "sum_list samples / real ?n * (1 - ?u) ^ (?n + 1) \<le> round_double (accumulate (sort samples) / real ?n)"
    "round_double (accumulate (sort samples) / real ?n) \<le> sum_list samples / real ?n * (1 + ?u) ^ (?n + 1)"
    using divide_right_mono [OF acc(1), of "real ?n"] divide_right_mono [OF acc(2), of "real ?n"]
    by (simp_all add: times_divide_eq_left)
qed

text \<open>Three equal samples of 0.1 microseconds: their sum is rounded up, and the average is above all of them.\<close>

definition tenth :: real where
  "tenth = 3602879701896397 / 2 ^ 55"

lemma binade_values:
  assumes "1 / 16 \<le> x" "x < 1 / 8"
  shows "round_double x = of_int (round_even (x * 2 ^ 56)) / 2 ^ 56"
  using round_double_binade [of "-4" x] assms by (simp add: powr_minus_divide powr_numeral)

lemma tenths:
  "round_double 0.1 = tenth" "round_double (0 + tenth) = tenth" "round_double (tenth + tenth) = 2 * tenth"
  "round_double (2 * tenth + tenth) = 5404319552844596 / 2 ^ 54"
  "round_double (5404319552844596 / 2 ^ 54 / 3) = 7205759403792795 / 2 ^ 56"
proof -
  have a: "round_double x = of_int (round_even (x * 2 ^ 56)) / 2 ^ 56" if "1 / 16 \<le> x" "x < 1 / 8" for x
    using that by (rule binade_values)
  have b: "round_double x = of_int (round_even (x * 2 ^ 55)) / 2 ^ 55" if "1 / 8 \<le> x" "x < 1 / 4" for x
    using round_double_binade [of "-3" x] that by (simp add: powr_minus_divide powr_numeral)
  have c: "round_double x = of_int (round_even (x * 2 ^ 54)) / 2 ^ 54" if "1 / 4 \<le> x" "x < 1 / 2" for x
    using round_double_binade [of "-2" x] that by (simp add: powr_minus_divide powr_numeral)
  have "round_even (0.1 * 2 ^ 56) = 7205759403792794" "round_even (tenth * 2 ^ 56) = 7205759403792794"
    "round_even (2 * tenth * 2 ^ 55) = 7205759403792794"
    "round_even (5404319552844596 / 2 ^ 54 / 3 * 2 ^ 56) = 7205759403792795"
    by (intro round_even_near; simp add: tenth_def)+
  note near = this
  have tie: "round_even (3 * tenth * 2 ^ 54) = 5404319552844596"
    by (simp add: round_even_def tenth_def Let_def)
  show "round_double 0.1 = tenth" using a [of "0.1"] near(1) by (simp add: tenth_def)
  show "round_double (0 + tenth) = tenth" using a [of tenth] near(2) by (simp add: tenth_def)
  show "round_double (tenth + tenth) = 2 * tenth" using b [of "2 * tenth"] near(3) by (simp add: tenth_def)
  show "round_double (2 * tenth + tenth) = 5404319552844596 / 2 ^ 54" using c [of "3 * tenth"] tie by (simp add: tenth_def)
  show "round_double (5404319552844596 / 2 ^ 54 / 3) = 7205759403792795 / 2 ^ 56"
    using a [of "5404319552844596 / 2 ^ 54 / 3"] near(4) by simp
qed

lemma average_above_maximum:
  "\<exists>r. compute_results nm e ops (replicate 3 (round_double 0.1)) = Inr r \<and> max_us r < avg_us r"
proof -
  have s: "sort (replicate 3 tenth) = [tenth, tenth, tenth]" by (simp add: numeral_3_eq_3)
  have "accumulate [tenth, tenth, tenth] = 5404319552844596 / 2 ^ 54"
    unfolding accumulate_def foldl.simps tenths(2-4) ..
  then have "round_double (accumulate [tenth, tenth, tenth] / 3) = 7205759403792795 / 2 ^ 56" by (simp only: tenths(5))
  then show ?thesis
    using compute_results_eq [of "replicate 3 tenth" nm e ops] unfolding tenths(1) s by (simp add: tenth_def)
qed

lemma compute_results_mset:
  "mset xs = mset ys \<Longrightarrow> compute_results nm e ops xs = compute_results nm e ops ys"
proof -
  assume m: "mset xs = mset ys"
  then have "sort xs = sort ys" by (intro properties_for_sort) simp_all
  moreover have "xs = [] \<longleftrightarrow> ys = []" using m by auto
  ultimately show ?thesis by (simp add: compute_results_def)
qed

lemma fold_record_us: "fold record_us xs tracker = tracker @ xs"
  by (induction xs arbitrary: tracker) (simp_all add: record_us_def)

lemma merge_samples_concat: "merge_samples lat order = concat (map (local_samples lat) order)"
proof -
  have "fold (\<lambda>c tracker. fold record_us (local_samples lat c) tracker) order t = t @ concat (map (local_samples lat) order)" for t
    by (induction order arbitrary: t) (simp_all add: fold_record_us)
  then show ?thesis by (simp add: merge_samples_def)
qed

lemma mset_merge: "mset order = mset order' \<Longrightarrow> mset (merge_samples lat order) = mset (merge_samples lat order')"
proof -
  have "mset (concat (map f xs)) = (\<Sum>x \<in># mset xs. mset (f x))" for f :: "nat \<Rightarrow> real list" and xs
    by (induction xs) simp_all
  then show "mset order = mset order' \<Longrightarrow> ?thesis" by (simp add: merge_samples_concat)
qed

lemma length_merge: "length (merge_samples lat order) = length order * NUM_OPERATIONS_PER_CLIENT"
  by (induction order) (simp_all add: merge_samples_concat local_samples_def)

lemma completed_tasks_eq: "completed_tasks order = of_nat (length order) * of_nat NUM_OPERATIONS_PER_CLIENT"
proof -
  have "fold (\<lambda>_ n. n + of_nat NUM_OPERATIONS_PER_CLIENT) order k =
      k + of_nat (length order) * (of_nat NUM_OPERATIONS_PER_CLIENT :: u64)" for k
    by (induction order arbitrary: k) (simp_all add: algebra_simps)
  then show ?thesis by (simp add: completed_tasks_def)
qed

text \<open>A reset starts a timer anew.\<close>

lemma timer_reset: "elapsed_us_of now (reset_timer t0 (make_timer t1)) = elapsed_us_of now (make_timer t0)"
  by (simp add: elapsed_us_of_def reset_timer_def make_timer_def)

section \<open>Properties\<close>

text \<open>
  C24: the report in double arithmetic, for any samples (fewer than \<open>2 ^ 44\<close>). It never reads outside the sorted samples; in
  spite of the rounded literals and products the percentiles are exact quantiles of the samples for the shares 0.50, 0.90 and
  0.99; minimum and maximum bound all samples, and the percentiles lie in order between them; and for samples that are not
  negative the average differs from their mean by at most one rounding for each sample and one for the division. It need not
  lie between minimum and maximum: for three samples of 0.1 it is above the maximum.
\<close>

theorem results_are_quantiles:
  assumes "samples \<noteq> []" and "length samples < 2 ^ 44"
  shows "(\<exists>r. compute_results nm e ops samples = Inr r \<and>
     quantile samples 0.50 (p50_us r) \<and> quantile samples 0.90 (p90_us r) \<and> quantile samples 0.99 (p99_us r) \<and>
     min_us r \<in> set samples \<and> max_us r \<in> set samples \<and> (\<forall>x \<in> set samples. min_us r \<le> x \<and> x \<le> max_us r) \<and>
     min_us r \<le> p50_us r \<and> p50_us r \<le> p90_us r \<and> p90_us r \<le> p99_us r \<and> p99_us r \<le> max_us r \<and>
     ((\<forall>x \<in> set samples. 0 \<le> x) \<longrightarrow>
       sum_list samples / real (length samples) * (1 - 1 / 2 ^ 53) ^ (length samples + 1) \<le> avg_us r \<and>
       avg_us r \<le> sum_list samples / real (length samples) * (1 + 1 / 2 ^ 53) ^ (length samples + 1))) \<and>
   (\<exists>r. compute_results nm e ops (replicate 3 (round_double 0.1)) = Inr r \<and> max_us r < avg_us r)"
proof -
  let ?s = "sort samples" and ?n = "length samples"
  have ne: "?s \<noteq> []" "0 < ?n" using assms by (metis length_greater_0_conv length_sort)+
  have mono: "?s ! i \<le> ?s ! j" if "i \<le> j" "j < ?n" for i j using that by (simp add: sorted_nth_mono)
  have hd: "hd ?s = ?s ! 0" and last: "last ?s = ?s ! (?n - 1)" using ne by (simp_all add: hd_conv_nth last_conv_nth)
  have all: "hd ?s \<le> x \<and> x \<le> last ?s" if x: "x \<in> set ?s" for x
  proof -
    obtain i where "i < ?n" "x = ?s ! i" using x [unfolded in_set_conv_nth] by auto
    then show ?thesis using mono [of 0 i] mono [of i "?n - 1"] unfolding hd last by simp
  qed
  have idx: "?n div 2 \<le> 9 * ?n div 10" "9 * ?n div 10 \<le> 99 * ?n div 100" "99 * ?n div 100 \<le> ?n - 1" "99 * ?n div 100 < ?n"
    using ne(2) by linarith+
  have ord: "?s ! 0 \<le> ?s ! (?n div 2)" "?s ! (?n div 2) \<le> ?s ! (9 * ?n div 10)"
    "?s ! (9 * ?n div 10) \<le> ?s ! (99 * ?n div 100)" "?s ! (99 * ?n div 100) \<le> ?s ! (?n - 1)"
    using idx ne(2) by (auto intro!: mono)
  have ends: "hd ?s \<in> set samples" "last ?s \<in> set samples" using ne(1) by (metis hd_in_set set_sort, metis last_in_set set_sort)
  show ?thesis
    using quantile_index [of 2 1, OF _ _ assms(1)] quantile_index [of 10 9, OF _ _ assms(1)] quantile_index [of 100 99, OF _ _ assms(1)]
      ord all ends average_bounds [OF assms(1)] average_above_maximum [of nm e ops]
    unfolding compute_results_eq [OF assms] hd [symmetric] last [symmetric] by simp
qed

theorem results_are_quantiles_witness:
  "\<exists>r. compute_results ''t'' 1 3 [5, 1, 3] = Inr r \<and> min_us r \<le> 1 \<and> 5 \<le> max_us r \<and>
     avg_us r \<le> 3 * (1 + 1 / 2 ^ 53) ^ 4"
proof -
  have "\<forall>x\<in>set [5, 1, 3 :: real]. 0 \<le> x" by simp
  with results_are_quantiles [of "[5, 1, 3]" "''t''" 1 3] obtain r where
    "compute_results ''t'' 1 3 [5, 1, 3] = Inr r" "\<forall>x \<in> set [5, 1, 3]. min_us r \<le> x \<and> x \<le> max_us r"
    "avg_us r \<le> sum_list [5, 1, 3] / real (length [5, 1, 3 :: real]) * (1 + 1 / 2 ^ 53) ^ (length [5, 1, 3 :: real] + 1)" by auto
  moreover have "sum_list [5, 1, 3] / real (length [5, 1, 3 :: real]) = 3" "length [5, 1, 3 :: real] + 1 = 4" by simp_all
  ultimately show ?thesis by (intro exI [of _ r] conjI) (simp_all only: list.set insert_iff simp_thms)
qed

text \<open>
  the report of a benchmark does not depend on the schedule: in whatever order the clients get
  the mutex to add their samples, the thread-per-client and the thread-pool benchmark return the
  same numbers, and the latter does return once all of its clients have run.
\<close>

theorem benchmarks_schedule_independent:
  assumes "mset order = mset [0..<num_clients]"
  shows "benchmark_thread_per_client num_clients lat order e =
      benchmark_thread_per_client num_clients lat [0..<num_clients] e \<and>
    benchmark_thread_pool num_clients k lat order e =
      Some (compute_results (''ThreadPool ('' @ to_string k @ '' workers, '' @ to_string num_clients @ '' clients)'') e
        (of_nat (length (merge_samples lat order))) (merge_samples lat [0..<num_clients]))"
proof -
  have len: "length order = num_clients" using mset_eq_length [OF assms] by simp
  then show ?thesis
    using compute_results_mset [OF mset_merge [OF assms, of lat]]
    by (simp add: benchmark_thread_per_client_def benchmark_thread_pool_def Let_def completed_tasks_eq length_merge)
qed

theorem benchmarks_schedule_independent_witness:
  "benchmark_thread_per_client 3 (\<lambda>c op. real c) [2, 0, 1] 1 = benchmark_thread_per_client 3 (\<lambda>c op. real c) [0, 1, 2] 1"
  using benchmarks_schedule_independent [of "[2, 0, 1]" 3 "\<lambda>c op. real c" 1] by (simp add: upt_conv_Cons numeral_2_eq_2)

end
