(* ===== verification/Telemetry_Counters.thy ===== *)
theory Telemetry_Counters
  imports Benchmark_Suite Config_Parser
begin

text \<open>
  The statistics of \<open>include/telemetry/Telemetry.hpp\<close> and the parts of
  \<open>src/phase15_telemetry_dashboard.cpp\<close> that compute: the bar gauge and the simulated traffic.
  A recording call is the list of the atomic additions it makes, so that calls of several threads
  interleave; the signed counter \<open>active_connections_\<close> is a 64-bit word in two's complement, whose
  atomic addition wraps. Values of type \<open>double\<close> are real numbers.
\<close>

section \<open>Data and operations\<close>

record Telemetry =
  packets_received :: u64
  packets_sent :: u64
  packets_dropped :: u64
  bytes_in :: u64
  bytes_out :: u64
  active_connections :: "64 word"
  auth_failures :: u64
  total_latency_us :: u64
  latency_samples :: u64
  start_time :: time_ns
  last_cpu_time :: time_ns
  last_utime_stime :: u64

datatype atomic_op =
    AddReceived u64
  | AddBytesIn u64
  | AddSent u64
  | AddBytesOut u64
  | AddDropped u64
  | AddAuthFailures u64
  | AddLatency u64
  | AddSamples u64
  | AddActive "64 word"

fun fetch_add :: "atomic_op \<Rightarrow> Telemetry \<Rightarrow> Telemetry" where
  "fetch_add (AddReceived n) t = t\<lparr> packets_received := packets_received t + n \<rparr>"
| "fetch_add (AddBytesIn n) t = t\<lparr> bytes_in := bytes_in t + n \<rparr>"
| "fetch_add (AddSent n) t = t\<lparr> packets_sent := packets_sent t + n \<rparr>"
| "fetch_add (AddBytesOut n) t = t\<lparr> bytes_out := bytes_out t + n \<rparr>"
| "fetch_add (AddDropped n) t = t\<lparr> packets_dropped := packets_dropped t + n \<rparr>"
| "fetch_add (AddAuthFailures n) t = t\<lparr> auth_failures := auth_failures t + n \<rparr>"
| "fetch_add (AddLatency n) t = t\<lparr> total_latency_us := total_latency_us t + n \<rparr>"
| "fetch_add (AddSamples n) t = t\<lparr> latency_samples := latency_samples t + n \<rparr>"
| "fetch_add (AddActive n) t = t\<lparr> active_connections := active_connections t + n \<rparr>"

definition record_packet_in :: "u64 \<Rightarrow> atomic_op list" where
  "record_packet_in bytes = [AddReceived 1, AddBytesIn bytes]"

definition record_packet_out :: "u64 \<Rightarrow> atomic_op list" where
  "record_packet_out bytes = [AddSent 1, AddBytesOut bytes]"

definition record_drop :: "atomic_op list" where
  "record_drop = [AddDropped 1]"

definition record_auth_failure :: "atomic_op list" where
  "record_auth_failure = [AddAuthFailures 1]"

definition record_latency :: "u64 \<Rightarrow> atomic_op list" where
  "record_latency micros = [AddLatency micros, AddSamples 1]"

definition connection_opened :: "atomic_op list" where
  "connection_opened = [AddActive 1]"

definition connection_closed :: "atomic_op list" where
  "connection_closed = [AddActive (- 1)]"

definition set_active_connections :: "64 word \<Rightarrow> Telemetry \<Rightarrow> Telemetry" where
  "set_active_connections n t = t\<lparr> active_connections := n \<rparr>"

definition reset_telemetry :: "Telemetry \<Rightarrow> Telemetry" where
  "reset_telemetry t = t\<lparr> packets_received := 0, packets_sent := 0, packets_dropped := 0, bytes_in := 0,
     bytes_out := 0, active_connections := 0, auth_failures := 0, total_latency_us := 0, latency_samples := 0 \<rparr>"

text \<open>The constructor, with its two readings of the clock.\<close>

definition make_telemetry :: "time_ns \<Rightarrow> time_ns \<Rightarrow> Telemetry" where
  "make_telemetry t0 t1 = \<lparr> packets_received = 0, packets_sent = 0, packets_dropped = 0, bytes_in = 0,
     bytes_out = 0, active_connections = 0, auth_failures = 0, total_latency_us = 0, latency_samples = 0,
     start_time = t0, last_cpu_time = t1, last_utime_stime = 0 \<rparr>"

datatype tel_call =
    PacketIn u64
  | PacketOut u64
  | Dropped
  | AuthFailure
  | Latency u64
  | Opened
  | Closed_Conn

fun call_ops :: "tel_call \<Rightarrow> atomic_op list" where
  "call_ops (PacketIn n) = record_packet_in n"
| "call_ops (PacketOut n) = record_packet_out n"
| "call_ops Dropped = record_drop"
| "call_ops AuthFailure = record_auth_failure"
| "call_ops (Latency n) = record_latency n"
| "call_ops Opened = connection_opened"
| "call_ops Closed_Conn = connection_closed"

subsection \<open>System metrics\<close>

text \<open>Extraction from a stream: a word, and an unsigned integer with the value it stores and the rest
  of the stream unless the extraction failed. After a failure further extractions do nothing.\<close>

definition extract_word :: "string \<Rightarrow> (string \<times> string) option" where
  "extract_word s =
     (let s = dropWhile is_space s; w = takeWhile (\<lambda>c. \<not> is_space c) s
      in if w = [] then None else Some (w, drop (length w) s))"

definition after_number :: "string \<Rightarrow> string" where
  "after_number s =
     (let s = dropWhile is_space s
      in dropWhile is_digit (case s of c # cs \<Rightarrow> if c = CHR ''-'' \<or> c = CHR ''+'' then cs else s | [] \<Rightarrow> []))"

definition extract_u64 :: "string \<Rightarrow> u64 \<times> string option" where
  "extract_u64 s =
     (case strto s of
        None \<Rightarrow> (0, None)
      | Some p \<Rightarrow>
          if snd p < 2 ^ 64 then (of_int (signed_value p), Some (after_number s)) else (- 1, None))"

fun skip_words :: "nat \<Rightarrow> string \<Rightarrow> string option" where
  "skip_words 0 s = Some s"
| "skip_words (Suc n) s = (case extract_word s of None \<Rightarrow> None | Some (w, rest) \<Rightarrow> skip_words n rest)"

definition read_times :: "string \<Rightarrow> u64 \<times> u64" where
  "read_times stat =
     (case skip_words 13 stat of
        None \<Rightarrow> (0, 0)
      | Some s \<Rightarrow>
          (case extract_u64 s of
             (utime, None) \<Rightarrow> (utime, 0)
           | (utime, Some rest) \<Rightarrow> (utime, fst (extract_u64 rest))))"

definition has_prefix :: "string \<Rightarrow> string \<Rightarrow> bool" where
  "has_prefix p s \<longleftrightarrow> take (length p) s = p"

definition get_rss_memory_mb :: "file_system \<Rightarrow> real" where
  "get_rss_memory_mb fs =
     (case fs ''/proc/self/status'' of
        None \<Rightarrow> 0
      | Some status \<Rightarrow>
          (case find (has_prefix ''VmRSS:'') (getlines [] status) of
             None \<Rightarrow> 0
           | Some line \<Rightarrow>
               (case extract_word line of
                  None \<Rightarrow> 0
                | Some (key, rest) \<Rightarrow> real (unat (fst (extract_u64 rest))) / 1024)))"

definition seconds :: "time_ns \<Rightarrow> real" where
  "seconds d = of_int d / 1000000000"

text \<open>\<open>sysconf\<close> is the answer of the system; the state keeps the time and total of the last reading.\<close>

definition get_cpu_usage_pct :: "file_system \<Rightarrow> int \<Rightarrow> time_ns \<Rightarrow> Telemetry \<Rightarrow> real \<times> Telemetry" where
  "get_cpu_usage_pct fs sysconf now t =
     (case fs ''/proc/self/stat'' of
        None \<Rightarrow> (0, t)
      | Some stat \<Rightarrow>
          let (utime, stime) = read_times stat;
              elapsed_sec = seconds (now - last_cpu_time t)
          in if elapsed_sec \<le> 0 then (0, t)
             else
               let current_total = utime + stime;
                   delta_jiffies = current_total - last_utime_stime t;
                   ticks_per_sec = (if sysconf \<le> 0 then 100 else sysconf);
                   process_cpu_sec = real (unat delta_jiffies) / of_int ticks_per_sec;
                   cpu_pct = process_cpu_sec / elapsed_sec * 100
               in (max 0 cpu_pct, t\<lparr> last_cpu_time := now, last_utime_stime := current_total \<rparr>))"

record Snapshot =
  snap_received :: u64
  snap_sent :: u64
  snap_dropped :: u64
  snap_bytes_in :: u64
  snap_bytes_out :: u64
  snap_active :: int
  snap_auth_failures :: u64
  uptime_sec :: real
  pkt_per_sec_in :: real
  drop_rate_pct :: real
  cpu_usage_pct :: real
  rss_memory_mb :: real
  avg_latency_us :: real

text \<open>The counters are loaded one after the other while other threads go on: \<open>obs k\<close> is the object
  when the \<open>k\<close>-th load executes. The two members for the CPU usage are not atomic and belong to
  \<open>t\<close>, the object as the thread that takes the snapshot left it.\<close>

definition take_snapshot ::
  "file_system \<Rightarrow> int \<Rightarrow> time_ns \<Rightarrow> time_ns \<Rightarrow> (nat \<Rightarrow> Telemetry) \<Rightarrow> Telemetry \<Rightarrow> Snapshot \<times> Telemetry" where
  "take_snapshot fs sysconf now now_cpu obs t =
     (let uptime = seconds (now - start_time t);
          rx = packets_received (obs 0); tx = packets_sent (obs 1); drp = packets_dropped (obs 2);
          bin = bytes_in (obs 3); bou = bytes_out (obs 4); ac = active_connections (obs 5);
          af = auth_failures (obs 6); lat_us = total_latency_us (obs 7); samples = latency_samples (obs 8);
          pps = (if uptime > 0 then real (unat rx) / uptime else 0);
          total = real (unat (rx + drp));
          drop_r = (if total > 0 then real (unat drp) / total * 100 else 0);
          (cpu_pct, t') = get_cpu_usage_pct fs sysconf now_cpu t;
          rss_mb = get_rss_memory_mb fs;
          avg_lat = (if samples > 0 then real (unat lat_us) / real (unat samples) else 0)
      in (\<lparr> snap_received = rx, snap_sent = tx, snap_dropped = drp, snap_bytes_in = bin,
            snap_bytes_out = bou, snap_active = sint ac, snap_auth_failures = af, uptime_sec = uptime,
            pkt_per_sec_in = pps, drop_rate_pct = drop_r, cpu_usage_pct = cpu_pct, rss_memory_mb = rss_mb,
            avg_latency_us = avg_lat \<rparr>, t'))"

subsection \<open>Phase 15\<close>

text \<open>The cast to \<open>int\<close> truncates and is undefined outside its range; a negative count makes the
  string constructor throw \<open>std::length_error\<close>.\<close>

definition trunc_int :: "real \<Rightarrow> int outcome" where
  "trunc_int x =
     (let n = (if 0 \<le> x then \<lfloor>x\<rfloor> else \<lceil>x\<rceil>) in if in_int32 n then Inr n else Inl Undefined)"

definition bar_gauge :: "real \<Rightarrow> real \<Rightarrow> int \<Rightarrow> string outcome" where
  "bar_gauge value max_val width =
     bind_outcome (if max_val > 0 then trunc_int (value / max_val * of_int width) else Inr 0) (\<lambda>filled.
       let filled = min filled width
       in if filled < 0 then Inl (RuntimeError ''length_error'')
          else Inr (replicate (nat filled) CHR ''#'' @ replicate (nat (width - filled)) CHR ''-''))"

text \<open>One iteration of the traffic simulator, and several of them.\<close>

definition simulate_burst :: "u64 \<Rightarrow> tel_call list" where
  "simulate_burst pkt =
     concat (map (\<lambda>i. let p = pkt + of_nat i in
       [PacketIn (512 + p mod 256), PacketOut 256, Latency (12 + p mod 15)]) [0..<50])"

definition simulate_iteration :: "u64 \<Rightarrow> tel_call list" where
  "simulate_iteration pkt =
     simulate_burst pkt @
     (if (pkt + 50) mod 500 < 5 then [Dropped] else []) @
     (if (pkt + 50) mod 2000 = 0 \<and> pkt + 50 > 0 then [AuthFailure] else [])"

definition simulate_traffic :: "nat \<Rightarrow> tel_call list" where
  "simulate_traffic iterations = concat (map (\<lambda>k. simulate_iteration (of_nat (50 * k))) [0..<iterations])"

section \<open>Specification\<close>

text \<open>What a call adds to each counter.\<close>

fun packet_in_of :: "tel_call \<Rightarrow> nat" where
  "packet_in_of (PacketIn n) = 1" | "packet_in_of _ = 0"

fun bytes_in_of :: "tel_call \<Rightarrow> u64" where
  "bytes_in_of (PacketIn n) = n" | "bytes_in_of _ = 0"

fun packet_out_of :: "tel_call \<Rightarrow> nat" where
  "packet_out_of (PacketOut n) = 1" | "packet_out_of _ = 0"

fun bytes_out_of :: "tel_call \<Rightarrow> u64" where
  "bytes_out_of (PacketOut n) = n" | "bytes_out_of _ = 0"

fun latency_of :: "tel_call \<Rightarrow> u64" where
  "latency_of (Latency n) = n" | "latency_of _ = 0"

fun sample_of :: "tel_call \<Rightarrow> nat" where
  "sample_of (Latency n) = 1" | "sample_of _ = 0"

text \<open>The state after the calls, whatever the order of their atomic steps was.\<close>

definition after_calls :: "tel_call list \<Rightarrow> Telemetry \<Rightarrow> Telemetry" where
  "after_calls cs t = t\<lparr>
     packets_received := packets_received t + of_nat (sum_list (map packet_in_of cs)),
     bytes_in := bytes_in t + sum_list (map bytes_in_of cs),
     packets_sent := packets_sent t + of_nat (sum_list (map packet_out_of cs)),
     bytes_out := bytes_out t + sum_list (map bytes_out_of cs),
     packets_dropped := packets_dropped t + of_nat (count_list cs Dropped),
     auth_failures := auth_failures t + of_nat (count_list cs AuthFailure),
     total_latency_us := total_latency_us t + sum_list (map latency_of cs),
     latency_samples := latency_samples t + of_nat (sum_list (map sample_of cs)),
     active_connections := active_connections t + of_nat (count_list cs Opened) - of_nat (count_list cs Closed_Conn) \<rparr>"

section \<open>Lemmas\<close>

lemmas record_calls = record_packet_in_def record_packet_out_def record_drop_def record_auth_failure_def
  record_latency_def connection_opened_def connection_closed_def

lemma fetch_add_commute: "fetch_add a \<circ> fetch_add b = fetch_add b \<circ> fetch_add a"
  by (rule ext) (cases a; cases b; simp add: add.commute add.left_commute)

lemma fold_fetch_add_mset: "mset xs = mset ys \<Longrightarrow> fold fetch_add xs = fold fetch_add ys"
  by (rule fold_multiset_equiv) (simp_all add: fetch_add_commute)

lemma after_call: "fold fetch_add (call_ops c) t = after_calls [c] t"
  by (cases c) (simp_all add: record_calls after_calls_def)

lemma after_calls_append: "after_calls (xs @ ys) t = after_calls ys (after_calls xs t)"
  by (simp add: after_calls_def algebra_simps)

lemma fold_calls: "fold fetch_add (concat (map call_ops cs)) t = after_calls cs t"
proof (induction cs arbitrary: t)
  case Nil
  show ?case by (simp add: after_calls_def)
next
  case (Cons c cs)
  then show ?case using after_calls_append [of "[c]" cs t] by (simp add: after_call)
qed

subsection \<open>Numbers in text\<close>

lemma digit_not_space: "is_digit c \<Longrightarrow> \<not> is_space c" "is_digit c \<Longrightarrow> c \<noteq> CHR ''-'' \<and> c \<noteq> CHR ''+''"
  by (auto simp: is_digit_def is_space_def)

lemma digits_val_stop: "rest = [] \<or> \<not> is_digit (hd rest) \<Longrightarrow> digits_val acc rest = acc"
  by (cases rest) auto

lemma extract_u64_to_string:
  assumes "n < 2 ^ 64" and "rest = [] \<or> \<not> is_digit (hd rest)"
  shows "extract_u64 ('' '' @ to_string n @ rest) = (of_nat n, Some rest)"
    and "extract_u64 (to_string n @ rest) = (of_nat n, Some rest)"
proof -
  obtain c cs where c: "to_string n = c # cs" "is_digit c" "list_all is_digit cs"
    using to_string_digits [of n] by (cases "to_string n") auto
  have val: "digits_val 0 (to_string n @ rest) = int n"
    using assms(2) by (simp add: digits_val_append to_string_digits digits_val_to_string digits_val_stop)
  have drop: "dropWhile is_digit (to_string n @ rest) = rest"
    using assms(2) to_string_digits [of n] by (auto simp: list_all_iff dropWhile_append dropWhile_eq_self_iff)
  have n: "(of_int (int n) :: u64) = of_nat n" "int n < 2 ^ 64" using assms(1) by simp_all
  have "strto (to_string n @ rest) = Some (False, int n)" "after_number (to_string n @ rest) = rest"
    using c val drop digit_not_space [OF c(2)]
    by (auto simp: strto_def unsigned_part_def after_number_def simp del: digits_val.simps)
  moreover have "strto ('' '' @ s) = strto s" "after_number ('' '' @ s) = after_number s" for s
    by (simp_all add: strto_def after_number_def is_space_def)
  ultimately show "extract_u64 ('' '' @ to_string n @ rest) = (of_nat n, Some rest)"
    and "extract_u64 (to_string n @ rest) = (of_nat n, Some rest)"
    using n by (simp_all add: extract_u64_def signed_value_def)
qed

text \<open>A word as the stream sees it.\<close>

definition is_word :: "string \<Rightarrow> bool" where
  "is_word w \<longleftrightarrow> w \<noteq> [] \<and> list_all (\<lambda>c. \<not> is_space c) w"

lemma extract_word_word:
  assumes "is_word w"
  shows "extract_word (w @ CHR '' '' # rest) = Some (w, CHR '' '' # rest)"
    and "extract_word (CHR '' '' # w @ CHR '' '' # rest) = Some (w, CHR '' '' # rest)"
proof -
  have sp: "is_space CHR '' ''" by (simp add: is_space_def)
  obtain c cs where c: "w = c # cs" "\<not> is_space c" using assms by (cases w) (auto simp: is_word_def)
  have tw: "takeWhile (\<lambda>c. \<not> is_space c) (w @ CHR '' '' # rest) = w"
    using assms sp by (simp add: is_word_def list_all_iff)
  then show "extract_word (w @ CHR '' '' # rest) = Some (w, CHR '' '' # rest)"
    and "extract_word (CHR '' '' # w @ CHR '' '' # rest) = Some (w, CHR '' '' # rest)"
    using c sp by (auto simp: extract_word_def Let_def)
qed

lemma skip_words_words:
  assumes "list_all is_word ws"
  shows "skip_words (length ws) (CHR '' '' # concat (map (\<lambda>w. w @ '' '') ws) @ rest) = Some (CHR '' '' # rest)"
  using assms
proof (induction ws)
  case (Cons w ws)
  then show ?case
    using extract_word_word(2) [of w "concat (map (\<lambda>w. w @ '' '') ws) @ rest"] by simp
qed simp

lemma skip_first_words:
  assumes "list_all is_word (w # ws)"
  shows "skip_words (length (w # ws)) (concat (map (\<lambda>w. w @ '' '') (w # ws)) @ rest) = Some (CHR '' '' # rest)"
  using assms skip_words_words [of ws rest]
    extract_word_word(1) [of w "concat (map (\<lambda>w. w @ '' '') ws) @ rest"] by simp

subsection \<open>The simulated traffic\<close>

lemma triple_counts:
  fixes xs :: "nat list" and a b c :: "nat \<Rightarrow> u64"
  defines "cs \<equiv> concat (map (\<lambda>i. [PacketIn (a i), PacketOut (b i), Latency (c i)]) xs)"
  shows "sum_list (map packet_in_of cs) = length xs" "sum_list (map packet_out_of cs) = length xs"
    "count_list cs Dropped = 0" "count_list cs AuthFailure = 0"
  unfolding cs_def by (induction xs) simp_all

lemma burst_counts:
  "sum_list (map packet_in_of (simulate_burst pkt)) = 50" "sum_list (map packet_out_of (simulate_burst pkt)) = 50"
  "count_list (simulate_burst pkt) Dropped = 0" "count_list (simulate_burst pkt) AuthFailure = 0"
  unfolding simulate_burst_def Let_def by (simp_all only: triple_counts length_upt)

lemma unat_of_small: "n < 2 ^ 64 \<Longrightarrow> unat (of_nat n :: u64) = n"
  by (simp add: unsigned_of_nat take_bit_nat_eq_self)

lemma pkt_value: "50 * Suc j < 2 ^ 64 \<Longrightarrow> unat (of_nat (50 * j) + 50 :: u64) = 50 * Suc j"
  using unat_of_small [of "50 * Suc j"] by (simp add: add.commute)

lemma pkt_mod:
  "50 * Suc j < 2 ^ 64 \<Longrightarrow> m < 2 ^ 64 \<Longrightarrow> unat ((of_nat (50 * j) + 50 :: u64) mod of_nat m) = (50 * Suc j) mod m"
  by (simp only: unat_mod pkt_value unat_of_small)

lemma iteration_counts:
  assumes "50 * Suc j < 2 ^ 64"
  shows "count_list (simulate_iteration (of_nat (50 * j))) Dropped = of_bool (10 dvd Suc j)"
    and "count_list (simulate_iteration (of_nat (50 * j))) AuthFailure = of_bool (40 dvd Suc j)"
proof -
  let ?p = "of_nat (50 * j) + 50 :: u64"
  have "?p mod 500 < 5 \<longleftrightarrow> (50 * Suc j) mod 500 < 5"
    using pkt_mod [OF assms, of 500] by (simp add: word_less_nat_alt)
  also have "\<dots> \<longleftrightarrow> 10 dvd Suc j"
    using mult_mod_right [of 50 "Suc j" 10, symmetric] by (simp add: dvd_eq_mod_eq_0 del: mult_Suc_right)
  finally have drp: "?p mod 500 < 5 \<longleftrightarrow> 10 dvd Suc j" .
  have "?p mod 2000 = 0 \<longleftrightarrow> (50 * Suc j) mod 2000 = 0"
    using pkt_mod [OF assms, of 2000] by (simp add: unat_eq_0 [symmetric])
  also have "\<dots> \<longleftrightarrow> 40 dvd Suc j"
    using mult_mod_right [of 50 "Suc j" 40, symmetric] by (simp add: dvd_eq_mod_eq_0 del: mult_Suc_right)
  finally have auth: "?p mod 2000 = 0 \<longleftrightarrow> 40 dvd Suc j" .
  have "unat ?p = 50 * Suc j" by (rule pkt_value [OF assms])
  then have "0 < ?p" by (metis mult_is_0 nat.distinct(1) unat_0 word_gt_0 zero_neq_numeral)
  with drp auth show "count_list (simulate_iteration (of_nat (50 * j))) Dropped = of_bool (10 dvd Suc j)"
    and "count_list (simulate_iteration (of_nat (50 * j))) AuthFailure = of_bool (40 dvd Suc j)"
    by (simp_all add: simulate_iteration_def burst_counts)
qed

lemma traffic_counts:
  assumes "50 * n < 2 ^ 64"
  shows "sum_list (map packet_in_of (simulate_traffic n)) = 50 * n"
    and "sum_list (map packet_out_of (simulate_traffic n)) = 50 * n"
    and "count_list (simulate_traffic n) Dropped = n div 10"
    and "count_list (simulate_traffic n) AuthFailure = n div 40"
proof -
  have io: "sum_list (map packet_in_of (simulate_iteration p)) = 50" "sum_list (map packet_out_of (simulate_iteration p)) = 50" for p
    by (simp_all add: simulate_iteration_def burst_counts)
  have step: "simulate_traffic (Suc k) = simulate_traffic k @ simulate_iteration (of_nat (50 * k))" for k
    by (simp add: simulate_traffic_def)
  have div: "Suc k div m = k div m + of_bool (m dvd Suc k)" if "0 < m" for k m :: nat
    using that by (simp add: div_Suc dvd_eq_mod_eq_0)
  have "sum_list (map packet_in_of (simulate_traffic n)) = 50 * n \<and>
    sum_list (map packet_out_of (simulate_traffic n)) = 50 * n \<and>
    count_list (simulate_traffic n) Dropped = n div 10 \<and> count_list (simulate_traffic n) AuthFailure = n div 40"
    using assms
  proof (induction n)
    case 0
    show ?case by (simp add: simulate_traffic_def)
  next
    case (Suc n)
    then show ?case using iteration_counts [OF Suc.prems]
      by (simp only: step map_append sum_list_append io count_list_append div) simp
  qed
  then show "sum_list (map packet_in_of (simulate_traffic n)) = 50 * n"
    and "sum_list (map packet_out_of (simulate_traffic n)) = 50 * n"
    and "count_list (simulate_traffic n) Dropped = n div 10"
    and "count_list (simulate_traffic n) AuthFailure = n div 40" by blast+
qed

section \<open>Properties\<close>

text \<open>
  C22: the lock-free counters lose nothing: however the atomic additions of the recording calls of
  several threads interleave, the counters end with the totals of the calls (modulo \<open>2^64\<close>).
\<close>

theorem counters_exact_concurrent:
  assumes "mset ops = mset (concat (map call_ops cs))"
  shows "fold fetch_add ops t = after_calls cs t"
  using fold_fetch_add_mset [OF assms] fold_calls by metis

theorem counters_exact_concurrent_witness:
  "fold fetch_add [AddReceived 1, AddReceived 1, AddBytesIn 7, AddBytesIn 5] (make_telemetry 0 0) =
     after_calls [PacketIn 5, PacketIn 7] (make_telemetry 0 0)"
  by (rule counters_exact_concurrent) (simp add: record_packet_in_def)

text \<open>
  the user and system times are read from the fourteenth and fifteenth of the words that white
  space separates in \<open>/proc/self/stat\<close>. These are the fields \<open>utime\<close> and \<open>stime\<close> as long as the
  second field, the name of the executable, contains no white space; each one in the name shifts the
  reading by a field.
\<close>

theorem read_times_fields:
  assumes "list_all is_word (w # ws)" and "length (w # ws) = 13" and "u < 2 ^ 64" and "v < 2 ^ 64"
    and "rest = [] \<or> \<not> is_digit (hd rest)"
  shows "read_times (concat (map (\<lambda>w. w @ '' '') (w # ws)) @ to_string u @ '' '' @ to_string v @ rest) =
    (of_nat u, of_nat v)"
proof -
  let ?tail = "to_string u @ '' '' @ to_string v @ rest"
  have "skip_words 13 (concat (map (\<lambda>w. w @ '' '') (w # ws)) @ ?tail) = Some ('' '' @ ?tail)"
    using skip_first_words [OF assms(1), of ?tail] unfolding assms(2) by simp
  moreover have "extract_u64 ('' '' @ ?tail) = (of_nat u, Some ('' '' @ to_string v @ rest))"
    using extract_u64_to_string(1) [OF assms(3)] by (simp add: is_digit_def)
  moreover have "extract_u64 ('' '' @ to_string v @ rest) = (of_nat v, Some rest)"
    using extract_u64_to_string(1) [OF assms(4,5)] .
  ultimately show ?thesis unfolding read_times_def by simp
qed

theorem read_times_fields_witness:
  "read_times ''1 (gw) S 0 1 1 0 -1 4 10 0 0 0 250 75 0 0'' = (250, 75)"
proof -
  have "list_all is_word [''1'', ''(gw)'', ''S'', ''0'', ''1'', ''1'', ''0'', ''-1'', ''4'', ''10'', ''0'', ''0'', ''0'']"
    by (simp add: is_word_def is_space_def)
  moreover have "to_string 250 = ''250''" "to_string 75 = ''75''" by code_simp+
  ultimately show ?thesis using read_times_fields [of "''1''" "[''(gw)'', ''S'', ''0'', ''1'', ''1'', ''0'', ''-1'', ''4'', ''10'', ''0'', ''0'', ''0'']" 250 75 "'' 0 0''"]
    by (simp add: is_digit_def)
qed

text \<open>
  as long as the sum of received and dropped packets does not overflow, the drop rate of a
  snapshot, whatever other threads do between its loads, is the share of the dropped packets it
  reports, between 0 and 100, and the CPU usage is not negative.
\<close>

theorem snapshot_rates:
  assumes "s = fst (take_snapshot fs sysconf now now_cpu obs t)"
    and "unat (snap_received s) + unat (snap_dropped s) < 2 ^ 64"
  shows "drop_rate_pct s * (real (unat (snap_received s)) + real (unat (snap_dropped s))) = 100 * real (unat (snap_dropped s)) \<and>
    0 \<le> drop_rate_pct s \<and> drop_rate_pct s \<le> 100 \<and> 0 \<le> cpu_usage_pct s"
proof -
  define a b where "a = unat (snap_received s)" and "b = unat (snap_dropped s)"
  have snap: "snap_received s = packets_received (obs 0)" "snap_dropped s = packets_dropped (obs 2)"
    "drop_rate_pct s = (let total = real (unat (packets_received (obs 0) + packets_dropped (obs 2)))
       in if total > 0 then real (unat (packets_dropped (obs 2))) / total * 100 else 0)"
    "cpu_usage_pct s = fst (get_cpu_usage_pct fs sysconf now_cpu t)"
    unfolding assms(1) take_snapshot_def Let_def by (simp_all split: prod.splits)
  have "unat (packets_received (obs 0) + packets_dropped (obs 2)) = a + b"
    using assms(2) by (simp add: a_def b_def snap(1,2) unat_add_lem [THEN iffD1])
  then have "drop_rate_pct s = (if real (a + b) > 0 then real b / real (a + b) * 100 else 0)"
    unfolding snap(3) Let_def b_def snap(2) by simp
  moreover have "0 \<le> cpu_usage_pct s"
    unfolding snap(4) by (simp add: get_cpu_usage_pct_def Let_def split: option.splits prod.splits)
  ultimately show ?thesis unfolding a_def [symmetric] b_def [symmetric] by (simp add: divide_le_eq)
qed

theorem snapshot_rates_witness:
  "drop_rate_pct (fst (take_snapshot (\<lambda>_. None) 100 5 6
     (\<lambda>_. (make_telemetry 0 0)\<lparr> packets_received := 3, packets_dropped := 1 \<rparr>) (make_telemetry 0 0))) * 4 = 100"
  using snapshot_rates [OF refl, of "\<lambda>_. None" 100 5 6
     "\<lambda>_. (make_telemetry 0 0)\<lparr> packets_received := 3, packets_dropped := 1 \<rparr>" "make_telemetry 0 0"]
  by (simp add: take_snapshot_def Let_def get_cpu_usage_pct_def)

text \<open>
  a gauge of a non-negative value fills exactly its width: as many marks as the share of the
  maximum that the value has, at most all, and dashes for the rest.
\<close>

theorem bar_gauge_exact:
  assumes "0 \<le> v" and "0 < m" and "0 \<le> w" and "v / m * of_int w < 2 ^ 31"
  shows "\<exists>k \<le> nat w. bar_gauge v m w = Inr (replicate k CHR ''#'' @ replicate (nat w - k) CHR ''-'') \<and>
    k = nat (min \<lfloor>v / m * of_int w\<rfloor> w)"
proof -
  have x: "0 \<le> v / m * of_int w" using assms by simp
  have "in_int32 \<lfloor>v / m * of_int w\<rfloor>"
    using x assms(4) by (auto simp: in_int32_def le_floor_iff floor_less_iff)
  with x assms(2,3) show ?thesis
    by (intro exI [of _ "nat (min \<lfloor>v / m * of_int w\<rfloor> w)"])
      (auto simp: bar_gauge_def trunc_int_def bind_outcome_def Let_def nat_diff_distrib min_def)
qed

theorem bar_gauge_exact_witness: "bar_gauge 50 100 4 = Inr (replicate 2 CHR ''#'' @ replicate 2 CHR ''-'')"
  using bar_gauge_exact [of 50 100 4] by auto

text \<open>
  the simulated traffic of phase 15 has the rates its comments give: \<open>n\<close> iterations make \<open>50 * n\<close>
  packets in each direction, a drop every 500 and an authentication failure every 2000 packets.
\<close>

theorem simulated_totals:
  assumes "50 * n < 2 ^ 64"
  shows "(let t = after_calls (simulate_traffic n) (make_telemetry t0 t1) in
    packets_received t = of_nat (50 * n) \<and> packets_sent t = of_nat (50 * n) \<and>
    packets_dropped t = of_nat (n div 10) \<and> auth_failures t = of_nat (n div 40))"
  unfolding Let_def after_calls_def by (simp only: traffic_counts [OF assms]) (simp add: make_telemetry_def)

theorem simulated_totals_witness:
  "packets_dropped (after_calls (simulate_traffic 100) (make_telemetry 0 0)) = 10"
  using simulated_totals [of 100 0 0] by (simp add: Let_def)

end
