(* ===== verification/Demo_Programs.thy ===== *)
theory Demo_Programs
  imports Gateway_Tests
begin

text \<open>
  The demonstration programs that drive one component and print or assert what it answers:
  \<open>src/phase5_binary_protocol.cpp\<close>, \<open>src/phase12_rate_limiter.cpp\<close> and
  \<open>src/phase22_security_audit.cpp\<close>. Clock readings, random values and uninitialised bytes are
  arguments; a program is the tuple of the values it prints, an audit the list of the conditions
  it asserts.
\<close>

section \<open>Data and operations\<close>

subsection \<open>Phase 5\<close>

record phase5_output =
  hello_length :: u32
  hello_bytes :: "u8 list"
  hello_parsed :: "(u8 \<times> string) option"
  data_bytes :: "u8 list"
  corrupt_rejected :: bool

definition phase5_main :: "endian \<Rightarrow> phase5_output outcome" where
  "phase5_main e =
     bind_outcome (make_packet_str e HELLO ''Gateway Client v1.0'') (\<lambda>hello_pkt.
     bind_outcome (serialize e hello_pkt) (\<lambda>serialized_hello.
     let (ok, parsed_hello) = deserialize e serialized_hello default_packet in
     bind_outcome (make_packet_str e DATA ''Qualcomm High-Performance Gateway Payload'') (\<lambda>data_pkt.
     bind_outcome (serialize e data_pkt) (\<lambda>serialized_data.
     bind_outcome (memcpy_at serialized_data 2 (mem32 e (htonl e 100000))) (\<lambda>corrupt_packet.
       Inr \<lparr> hello_length = get_payload_length e hello_pkt, hello_bytes = serialized_hello,
         hello_parsed = (if ok then Some (get_type parsed_hello, payload_as_string parsed_hello) else None),
         data_bytes = serialized_data,
         corrupt_rejected = (\<not> fst (deserialize e corrupt_packet default_packet)) \<rparr>)))))"

subsection \<open>Phase 12\<close>

text \<open>Requests for one token at the given times, each with the level printed after it.\<close>

fun observed_requests :: "time_ns list \<Rightarrow> TokenBucket \<Rightarrow> ((bool \<times> real) list \<times> TokenBucket) outcome" where
  "observed_requests [] b = Inr ([], b)"
| "observed_requests (t # ts) b =
     bind_outcome (try_consume 1 t b) (\<lambda>(ok, b).
     bind_outcome (observed_requests ts b) (\<lambda>(out, b'). Inr ((ok, current_tokens b) # out, b')))"

definition phase12_test1 :: "time_ns \<Rightarrow> time_ns list \<Rightarrow> (bool \<times> real) list outcome" where
  "phase12_test1 t0 ts =
     bind_outcome (make_limiter 10 5 t0) (\<lambda>limiter.
     bind_outcome (observed_requests ts limiter) (\<lambda>(out, _). Inr out))"

text \<open>The level after draining, the level after the sleep, and the number of the later requests that
  are allowed.\<close>

definition phase12_test2 :: "time_ns \<Rightarrow> time_ns list \<Rightarrow> time_ns list \<Rightarrow> (real \<times> real \<times> nat) outcome" where
  "phase12_test2 t0 drain later =
     bind_outcome (make_limiter 10 10 t0) (\<lambda>limiter.
     bind_outcome (requests (map (Pair 1) drain) limiter) (\<lambda>(_, limiter).
     let drained = current_tokens limiter; after_sleep = current_tokens limiter in
     bind_outcome (requests (map (Pair 1) later) limiter) (\<lambda>(oks, _).
       Inr (drained, after_sleep, length (filter id oks)))))"

definition phase12_test4 :: "time_ns \<Rightarrow> time_ns list \<Rightarrow> (nat \<times> nat) outcome" where
  "phase12_test4 t0 ts =
     bind_outcome (make_limiter 50 50 t0) (\<lambda>gateway_limiter.
     bind_outcome (requests (map (Pair 1) ts) gateway_limiter) (\<lambda>(oks, _).
       Inr (length (filter id oks), length (filter Not oks))))"

subsection \<open>Phase 22\<close>

definition audit_allocation_dos_mitigation :: "endian \<Rightarrow> u8 list \<Rightarrow> bool list outcome" where
  "audit_allocation_dos_mitigation e uninit =
     (let malicious_buf = [PROTOCOL_VERSION, packet_type_code DATA] @ mem32 e (htonl e 500000000) @ uninit
      in Inr [\<not> fst (deserialize e malicious_buf default_packet)])"

definition audit_replay_attack_mitigation ::
  "u64 \<Rightarrow> time_ns \<Rightarrow> time_ns \<Rightarrow> u64 \<Rightarrow> time_ns \<Rightarrow> time_ns \<Rightarrow> bool list outcome" where
  "audit_replay_attack_mitigation raw1 a0 a1 raw2 b0 b1 =
     bind_outcome (make_session 1 ''qualcomm_secret_key'' raw1 a0) (\<lambda>sess1.
     bind_outcome (compute_token (auth_nonce sess1) ''qualcomm_secret_key'') (\<lambda>token1.
     let (ok, _) = submit_token token1 a1 sess1 in
     bind_outcome (make_session 2 ''qualcomm_secret_key'' raw2 b0) (\<lambda>sess2.
       let (replayed_auth, sess2) = submit_token token1 b1 sess2
       in Inr [ok, \<not> replayed_auth, auth_state sess2 = REJECTED])))"

definition audit_rate_limiting_dos_mitigation :: "time_ns \<Rightarrow> time_ns list \<Rightarrow> time_ns \<Rightarrow> bool list outcome" where
  "audit_rate_limiting_dos_mitigation t0 ts t_last =
     bind_outcome (make_limiter 10 10 t0) (\<lambda>limiter.
     bind_outcome (requests (map (Pair 1) ts) limiter) (\<lambda>(oks, limiter).
     bind_outcome (try_consume 1 t_last limiter) (\<lambda>(ok, _).
       Inr (oks @ [\<not> ok]))))"

definition audit_header_packing_safety :: "bool list outcome" where
  "audit_header_packing_safety = Inr [sizeof_PacketHeader = 6]"

section \<open>Specification\<close>

text \<open>A bucket of rate \<open>r\<close> that holds \<open>m\<close> whole tokens and cannot get one more until \<open>T\<close>; it was last
  refilled at \<open>t\<close> at the latest.\<close>

definition level :: "int \<Rightarrow> time_ns \<Rightarrow> nat \<Rightarrow> time_ns \<Rightarrow> TokenBucket \<Rightarrow> bool" where
  "level r T m t b \<longleftrightarrow> bucket_ok b \<and> refill_rate_per_s_micro b = r * MICRO \<and> last_refill b \<le> t \<and>
     int m * MICRO \<le> tokens_micro b \<and> potential T b < (int m + 1) * 10 ^ 15 \<and>
     capacity_micro b \<le> 10 ^ 18 \<and> m \<le> 1000000"

section \<open>Lemmas\<close>

subsection \<open>Bursts\<close>

lemma levelD:
  assumes "level r T m t b"
  shows "bucket_ok b" and "refill_rate_per_s_micro b = r * MICRO" and "last_refill b \<le> t"
    and "int m * MICRO \<le> tokens_micro b" and "potential T b < (int m + 1) * 10 ^ 15"
    and "capacity_micro b \<le> 10 ^ 18" and "m \<le> 1000000"
    and "0 \<le> tokens_micro b" and "tokens_micro b \<le> capacity_micro b" and "0 \<le> r * MICRO"
  using assms by (auto simp: level_def bucket_ok_def)

lemma level_product:
  assumes "level r T m t b" and "t \<le> now" and "now \<le> T"
  shows "refill_rate_per_s_micro b * ((now - last_refill b) div 1000) < 2 ^ 63"
proof -
  note l = levelD [OF assms(1)]
  define R where "R = refill_rate_per_s_micro b"
  define d where "d = (now - last_refill b) div 1000"
  have "R * (T - last_refill b) < (int m + 1) * 10 ^ 15" using l(5,8) by (simp add: potential_def R_def)
  moreover have "R * (d * 1000) \<le> R * (T - last_refill b)"
    using l(2,3,10) assms(2,3) by (intro mult_left_mono) (simp_all add: R_def d_def)
  ultimately have "R * d * 1000 < (int m + 1) * 10 ^ 15" by (simp add: mult.assoc)
  moreover have "(int m + 1) * 10 ^ 15 \<le> 1000001 * 10 ^ 15" using l(7) by simp
  ultimately show ?thesis by (simp add: R_def d_def)
qed

lemma level_refill:
  assumes "level r T m t b" and "t \<le> now" and "now \<le> T"
  shows "\<exists>b'. refill now b = Inr b' \<and> level r T m now b' \<and> tokens_micro b' < (int m + 1) * MICRO"
proof -
  note l = levelD [OF assms(1)]
  have lst: "last_refill b \<le> now" using l(3) assms(2) by simp
  obtain b' where b': "refill now b = Inr b'"
    using refill_defined [OF l(1) lst level_product [OF assms]] l(6) by auto
  note frame = refill_frame [OF b'] and ok' = refill_ok [OF l(1) b']
  have pot: "potential T b' < (int m + 1) * 10 ^ 15"
    using refill_potential [OF b', of T] l(2,5,10) by simp
  have last: "last_refill b' \<le> now" using b' lst by (cases rule: refill_cases) simp_all
  have "0 \<le> refill_rate_per_s_micro b * ((now - last_refill b) div 1000) div 1000000"
    using l(2,10) lst by (simp add: pos_imp_zdiv_nonneg_iff)
  then have "tokens_micro b \<le> tokens_micro b'" using refill_level [OF l(1) lst b'] l(9) by linarith
  then have "int m * MICRO \<le> tokens_micro b'" using l(4) by simp
  then have lvl: "level r T m now b'" using ok' frame last pot l by (simp add: level_def)
  have "0 \<le> refill_rate_per_s_micro b' * (T - last_refill b')" using frame l(2,10) last assms(3) by simp
  then have "tokens_micro b' * 1000000000 < (int m + 1) * 10 ^ 15" using pot by (simp add: potential_def)
  then have "tokens_micro b' < (int m + 1) * MICRO" by (simp add: MICRO_def)
  with b' lvl show ?thesis by blast
qed

lemma level_consume:
  assumes "level r T m t b" and "t \<le> now" and "now \<le> T"
  shows "\<exists>b'. try_consume 1 now b = Inr (0 < m, b') \<and> level r T (m - 1) now b'"
proof -
  obtain b1 where b1: "refill now b = Inr b1" "level r T m now b1" "tokens_micro b1 < (int m + 1) * MICRO"
    using level_refill [OF assms] by blast
  note l = levelD [OF b1(2)]
  show ?thesis
  proof (cases m)
    case 0
    with b1 show ?thesis by (simp add: try_consume_def bind_outcome_def i64_def in_int64_def MICRO_def)
  next
    case (Suc k)
    have "level r T k now (b1\<lparr> tokens_micro := tokens_micro b1 - MICRO \<rparr>)"
      using b1(2) Suc by (auto simp: level_def bucket_ok_def potential_def MICRO_def algebra_simps)
    moreover have "MICRO \<le> tokens_micro b1" "in_int64 (tokens_micro b1 - MICRO)"
      using l(4,6,8,9) Suc by (simp_all add: MICRO_def in_int64_def algebra_simps)
    ultimately show ?thesis
      using b1(1) Suc by (simp add: try_consume_def bind_outcome_def i64_def in_int64_def MICRO_def)
  qed
qed

lemma level_requests:
  assumes "level r T m t b" and "sorted (t # ts)" and "\<forall>x \<in> set ts. x \<le> T"
  shows "\<exists>b'. requests (map (Pair 1) ts) b =
      Inr (replicate (min (length ts) m) True @ replicate (length ts - m) False, b') \<and>
    level r T (m - length ts) (last (t # ts)) b'"
  using assms
proof (induction ts arbitrary: m t b)
  case Nil
  then show ?case by simp
next
  case (Cons x ts)
  obtain b1 where b1: "try_consume 1 x b = Inr (0 < m, b1)" "level r T (m - 1) x b1"
    using level_consume [OF Cons.prems(1), of x] Cons.prems by auto
  obtain b' where "requests (map (Pair 1) ts) b1 =
      Inr (replicate (min (length ts) (m - 1)) True @ replicate (length ts - (m - 1)) False, b')"
      "level r T (m - 1 - length ts) (last (x # ts)) b'"
    using Cons.IH [OF b1(2)] Cons.prems by auto
  with b1 show ?case by (cases m) (simp_all add: bind_outcome_def)
qed

lemma fresh_level:
  assumes "make_limiter (int c) r t0 = Inr b" and "0 \<le> r" and "c \<le> 1000000" and "r * (T - t0) < 10 ^ 9"
  shows "level r T c t0 b"
proof -
  note b = make_limiter_ok [OF assms(1) _ assms(2)]
  have "r * MICRO * (T - t0) < 10 ^ 15" using assms(4) by (simp add: MICRO_def algebra_simps)
  then show ?thesis using b assms(2,3) by (simp add: level_def potential_def MICRO_def algebra_simps)
qed

lemma make_limiter_small:
  "0 \<le> c \<Longrightarrow> c \<le> 1000000 \<Longrightarrow> 0 \<le> r \<Longrightarrow> r \<le> 1000000 \<Longrightarrow> \<exists>b. make_limiter c r t0 = Inr b"
  by (simp add: make_limiter_def bind_outcome_def i64_def in_int64_def MICRO_def)

lemma burst:
  assumes "c \<le> 1000000" and "0 \<le> r" and "r \<le> 1000000" and "sorted (t0 # ts)"
    and "r * (last (t0 # ts) - t0) < 10 ^ 9"
  obtains b b' where "make_limiter (int c) r t0 = Inr b"
    "requests (map (Pair 1) ts) b = Inr (replicate (min (length ts) c) True @ replicate (length ts - c) False, b')"
    "level r (last (t0 # ts)) (c - length ts) (last (t0 # ts)) b'"
proof -
  let ?T = "last (t0 # ts)"
  obtain b where b: "make_limiter (int c) r t0 = Inr b" using make_limiter_small [of "int c" r t0] assms(1-3) by auto
  have "x \<le> ?T" if "x \<in> set ts" for x
    using sorted_nth_mono [OF assms(4)] that
    by (metis in_set_conv_nth last_conv_nth length_Cons less_Suc_eq_le list.discI list.set_intros(2) diff_Suc_1 lessI)
  with level_requests [OF fresh_level [OF b assms(2,1,5)] assms(4)] show ?thesis using b that by blast
qed

text \<open>What is printed after each request does not change the answers.\<close>

lemma observed_defined:
  "requests (map (Pair 1) ts) b = Inr (oks, b') \<Longrightarrow> \<exists>out. observed_requests ts b = Inr (out, b') \<and> map fst out = oks"
  by (induction ts arbitrary: b oks) (auto simp: bind_outcome_Inr split: prod.splits, force)

text \<open>A second refill at the same time does nothing, so a refill may be made ahead of the requests.\<close>

lemma refill_idem:
  assumes "refill now b = Inr b'"
  shows "refill now b' = Inr b'"
  using assms
proof (cases rule: refill_cases)
  case same
  with assms show ?thesis by simp
next
  case (filled a)
  then show ?thesis by (simp add: refill_def refill_amount_def ns_to_us_def cdiv_def bind_outcome_def)
qed

lemma requests_capacity: "requests qs b = Inr (oks, b') \<Longrightarrow> capacity_micro b' = capacity_micro b"
proof (induction qs arbitrary: b oks)
  case (Cons q qs)
  then obtain ok b1 oks1 where r: "try_consume (fst q) (snd q) b = Inr (ok, b1)" "requests qs b1 = Inr (oks1, b')"
    by (auto simp: bind_outcome_Inr)
  from r(1) obtain b2 where "refill (snd q) b = Inr b2" "capacity_micro b1 = capacity_micro b2"
    by (rule try_consume_cases) auto
  with Cons.IH [OF r(2)] refill_frame show ?case by simp
qed simp

lemma requests_refill:
  "refill x b = Inr b' \<Longrightarrow> requests ((n, x) # qs) b = requests ((n, x) # qs) b'"
  by (simp add: try_consume_def refill_idem)

lemma sorted_last: "sorted xs \<Longrightarrow> x \<in> set xs \<Longrightarrow> x \<le> last xs"
  by (induction xs) (auto split: if_splits)

lemma granted_replicate: "granted (map (Pair 1) ts) (replicate (length ts) True) = int (length ts)"
  by (induction ts) auto

text \<open>Half a second after the drained bucket was last refilled it holds five tokens.\<close>

lemma waited_level:
  assumes ok: "bucket_ok b" "capacity_micro b = 10 * MICRO" "refill_rate_per_s_micro b = 10 * MICRO"
    and time: "500000000 \<le> x - last_refill b" "x \<le> T" and pot: "potential T b < 6 * 10 ^ 15"
  shows "\<exists>b1. refill x b = Inr b1 \<and> level 10 T 5 x b1"
proof -
  have lst: "last_refill b \<le> x" using time by simp
  have "0 \<le> tokens_micro b" using ok(1) by (simp add: bucket_ok_def)
  then have "10 * MICRO * (T - last_refill b) < 6 * 10 ^ 15" using pot ok(3) by (simp add: potential_def)
  then have "(x - last_refill b) div 1000 \<le> 600000" using time(2) by (simp add: MICRO_def)
  then obtain b1 where b1: "refill x b = Inr b1"
    using refill_defined [OF ok(1) lst] ok by (auto simp: MICRO_def)
  have "500000 \<le> (x - last_refill b) div 1000" using time(1) by linarith
  then have "5 * MICRO \<le> tokens_micro b1"
    using refill_level [OF ok(1) lst b1] ok \<open>0 \<le> tokens_micro b\<close> by (simp add: MICRO_def)
  moreover have "potential T b1 < 6 * 10 ^ 15" using refill_potential [OF b1, of T] ok(3) pot by (simp add: MICRO_def)
  moreover have "last_refill b1 \<le> x" using b1 lst by (cases rule: refill_cases) simp_all
  ultimately have "level 10 T 5 x b1"
    using refill_ok [OF ok(1) b1] refill_frame [OF b1] ok(2,3) by (simp add: level_def MICRO_def)
  with b1 show ?thesis by blast
qed

lemma test2_later:
  assumes "sorted (t0 # drain @ x # xs)" and "length drain = 10" and "length xs = 7"
    and "10 * (last drain - t0) < 10 ^ 9" and "500000000 \<le> x - last drain" and "last (x # xs) - t0 < 600000000"
  obtains b b1 b2 where "make_limiter 10 10 t0 = Inr b" "requests (map (Pair 1) drain) b = Inr (replicate 10 True, b1)"
    "0 \<le> tokens_micro b1" "tokens_micro b1 < MICRO"
    "requests (map (Pair 1) (x # xs)) b1 = Inr (replicate 5 True @ replicate 3 False, b2)"
proof -
  define T where "T = last (x # xs)"
  have ne: "drain \<noteq> []" using assms(2) by auto
  have sd: "sorted (t0 # drain)" "sorted (x # xs)" "\<forall>y \<in> set drain. y \<le> x" "t0 \<le> x"
    using assms(1) by (auto simp: sorted_append)
  have T: "x \<le> T" "\<forall>y \<in> set (x # xs). y \<le> T"
    using sorted_last [OF sd(2)] by (auto simp: T_def simp del: last.simps)
  obtain b b1 where b: "make_limiter 10 10 t0 = Inr b" "requests (map (Pair 1) drain) b = Inr (replicate 10 True, b1)"
    and lv: "level 10 (last drain) 0 (last drain) b1"
    by (rule burst [of 10 10 t0 drain]) (use assms(2,4) sd(1) ne in \<open>auto simp: less_imp_le\<close>)
  note b_eq = make_limiter_ok [OF b(1)] and l = levelD [OF lv]
  have tok: "0 \<le> tokens_micro b1" "tokens_micro b1 < MICRO"
    using l lv by (auto simp: level_def potential_def MICRO_def)
  have pot: "potential T b1 + 10 * 10 ^ 15 \<le> potential T b"
    using requests_potential [OF b(2), of T] b_eq granted_replicate [of drain] assms(2) sd(3,4) T(1)
    by force
  have "potential T b < 16 * 10 ^ 15" using assms(6) b_eq(2) by (simp add: potential_def MICRO_def T_def)
  then have "potential T b1 < 6 * 10 ^ 15" using pot by simp
  moreover have "last_refill b1 \<le> last drain" by (rule l(3))
  moreover have "capacity_micro b1 = 10 * MICRO" using requests_capacity [OF b(2)] b_eq(2) by simp
  ultimately obtain b2 where b2: "refill x b1 = Inr b2" "level 10 T 5 x b2"
    using waited_level [OF l(1) _ l(2), of x T] assms(5) T(1) by auto
  have "sorted (x # x # xs)" using sd(2) by simp
  then obtain b3 where "requests (map (Pair 1) (x # xs)) b2 = Inr (replicate 5 True @ replicate 3 False, b3)"
    using level_requests [OF b2(2), of "x # xs"] T(2) assms(3) by (auto simp: numeral_eq_Suc)
  then have "requests (map (Pair 1) (x # xs)) b1 = Inr (replicate 5 True @ replicate 3 False, b3)"
    using requests_refill [OF b2(1), of 1] by simp
  with b tok show ?thesis by (rule that)
qed

subsection \<open>Sessions\<close>

lemma replay_audit_passes:
  assumes "raw1 \<noteq> raw2" and "ns_to_s (a1 - a0) < 5" and "ns_to_s (b1 - b0) < 5"
  shows "audit_replay_attack_mitigation raw1 a0 a1 raw2 b0 b1 = Inr [True, True, True]"
proof -
  define secret where "secret = ''qualcomm_secret_key''"
  have ne: "secret \<noteq> []" by (simp add: secret_def)
  obtain a b where a: "make_session 1 secret raw1 a0 = Inr a" and b: "make_session 2 secret raw2 b0 = Inr b"
    using make_session_total [OF ne] by metis
  note tok = session_tokens [OF a b assms] and sa = compute_token_session [OF a]
  show ?thesis
    unfolding audit_replay_attack_mitigation_def secret_def [symmetric]
    using sa tok by (simp add: a b bind_outcome_def case_prod_beta)
qed

section \<open>Properties\<close>

text \<open>
  a burst on a fresh limiter is cut exactly at its capacity: when the requests come so fast that
  the rate adds less than one token, the first \<open>c\<close> of them are allowed and all others are denied.
\<close>

theorem burst_exact:
  assumes "c \<le> 1000000" and "0 \<le> r" and "r \<le> 1000000" and "sorted (t0 # ts)"
    and "r * (last (t0 # ts) - t0) < 10 ^ 9"
  shows "\<exists>b b'. make_limiter (int c) r t0 = Inr b \<and> requests (map (Pair 1) ts) b =
    Inr (replicate (min (length ts) c) True @ replicate (length ts - c) False, b')"
  using assms by (rule burst) blast

theorem burst_exact_witness:
  "\<exists>b b'. make_limiter 2 5 0 = Inr b \<and> requests [(1, 10), (1, 20), (1, 30)] b = Inr ([True, True, False], b')"
  using burst_exact [of 2 5 0 "[10, 20, 30]"] by (simp add: numeral_2_eq_2 del: requests.simps)

text \<open>
  the tests of phase 12: the burst of test 1 is allowed ten times and then denied, that of test 4
  is allowed 50 times and denied 50 times. In test 2 the level printed after the sleep is the one
  printed before it, less than one token, although the program announces about five: only
  \<open>try_consume\<close> refills. The requests after it are allowed five times.
\<close>

theorem phase12_results:
  assumes "length ts1 = 15" and "sorted (s1 # ts1)" and "5 * (last ts1 - s1) < 10 ^ 9"
    and "length drain = 10" and "length later = 8" and "sorted (s2 # drain @ later)"
    and "10 * (last drain - s2) < 10 ^ 9" and "500000000 \<le> hd later - last drain" and "last later - s2 < 600000000"
    and "length ts4 = 100" and "sorted (s4 # ts4)" and "50 * (last ts4 - s4) < 10 ^ 9"
  shows "(\<exists>out. phase12_test1 s1 ts1 = Inr out \<and> map fst out = replicate 10 True @ replicate 5 False) \<and>
    (\<exists>v. phase12_test2 s2 drain later = Inr (v, v, 5) \<and> 0 \<le> v \<and> v < 1) \<and>
    phase12_test4 s4 ts4 = Inr (50, 50)"
proof (intro conjI)
  have ne: "ts1 \<noteq> []" "ts4 \<noteq> []" using assms(1,10) by auto
  obtain b b' where b: "make_limiter (int 10) 5 s1 = Inr b"
    "requests (map (Pair 1) ts1) b = Inr (replicate (min (length ts1) 10) True @ replicate (length ts1 - 10) False, b')"
    by (rule burst [of 10 5 s1 ts1]) (use assms(2,3) ne in auto)
  from observed_defined [OF b(2)] obtain out where "observed_requests ts1 b = Inr (out, b')"
    "map fst out = replicate (min (length ts1) 10) True @ replicate (length ts1 - 10) False" by blast
  then show "\<exists>out. phase12_test1 s1 ts1 = Inr out \<and> map fst out = replicate 10 True @ replicate 5 False"
    using b(1) assms(1) by (simp add: phase12_test1_def bind_outcome_def)
next
  obtain x xs where later: "later = x # xs" using assms(5) by (cases later) auto
  obtain b b1 b2 where b: "make_limiter 10 10 s2 = Inr b" "requests (map (Pair 1) drain) b = Inr (replicate 10 True, b1)"
    "0 \<le> tokens_micro b1" "tokens_micro b1 < MICRO"
    "requests (map (Pair 1) later) b1 = Inr (replicate 5 True @ replicate 3 False, b2)"
    using test2_later [of s2 drain x xs] assms(4-9) unfolding later by (auto simp del: last.simps)
  then show "\<exists>v. phase12_test2 s2 drain later = Inr (v, v, 5) \<and> 0 \<le> v \<and> v < 1"
    by (intro exI [of _ "current_tokens b1"])
      (simp add: phase12_test2_def bind_outcome_def current_tokens_def MICRO_def)
next
  have ne: "ts4 \<noteq> []" using assms(10) by auto
  obtain b b' where b: "make_limiter (int 50) 50 s4 = Inr b"
    "requests (map (Pair 1) ts4) b = Inr (replicate (min (length ts4) 50) True @ replicate (length ts4 - 50) False, b')"
    by (rule burst [of 50 50 s4 ts4]) (use assms(11,12) ne in auto)
  then show "phase12_test4 s4 ts4 = Inr (50, 50)"
    using assms(10) by (simp add: phase12_test4_def bind_outcome_def)
qed

theorem phase12_results_witness:
  "phase12_test4 0 (replicate 100 5) = Inr (50, 50)"
  using phase12_results [of "replicate 15 1" 0 "replicate 10 1" "replicate 8 500000001" 0 "replicate 100 5" 0]
  by (simp add: sorted_append sorted_replicate)

text \<open>
  the audits of phase 22 assert nothing false on a host of either byte order, whatever the
  uninitialised bytes are: given two different random values, and calls in time, all of their
  conditions hold.
\<close>

theorem phase22_audits_pass:
  assumes "raw1 \<noteq> raw2" and "ns_to_s (a1 - a0) < 5" and "ns_to_s (b1 - b0) < 5"
    and "length ts = 10" and "sorted (t0 # ts @ [t11])" and "10 * (t11 - t0) < 10 ^ 9"
  shows "audit_allocation_dos_mitigation e uninit = Inr [True] \<and>
    audit_replay_attack_mitigation raw1 a0 a1 raw2 b0 b1 = Inr [True, True, True] \<and>
    audit_rate_limiting_dos_mitigation t0 ts t11 = Inr (replicate 11 True) \<and>
    audit_header_packing_safety = Inr [True]"
proof (intro conjI)
  show "audit_allocation_dos_mitigation e uninit = Inr [True]"
    by (simp add: audit_allocation_dos_mitigation_def deserialize_wire wire_ok_def packet_consts mem32_htonl)
  show "audit_replay_attack_mitigation raw1 a0 a1 raw2 b0 b1 = Inr [True, True, True]"
    using assms(1-3) by (rule replay_audit_passes)
  have ne: "ts \<noteq> []" using assms(4) by auto
  have le: "last ts \<le> t11" "sorted (t0 # ts)" using assms(5) ne by (auto simp: sorted_append)
  obtain b b' where b: "make_limiter 10 10 t0 = Inr b" "level 10 t11 10 t0 b"
    using make_limiter_small [of 10 10 t0] fresh_level [of 10 10 t0 _ t11] assms(6) by auto
  obtain b1 where b1: "requests (map (Pair 1) ts) b = Inr (replicate 10 True, b1)" "level 10 t11 0 (last (t0 # ts)) b1"
    using level_requests [OF b(2) le(2)] assms(4,5) by (auto simp: sorted_append)
  obtain b2 where "try_consume 1 t11 b1 = Inr (False, b2)"
    using level_consume [OF b1(2), of t11] le(1) ne by auto
  then show "audit_rate_limiting_dos_mitigation t0 ts t11 = Inr (replicate 11 True)"
    using b(1) b1(1) by (simp add: audit_rate_limiting_dos_mitigation_def bind_outcome_def numeral_eq_Suc)
  show "audit_header_packing_safety = Inr [True]"
    by (simp add: audit_header_packing_safety_def sizeof_PacketHeader_def)
qed

theorem phase22_audits_pass_witness:
  "audit_rate_limiting_dos_mitigation 0 (replicate 10 4) 7 = Inr (replicate 11 True)"
  using phase22_audits_pass [of 1 2 0 0 0 0 "replicate 10 4" 0 7 LittleEndian "[]"]
  by (simp add: sorted_append sorted_replicate ns_to_s_def cdiv_def)

text \<open>
  phase 5 prints, on a host of either byte order, the wire format of its two packets, reads the
  first one back, and rejects the second one once its length field is overwritten.
\<close>

theorem phase5_prints:
  "phase5_main e = Inr \<lparr> hello_length = 19,
     hello_bytes = wire_format 1 (map u8_of_char ''Gateway Client v1.0''),
     hello_parsed = Some (1, ''Gateway Client v1.0''),
     data_bytes = wire_format 3 (map u8_of_char ''Qualcomm High-Performance Gateway Payload''),
     corrupt_rejected = True \<rparr>"
proof -
  define h where "h = map u8_of_char ''Gateway Client v1.0''"
  define d where "d = map u8_of_char ''Qualcomm High-Performance Gateway Payload''"
  have len: "length h = 19" "length d = 41" by (simp_all add: h_def d_def)
  obtain p q where p: "make_packet e HELLO h = Inr p" "serialize e p = Inr (wire_format (packet_type_code HELLO) h)"
    "deserialize e (wire_format (packet_type_code HELLO) h) default_packet = (True, q)" "payload q = h"
    "get_type q = packet_type_code HELLO" by (rule binary_suite_steps [of h e HELLO]) (simp_all add: len)
  obtain p' where p': "make_packet e DATA d = Inr p'" "serialize e p' = Inr (wire_format (packet_type_code DATA) d)"
    by (rule binary_suite_steps [of d e DATA]) (simp_all add: len)
  have code: "packet_type_code HELLO = 1" "packet_type_code DATA = 3" by (simp_all add: packet_type_code_def)
  have hl: "get_payload_length e p = 19"
    using p(1) len by (auto simp: make_packet_def get_payload_length_def split: if_splits)
  have str: "payload_as_string q = ''Gateway Client v1.0''" using p(4) by (simp add: payload_as_string_def h_def o_def)
  have "memcpy_at (wire_format 3 d) 2 (be_bytes32 100000) = Inr ([1, 3] @ be_bytes32 100000 @ d)"
    by (simp add: memcpy_at_def wire_format_def packet_consts)
  moreover have "\<not> fst (deserialize e ([1, 3] @ be_bytes32 100000 @ d) default_packet)"
    by (simp add: deserialize_wire wire_ok_def packet_consts)
  ultimately show ?thesis
    unfolding phase5_main_def make_packet_str_def h_def [symmetric] d_def [symmetric]
    using p p' hl str by (simp add: bind_outcome_def mem32_htonl code)
qed

end
