(* ===== verification/Server_Startup.thy ===== *)
theory Server_Startup
  imports RAII_Socket Polling_Servers
begin

text \<open>
  How the servers come up and go down: the sequences of \<open>socket\<close>, \<open>setsockopt\<close>, \<open>fcntl\<close>,
  \<open>bind\<close>, \<open>listen\<close> and \<open>epoll_create1\<close> with their early returns in
  \<open>src/phase1_tcp_server.cpp\<close> to \<open>src/phase4_threadpool_server.cpp\<close>,
  \<open>src/phase6_non_blocking_server.cpp\<close> to \<open>src/phase9_connection_manager_server.cpp\<close> and
  \<open>src/phase11_udp_server.cpp\<close>, and the whole of \<open>main\<close> in phases 1 and 2. The operating system
  is that of \<open>RAII_Socket\<close>: the set of open descriptors, and the number of calls of \<open>close\<close> on a
  descriptor that is not open.
\<close>

section \<open>Data and operations\<close>

text \<open>The answers of the kernel to the calls of the set-up.\<close>

record startup_answers =
  ans_socket :: int
  ans_setsockopt :: bool
  ans_nonblock :: bool
  ans_bind :: bool
  ans_listen :: bool
  ans_epoll_create :: int
  ans_epoll_ctl :: bool

text \<open>A call that hands out a descriptor: one that is not open, or \<open>-1\<close>.\<close>

definition sys_open :: "int \<Rightarrow> os \<Rightarrow> int \<times> os" where
  "sys_open fd s =
     (if 0 \<le> fd \<and> fd \<notin> open_fds s then (fd, s\<lparr> open_fds := insert fd (open_fds s) \<rparr>) else (-1, s))"

text \<open>The set-up ends with an exit code, or with the descriptors the server goes on with.\<close>

datatype startup = Exit int | Listening int | Watching int int

type_synonym startup_prog = "startup_answers \<Rightarrow> os \<Rightarrow> startup \<times> os"

definition setup1 :: startup_prog where
  "setup1 a s =
     (let (server_fd, s) = sys_open (ans_socket a) s in
      if server_fd < 0 then (Exit 1, s)
      else if \<not> ans_setsockopt a then (Exit 1, sys_close server_fd s)
      else if \<not> ans_bind a then (Exit 1, sys_close server_fd s)
      else if \<not> ans_listen a then (Exit 1, sys_close server_fd s)
      else (Listening server_fd, s))"

definition setup2 :: startup_prog where
  "setup2 a s =
     (let (server_fd, s) = sys_open (ans_socket a) s in
      if server_fd < 0 then (Exit 1, s)
      else if \<not> ans_bind a then (Exit 1, sys_close server_fd s)
      else if \<not> ans_listen a then (Exit 1, sys_close server_fd s)
      else (Listening server_fd, s))"

definition setup3 :: startup_prog where
  "setup3 a s =
     (let (server_fd, s) = sys_open (ans_socket a) s in
      if server_fd < 0 then (Exit 1, s)
      else if \<not> ans_bind a then (Exit 1, sys_close server_fd s)
      else if \<not> ans_listen a then (Exit 1, sys_close server_fd s)
      else (Listening server_fd, s))"

definition setup4 :: startup_prog where
  "setup4 a s =
     (let (server_fd, s) = sys_open (ans_socket a) s in
      if server_fd < 0 then (Exit 1, s)
      else if \<not> ans_bind a then (Exit 1, s)
      else if \<not> ans_listen a then (Exit 1, s)
      else (Listening server_fd, s))"

definition setup6 :: startup_prog where
  "setup6 a s =
     (let (server_fd, s) = sys_open (ans_socket a) s in
      if server_fd < 0 then (Exit 1, s)
      else if \<not> ans_nonblock a then (Exit 1, sys_close server_fd s)
      else if \<not> ans_bind a then (Exit 1, s)
      else if \<not> ans_listen a then (Exit 1, s)
      else (Listening server_fd, s))"

definition setup7 :: startup_prog where
  "setup7 a s =
     (let (server_fd, s) = sys_open (ans_socket a) s in
      if server_fd < 0 then (Exit 1, s)
      else if \<not> ans_bind a then (Exit 1, s)
      else if \<not> ans_listen a then (Exit 1, s)
      else let (epoll_fd, s) = sys_open (ans_epoll_create a) s in
        if epoll_fd < 0 then (Exit 1, sys_close server_fd s)
        else if \<not> ans_epoll_ctl a then (Exit 1, sys_close server_fd (sys_close epoll_fd s))
        else (Watching server_fd epoll_fd, s))"

text \<open>Phase 8: when \<open>start\<close> has returned \<open>false\<close>, which \<open>main\<close> does not look at, the destructor of
  the server object closes the socket.\<close>

definition setup8 :: startup_prog where
  "setup8 a s =
     (let (server_fd, s) = sys_open (ans_socket a) s in
      if server_fd < 0 then (Exit 0, s)
      else if \<not> ans_bind a then (Exit 0, sys_close server_fd s)
      else if \<not> ans_listen a then (Exit 0, sys_close server_fd s)
      else (Listening server_fd, s))"

definition setup9 :: startup_prog where
  "setup9 a s =
     (let (server_fd, s) = sys_open (ans_socket a) s in
      if server_fd < 0 then (Exit 1, s)
      else if \<not> ans_bind a then (Exit 1, s)
      else if \<not> ans_listen a then (Exit 1, s)
      else (Listening server_fd, s))"

definition setup11 :: startup_prog where
  "setup11 a s =
     (let (udp_fd, s) = sys_open (ans_socket a) s in
      if udp_fd < 0 then (Exit 1, s)
      else if \<not> ans_bind a then (Exit 1, sys_close udp_fd s)
      else let (epoll_fd, s) = sys_open (ans_epoll_create a) s in
        if epoll_fd < 0 then (Exit 1, sys_close udp_fd s)
        else if \<not> ans_epoll_ctl a then (Exit 1, sys_close epoll_fd (sys_close udp_fd s))
        else (Watching udp_fd epoll_fd, s))"

subsection \<open>The programs of phases 1 and 2\<close>

definition crlf :: string where
  "crlf = [CHR 0x0D, CHR 0x0A]"

definition response_body :: string where
  "response_body = ''Hello from C++ Network Gateway!'' @ [CHR 0x0A]"

definition response_headers :: string where
  "response_headers = ''HTTP/1.1 200 OK'' @ crlf @ ''Content-Type: text/plain'' @ crlf @
     ''Content-Length: 26'' @ crlf @ crlf"

definition response :: string where
  "response = response_headers @ response_body"

text \<open>The result of \<open>main\<close>: its exit code, the descriptors, and the client's stream if it was accepted.
  A \<open>main\<close> that never returns is \<open>Blocked\<close>.\<close>

type_synonym main_result = "(int \<times> os \<times> stream option) call_end"

definition phase1_main :: "startup_answers \<Rightarrow> int \<Rightarrow> stream \<Rightarrow> os \<Rightarrow> main_result" where
  "phase1_main a acc io s =
     (case setup1 a s of
        (Listening server_fd, s) \<Rightarrow>
          let (client_fd, s) = sys_open acc s in
          if client_fd < 0 then Returned (1, sys_close server_fd s, None)
          else and_then (sock_recv (BUFFER_SIZE - 1) io) (\<lambda>(bytes_received, io).
            and_then
              (case bytes_received of
                 Got bs \<Rightarrow>
                   if bs = [] then Returned io
                   else and_then (sock_send False (map u8_of_char response) io) (\<lambda>(bytes_sent, io). Returned io)
               | RecvErr e \<Rightarrow> Returned io)
              (\<lambda>io. Returned (0, sys_close server_fd (sys_close client_fd s), Some io)))
      | (Exit code, s) \<Rightarrow> Returned (code, s, None)
      | (Watching x y, s) \<Rightarrow> UndefinedCall)"

definition phase2_main :: "startup_answers \<Rightarrow> int \<Rightarrow> stream \<Rightarrow> os \<Rightarrow> main_result" where
  "phase2_main a acc io s =
     (case setup2 a s of
        (Listening server_fd, s) \<Rightarrow>
          let (client_fd, s) = sys_open acc s in
          if client_fd < 0 then Returned (1, sys_close server_fd s, None)
          else and_then (echo_loop 0 io) (\<lambda>(total_bytes_echoed, io).
            Returned (0, sys_close server_fd (sys_close client_fd s), Some io))
      | (Exit code, s) \<Rightarrow> Returned (code, s, None)
      | (Watching x y, s) \<Rightarrow> UndefinedCall)"

section \<open>Specification\<close>

text \<open>The descriptors a successful set-up goes on with.\<close>

fun handles :: "startup \<Rightarrow> int set" where
  "handles (Exit c) = {}"
| "handles (Listening fd) = {fd}"
| "handles (Watching fd e) = {fd, e}"

text \<open>What every set-up promises: it closes nothing it has not opened, and when it succeeds it holds
  fresh descriptors, which are the only ones it has added. A clean one leaves nothing open when it
  fails; a reporting one tells its failure by its exit code.\<close>

locale server_setup =
  fixes prog :: startup_prog
  assumes no_bad_close: "prog a s = (r, s') \<Longrightarrow> bad_closes s' = bad_closes s"
    and fresh: "prog a s = (r, s') \<Longrightarrow> handles r \<inter> open_fds s = {}"
    and keeps: "prog a s = (r, s') \<Longrightarrow> open_fds s \<union> handles r \<subseteq> open_fds s'"
    and success: "prog a s = (r, s') \<Longrightarrow> handles r \<noteq> {} \<Longrightarrow> open_fds s' = open_fds s \<union> handles r"

locale clean_setup = server_setup +
  assumes clean: "prog a s = (Exit c, s') \<Longrightarrow> open_fds s' = open_fds s"
begin

lemma accounted: "prog a s = (r, s') \<Longrightarrow> open_fds s' = open_fds s \<union> handles r"
  using clean success by (cases r) force+

lemma account:
  "prog a s = (r, s') \<Longrightarrow>
   open_fds s' = open_fds s \<union> handles r \<and> handles r \<inter> open_fds s = {} \<and> bad_closes s' = bad_closes s"
  using accounted fresh no_bad_close by blast

end

locale reporting_setup = server_setup +
  assumes exit_code: "prog a s = (Exit c, s') \<Longrightarrow> c = 1"

locale sound_setup = clean_setup + reporting_setup

section \<open>Lemmas\<close>

lemmas setup_defs = setup1_def setup2_def setup3_def setup4_def setup6_def setup7_def setup8_def setup9_def setup11_def
  sys_open_def sys_close_def

interpretation start1: sound_setup setup1
  by unfold_locales (auto simp: setup_defs split: if_splits)

interpretation start2: sound_setup setup2
  by unfold_locales (auto simp: setup_defs split: if_splits)

interpretation start3: sound_setup setup3
  by unfold_locales (auto simp: setup_defs split: if_splits)

interpretation start4: reporting_setup setup4
  by unfold_locales (auto simp: setup_defs split: if_splits)

interpretation start6: reporting_setup setup6
  by unfold_locales (auto simp: setup_defs split: if_splits)

interpretation start7: reporting_setup setup7
  by unfold_locales (auto simp: setup_defs split: if_splits)

interpretation start8: clean_setup setup8
  by unfold_locales (auto simp: setup_defs split: if_splits)

interpretation start9: reporting_setup setup9
  by unfold_locales (auto simp: setup_defs split: if_splits)

interpretation start11: sound_setup setup11
  by unfold_locales (auto simp: setup_defs split: if_splits)

lemma open_close:
  assumes "sys_open fd s = (x, s1)" and "0 \<le> x"
  shows "x \<notin> open_fds s" and "open_fds s1 = insert x (open_fds s)" and "bad_closes s1 = bad_closes s"
  using assms by (auto simp: sys_open_def split: if_splits)

lemma sys_open_failed: "sys_open fd s = (x, s1) \<Longrightarrow> x < 0 \<Longrightarrow> s1 = s"
  by (auto simp: sys_open_def split: if_splits)

lemma close_listed:
  "x \<in> open_fds s \<Longrightarrow> open_fds (sys_close x s) = open_fds s - {x} \<and> bad_closes (sys_close x s) = bad_closes s"
  by (simp add: sys_close_def)

text \<open>The common frame of the two programs: a listener, one client, and both closed at the end.\<close>

lemma accept_and_close:
  assumes "open_fds s1 = insert srv (open_fds s)" and "srv \<notin> open_fds s" and "bad_closes s1 = bad_closes s"
    and "sys_open acc s1 = (cl, s2)"
  shows "cl < 0 \<Longrightarrow> open_fds (sys_close srv s2) = open_fds s \<and> bad_closes (sys_close srv s2) = bad_closes s"
    and "0 \<le> cl \<Longrightarrow> open_fds (sys_close srv (sys_close cl s2)) = open_fds s \<and>
      bad_closes (sys_close srv (sys_close cl s2)) = bad_closes s"
proof -
  show "open_fds (sys_close srv s2) = open_fds s \<and> bad_closes (sys_close srv s2) = bad_closes s" if "cl < 0"
    using sys_open_failed [OF assms(4) that] assms(1-3) close_listed [of srv s1] by auto
  show "open_fds (sys_close srv (sys_close cl s2)) = open_fds s \<and>
      bad_closes (sys_close srv (sys_close cl s2)) = bad_closes s" if "0 \<le> cl"
    using open_close [OF assms(4) that] assms(1-3) close_listed [of cl s2] close_listed [of srv "sys_close cl s2"] by auto
qed

lemma setup1_forms: "setup1 a s = (r, s1) \<Longrightarrow> (\<exists>fd. r = Listening fd) \<or> r = Exit 1"
  by (auto simp: setup_defs split: if_splits)

lemma setup2_forms: "setup2 a s = (r, s1) \<Longrightarrow> (\<exists>fd. r = Listening fd) \<or> r = Exit 1"
  by (auto simp: setup_defs split: if_splits)

lemma sock_send_prefix: "sock_send b bs io = Returned (a, io') \<Longrightarrow> \<exists>n. delivered io' = delivered io @ take n bs"
  using sock_send_accepted unfolding accepted_def by blast

section \<open>Properties\<close>

text \<open>
  the set-up of phases 1, 2, 3, 8 and 11 accounts for every descriptor: whatever the kernel
  answers, the descriptors it has added are those it goes on with, which are fresh, so a set-up that
  fails leaves nothing open; and it never closes a descriptor that is not open.
\<close>

theorem setups_account:
  assumes "prog \<in> {setup1, setup2, setup3, setup8, setup11}" and "prog a s = (r, s')"
  shows "open_fds s' = open_fds s \<union> handles r \<and> handles r \<inter> open_fds s = {} \<and> bad_closes s' = bad_closes s"
proof -
  have "clean_setup prog"
    using assms(1) start1.clean_setup_axioms start2.clean_setup_axioms start3.clean_setup_axioms
      start8.clean_setup_axioms start11.clean_setup_axioms by blast
  then show ?thesis using assms(2) by (rule clean_setup.account)
qed

theorem setups_account_witness:
  "open_fds (snd (setup11 \<lparr> ans_socket = 4, ans_setsockopt = True, ans_nonblock = True, ans_bind = True,
     ans_listen = True, ans_epoll_create = 5, ans_epoll_ctl = False \<rparr> \<lparr> open_fds = {0, 1, 2}, bad_closes = 0 \<rparr>)) = {0, 1, 2}"
  using setups_account [of setup11 "\<lparr> ans_socket = 4, ans_setsockopt = True, ans_nonblock = True, ans_bind = True,
     ans_listen = True, ans_epoll_create = 5, ans_epoll_ctl = False \<rparr>" "\<lparr> open_fds = {0, 1, 2}, bad_closes = 0 \<rparr>" "Exit 1"]
  by (simp add: setup11_def sys_open_def sys_close_def)

text \<open>
  C40: phases 4, 6, 7 and 9 return from a failing \<open>bind\<close> or \<open>listen\<close> without closing the socket
  they have created, and phase 8, which does close it, exits with the code 0 of a success.
\<close>

theorem failed_bind_keeps_socket:
  assumes "0 \<le> ans_socket a" and "ans_socket a \<notin> open_fds s" and "ans_nonblock a" and "\<not> (ans_bind a \<and> ans_listen a)"
  shows "(\<forall>prog \<in> {setup4, setup6, setup7, setup9}. fst (prog a s) = Exit 1 \<and>
      open_fds (snd (prog a s)) = insert (ans_socket a) (open_fds s)) \<and>
    fst (setup8 a s) = Exit 0 \<and> open_fds (snd (setup8 a s)) = open_fds s"
  using assms by (auto simp: setup_defs)

theorem failed_bind_keeps_socket_witness:
  "open_fds (snd (setup9 \<lparr> ans_socket = 4, ans_setsockopt = True, ans_nonblock = True, ans_bind = False,
     ans_listen = True, ans_epoll_create = 5, ans_epoll_ctl = False \<rparr> \<lparr> open_fds = {}, bad_closes = 0 \<rparr>)) = {4}"
  using failed_bind_keeps_socket [of "\<lparr> ans_socket = 4, ans_setsockopt = True, ans_nonblock = True, ans_bind = False,
     ans_listen = True, ans_epoll_create = 5, ans_epoll_ctl = False \<rparr>" "\<lparr> open_fds = {}, bad_closes = 0 \<rparr>"]
  by simp

text \<open>
  the single-client server of phase 1. Whenever \<open>main\<close> returns, every descriptor it opened is
  closed, none was closed twice, the exit code is 0 exactly if a client was accepted, and what the
  client got is an initial part of the response.
\<close>

theorem phase1_closes:
  assumes "phase1_main a acc io s = Returned (code, s', out)"
  shows "open_fds s' = open_fds s \<and> bad_closes s' = bad_closes s \<and> (code = 0 \<longleftrightarrow> out \<noteq> None) \<and>
    (\<forall>io'. out = Some io' \<longrightarrow> (\<exists>n. delivered io' = delivered io @ take n (map u8_of_char response)))"
proof -
  obtain r s1 where r: "setup1 a s = (r, s1)" by fastforce
  from setup1_forms [OF r] show ?thesis
  proof (elim disjE exE)
    assume e: "r = Exit 1"
    with assms r start1.clean start1.no_bad_close show ?thesis by (auto simp: phase1_main_def)
  next
    fix srv assume l: "r = Listening srv"
    obtain cl s2 where c: "sys_open acc s1 = (cl, s2)" by fastforce
    note frame = start1.success [OF r] start1.fresh [OF r] start1.no_bad_close [OF r]
    note ends = accept_and_close [of s1 srv s acc cl s2, OF _ _ _ c]
    show ?thesis
    proof (cases "cl < 0")
      case True
      with assms r l c ends(1) frame show ?thesis by (auto simp: phase1_main_def)
    next
      case False
      then obtain ans io1 io2 where io: "sock_recv (BUFFER_SIZE - 1) io = Returned (ans, io1)"
        "(case ans of Got bs \<Rightarrow> if bs = [] then Returned io1
            else and_then (sock_send False (map u8_of_char response) io1) (\<lambda>(_, io). Returned io)
          | RecvErr e \<Rightarrow> Returned io1) = Returned io2"
        "code = 0" "s' = sys_close srv (sys_close cl s2)" "out = Some io2"
        using assms r l c by (auto simp: phase1_main_def and_then_iff)
      have "delivered io1 = delivered io"
        using io(1) sock_recv_Got sock_recv_RecvErr by (cases ans) force+
      then have "\<exists>n. delivered io2 = delivered io @ take n (map u8_of_char response)"
        using io(2) sock_send_prefix [of False "map u8_of_char response" io1]
        by (auto simp: and_then_iff split: recv_answer.splits if_splits intro: exI [of _ 0])
      with io(3-5) ends(2) frame l False show ?thesis by auto
    qed
  qed
qed

theorem phase1_closes_witness:
  "\<exists>s' io'. phase1_main \<lparr> ans_socket = 3, ans_setsockopt = True, ans_nonblock = True, ans_bind = True,
     ans_listen = True, ans_epoll_create = 5, ans_epoll_ctl = True \<rparr> 4
     \<lparr> send_answers = [Took 17], recv_answers = [Got [71, 69, 84]], delivered = [], received = [] \<rparr>
     \<lparr> open_fds = {}, bad_closes = 0 \<rparr> = Returned (0, s', Some io') \<and> open_fds s' = {}"
  using phase1_closes [of "\<lparr> ans_socket = 3, ans_setsockopt = True, ans_nonblock = True, ans_bind = True,
     ans_listen = True, ans_epoll_create = 5, ans_epoll_ctl = True \<rparr>" 4
     "\<lparr> send_answers = [Took 17], recv_answers = [Got [71, 69, 84]], delivered = [], received = [] \<rparr>"
     "\<lparr> open_fds = {}, bad_closes = 0 \<rparr>" 0]
  by (simp add: phase1_main_def setup1_def sys_open_def sock_recv_def sock_send_def BUFFER_SIZE_def sys_close_def)

text \<open>
  the echo server of phase 2. Whenever \<open>main\<close> returns, every descriptor it opened is closed,
  none was closed twice, and the exit code is 0 exactly if a client was accepted.
\<close>

theorem phase2_closes:
  assumes "phase2_main a acc io s = Returned (code, s', out)"
  shows "open_fds s' = open_fds s \<and> bad_closes s' = bad_closes s \<and> (code = 0 \<longleftrightarrow> out \<noteq> None)"
proof -
  obtain r s1 where r: "setup2 a s = (r, s1)" by fastforce
  from setup2_forms [OF r] show ?thesis
  proof (elim disjE exE)
    assume e: "r = Exit 1"
    with assms r start2.clean start2.no_bad_close show ?thesis by (auto simp: phase2_main_def)
  next
    fix srv assume l: "r = Listening srv"
    obtain cl s2 where c: "sys_open acc s1 = (cl, s2)" by fastforce
    note frame = start2.success [OF r] start2.fresh [OF r] start2.no_bad_close [OF r]
    note ends = accept_and_close [of s1 srv s acc cl s2, OF _ _ _ c]
    show ?thesis
    proof (cases "cl < 0")
      case True
      with assms r l c ends(1) frame show ?thesis by (auto simp: phase2_main_def)
    next
      case False
      with assms r l c ends(2) frame show ?thesis by (auto simp: phase2_main_def and_then_iff)
    qed
  qed
qed

theorem phase2_closes_witness:
  "\<exists>s' io'. phase2_main \<lparr> ans_socket = 3, ans_setsockopt = True, ans_nonblock = True, ans_bind = True,
     ans_listen = True, ans_epoll_create = 5, ans_epoll_ctl = True \<rparr> 4
     \<lparr> send_answers = [], recv_answers = [Got []], delivered = [], received = [] \<rparr>
     \<lparr> open_fds = {}, bad_closes = 0 \<rparr> = Returned (0, s', Some io') \<and> open_fds s' = {}"
  using phase2_closes [of "\<lparr> ans_socket = 3, ans_setsockopt = True, ans_nonblock = True, ans_bind = True,
     ans_listen = True, ans_epoll_create = 5, ans_epoll_ctl = True \<rparr>" 4
     "\<lparr> send_answers = [], recv_answers = [Got []], delivered = [], received = [] \<rparr>"
     "\<lparr> open_fds = {}, bad_closes = 0 \<rparr>" 0]
  by (simp add: phase2_main_def setup2_def sys_open_def sock_recv_def echo_loop.simps sys_close_def)

text \<open>
  phase 1 serves its client: when every call of the set-up succeeds and the first \<open>recv\<close> yields
  some bytes, \<open>main\<close> returns 0 after having sent as much of the response as the kernel takes in one
  call. A client that reads the 26 bytes the header announces does not get the 32 bytes of the body.
\<close>

theorem phase1_serves:
  assumes "0 \<le> ans_socket a" and "ans_socket a \<notin> open_fds s" and "ans_setsockopt a" and "ans_bind a" and "ans_listen a"
    and "0 \<le> acc" and "acc \<notin> insert (ans_socket a) (open_fds s)"
    and "recv_answers io = Got bs # rs" and "bs \<noteq> []" and "send_answers io = Took k # ss"
  shows "(\<exists>s' io'. phase1_main a acc io s = Returned (0, s', Some io') \<and>
      delivered io' = delivered io @ take k (map u8_of_char response)) \<and>
    take 26 response_body \<noteq> response_body \<and> length response_body = 32"
  using assms
  by (auto simp: phase1_main_def setup1_def sys_open_def sock_recv_def sock_send_def BUFFER_SIZE_def response_body_def)

theorem phase1_serves_witness:
  "\<exists>s' io'. phase1_main \<lparr> ans_socket = 3, ans_setsockopt = True, ans_nonblock = True, ans_bind = True,
     ans_listen = True, ans_epoll_create = 5, ans_epoll_ctl = True \<rparr> 4
     \<lparr> send_answers = [Took 500], recv_answers = [Got [71]], delivered = [], received = [] \<rparr>
     \<lparr> open_fds = {}, bad_closes = 0 \<rparr> = Returned (0, s', Some io') \<and> delivered io' = take 500 (map u8_of_char response)"
  using phase1_serves [of "\<lparr> ans_socket = 3, ans_setsockopt = True, ans_nonblock = True, ans_bind = True,
     ans_listen = True, ans_epoll_create = 5, ans_epoll_ctl = True \<rparr>" "\<lparr> open_fds = {}, bad_closes = 0 \<rparr>" 4
     "\<lparr> send_answers = [Took 500], recv_answers = [Got [71]], delivered = [], received = [] \<rparr>" "[71]" "[]" 500 "[]"]
  by simp

end
