(* ===== verification/Epoll_Demo.thy ===== *)
theory Epoll_Demo
  imports Server_Startup
begin

text \<open>
  The single-threaded event loop of \<open>src/phase7_epoll_demo.cpp\<close>: twenty calls of \<open>epoll_wait\<close> on a
  listening socket and the clients it has accepted. The kernel side is the interest list of the
  epoll instance and the open descriptors; \<open>epoll_wait\<close> reports descriptors of the interest list, each
  at most once in a batch. A failure of \<open>fcntl\<close>, which the code ignores, has no effect here, and
  the text the server prints is left out.
\<close>

section \<open>Data and operations\<close>

definition MAX_EVENTS :: nat where
  "MAX_EVENTS = 64"

definition EVENT_LOOP_RUNS :: nat where
  "EVENT_LOOP_RUNS = 20"

record demo =
  demo_os :: os
  interest :: "int set"
  demo_sent :: "(int \<times> u8 list) list"

text \<open>A reported descriptor, whether \<open>EPOLLIN\<close> is among its events, and what the calls its handler
  makes are answered: \<open>accept\<close> and \<open>epoll_ctl\<close>, or \<open>recv\<close> and \<open>send\<close>.\<close>

record ready =
  ready_fd :: int
  ready_in :: bool
  ready_accept :: int
  ready_ctl :: bool
  ready_recv :: recv_answer
  ready_send :: send_answer

datatype wait = WaitFailed | Ready "ready list"

text \<open>What \<open>epoll_wait\<close> stores in \<open>events\<close>.\<close>

fun once :: "ready list \<Rightarrow> ready list" where
  "once [] = []"
| "once (e # es) = e # filter (\<lambda>e'. ready_fd e' \<noteq> ready_fd e) (once es)"

definition report :: "demo \<Rightarrow> ready list \<Rightarrow> ready list" where
  "report w es = take MAX_EVENTS (filter (\<lambda>e. ready_fd e \<in> interest w) (once es))"

definition on_accept :: "ready \<Rightarrow> demo \<Rightarrow> demo" where
  "on_accept e w =
     (let (client_fd, s) = sys_open (ready_accept e) (demo_os w) in
      if 0 \<le> client_fd then
        if \<not> ready_ctl e then w\<lparr> demo_os := sys_close client_fd s \<rparr>
        else w\<lparr> demo_os := s, interest := insert client_fd (interest w) \<rparr>
      else w\<lparr> demo_os := s \<rparr>)"

definition close_client :: "int \<Rightarrow> demo \<Rightarrow> demo" where
  "close_client fd w = w\<lparr> interest := interest w - {fd}, demo_os := sys_close fd (demo_os w) \<rparr>"

definition on_client :: "ready \<Rightarrow> demo \<Rightarrow> demo call_end" where
  "on_client e w =
     (case ready_recv e of
        Got bs \<Rightarrow>
          if bs = [] then Returned (close_client (ready_fd e) w)
          else (case ready_send e of
                  SendErr err \<Rightarrow> if err = EPIPE then SigPipe else Returned w
                | Took k \<Rightarrow>
                    Returned (w\<lparr> demo_sent := demo_sent w @ [(ready_fd e, take k (take (BUFFER_SIZE - 1) bs))] \<rparr>))
      | RecvErr err \<Rightarrow> if is_would_block err then Returned w else Returned (close_client (ready_fd e) w))"

definition on_ready :: "int \<Rightarrow> ready \<Rightarrow> demo \<Rightarrow> demo call_end" where
  "on_ready server_fd e w =
     (if ready_fd e = server_fd then Returned (on_accept e w)
      else if ready_in e then on_client e w
      else Returned w)"

fun on_batch :: "int \<Rightarrow> ready list \<Rightarrow> demo \<Rightarrow> demo call_end" where
  "on_batch server_fd [] w = Returned w"
| "on_batch server_fd (e # es) w = and_then (on_ready server_fd e w) (on_batch server_fd es)"

fun demo_loop :: "int \<Rightarrow> nat \<Rightarrow> wait list \<Rightarrow> demo \<Rightarrow> demo call_end" where
  "demo_loop server_fd runs [] w = (if runs < EVENT_LOOP_RUNS then Blocked else Returned w)"
| "demo_loop server_fd runs (WaitFailed # ws) w = Returned w"
| "demo_loop server_fd runs (Ready es # ws) w =
     (if runs < EVENT_LOOP_RUNS
      then and_then (on_batch server_fd (report w es) w) (demo_loop server_fd (runs + 1) ws)
      else Returned w)"

definition phase7_main :: "startup_answers \<Rightarrow> wait list \<Rightarrow> os \<Rightarrow> (int \<times> demo) call_end" where
  "phase7_main a ws s =
     (case setup7 a s of
        (Exit code, s) \<Rightarrow> Returned (code, \<lparr> demo_os = s, interest = {}, demo_sent = [] \<rparr>)
      | (Watching server_fd epoll_fd, s) \<Rightarrow>
          and_then (demo_loop server_fd 0 ws \<lparr> demo_os = s, interest = {server_fd}, demo_sent = [] \<rparr>) (\<lambda>w.
            Returned (0, w\<lparr> demo_os := sys_close server_fd (sys_close epoll_fd (demo_os w)),
              interest := interest w - {server_fd} \<rparr>))
      | (Listening fd, s) \<Rightarrow> UndefinedCall)"

section \<open>Specification\<close>

text \<open>The descriptors of the process: those it started with, the epoll instance, and the interest
  list, which holds the listener; \<open>n\<close> is the number of bad closes at the start.\<close>

definition demo_ok :: "int \<Rightarrow> int set \<Rightarrow> nat \<Rightarrow> demo \<Rightarrow> bool" where
  "demo_ok server_fd base n w \<longleftrightarrow> open_fds (demo_os w) = base \<union> interest w \<and> base \<inter> interest w = {} \<and>
     server_fd \<in> interest w \<and> bad_closes (demo_os w) = n"

definition benign :: "ready \<Rightarrow> bool" where
  "benign e \<longleftrightarrow> ready_send e \<noteq> SendErr EPIPE"

section \<open>Lemmas\<close>

lemma once_distinct: "distinct (map ready_fd (once es))"
proof (induction es)
  case (Cons e es)
  have "distinct (map ready_fd (filter P (once es)))" for P
    using Cons.IH by (rule distinct_map_filter)
  then show ?case by auto
qed simp

lemma once_subset: "set (once es) \<subseteq> set es"
  by (induction es) auto

lemma report_admissible:
  "distinct (map ready_fd (report w es)) \<and> ready_fd ` set (report w es) \<subseteq> interest w \<and> set (report w es) \<subseteq> set es"
proof -
  have "distinct (map ready_fd (filter P (once es)))" for P
    by (rule distinct_map_filter [OF once_distinct])
  then show ?thesis
    using once_subset [of es]
    by (auto simp: report_def take_map [symmetric] intro: distinct_take dest!: in_set_takeD)
qed

lemma on_accept_ok:
  assumes "demo_ok srv base n w"
  shows "demo_ok srv base n (on_accept e w) \<and> interest w \<subseteq> interest (on_accept e w)"
  using assms by (auto simp: on_accept_def demo_ok_def sys_open_def sys_close_def)

lemma close_client_ok:
  assumes "demo_ok srv base n w" and "fd \<in> interest w" and "fd \<noteq> srv"
  shows "demo_ok srv base n (close_client fd w)"
  using assms by (auto simp: close_client_def demo_ok_def sys_close_def)

text \<open>A handler keeps the invariant, and touches no descriptor of the interest list but its own.\<close>

lemma on_ready_ok:
  assumes "on_ready srv e w = Returned w'" and "demo_ok srv base n w" and "ready_fd e \<in> interest w"
  shows "demo_ok srv base n w' \<and> interest w - {ready_fd e} \<subseteq> interest w'"
proof (cases "ready_fd e = srv")
  case True
  with assms on_accept_ok [OF assms(2), of e] show ?thesis by (auto simp: on_ready_def)
next
  case False
  have "demo_ok srv base n (w\<lparr> demo_sent := xs \<rparr>)" for xs
    using assms(2) by (simp add: demo_ok_def)
  with False assms close_client_ok [OF assms(2,3) False] show ?thesis
    by (auto simp: on_ready_def on_client_def close_client_def split: recv_answer.splits send_answer.splits if_splits)
qed

lemma on_batch_ok:
  assumes "on_batch srv es w = Returned w'" and "demo_ok srv base n w"
    and "distinct (map ready_fd es)" and "ready_fd ` set es \<subseteq> interest w"
  shows "demo_ok srv base n w'"
  using assms
proof (induction es arbitrary: w)
  case (Cons e es)
  then obtain u where u: "on_ready srv e w = Returned u" "on_batch srv es u = Returned w'"
    by (auto simp: and_then_iff)
  have "demo_ok srv base n u" "interest w - {ready_fd e} \<subseteq> interest u"
    using on_ready_ok [OF u(1) Cons.prems(2)] Cons.prems(4) by auto
  moreover have "distinct (map ready_fd es)" "ready_fd ` set es \<subseteq> interest w - {ready_fd e}"
    using Cons.prems(3,4) by (auto simp: image_iff)
  ultimately show ?case by (intro Cons.IH [OF u(2)]) blast+
qed simp

lemma demo_loop_ok:
  "demo_loop srv k ws w = Returned w' \<Longrightarrow> demo_ok srv base n w \<Longrightarrow> demo_ok srv base n w'"
proof (induction srv k ws w rule: demo_loop.induct)
  case (3 srv k es ws w)
  show ?case
  proof (cases "k < EVENT_LOOP_RUNS")
    case True
    with 3(2) obtain u where u: "on_batch srv (report w es) w = Returned u" "demo_loop srv (k + 1) ws u = Returned w'"
      by (auto simp: and_then_iff)
    with 3(3) report_admissible have "demo_ok srv base n u" by (blast intro: on_batch_ok)
    with 3(1) True u show ?thesis by simp
  qed (use 3 in simp)
qed (auto split: if_splits)

lemma on_batch_returns: "list_all benign es \<Longrightarrow> \<exists>w'. on_batch srv es w = Returned w'"
proof (induction es arbitrary: w)
  case (Cons e es)
  then have "\<exists>u. on_ready srv e w = Returned u"
    by (auto simp: on_ready_def on_client_def benign_def split: recv_answer.splits send_answer.splits)
  with Cons show ?case by auto
qed simp

lemma demo_loop_returns:
  "EVENT_LOOP_RUNS \<le> k + length ws \<Longrightarrow> list_all (\<lambda>b. case b of WaitFailed \<Rightarrow> True | Ready es \<Rightarrow> list_all benign es) ws \<Longrightarrow>
   \<exists>w'. demo_loop srv k ws w = Returned w'"
proof (induction srv k ws w rule: demo_loop.induct)
  case (3 srv k es ws w)
  then have "list_all benign (report w es)"
    using report_admissible [of w es] by (auto simp: list_all_iff)
  then obtain u where "on_batch srv (report w es) w = Returned u"
    using on_batch_returns by blast
  with 3 show ?case by auto
qed auto

lemma setup7_watching:
  assumes "setup7 a s = (Watching srv ep, s1)"
  shows "srv \<noteq> ep \<and> demo_ok srv (insert ep (open_fds s)) (bad_closes s) \<lparr> demo_os = s1, interest = {srv}, demo_sent = [] \<rparr>"
  using assms by (auto simp: demo_ok_def setup_defs split: if_splits)

section \<open>Properties\<close>

text \<open>
  C38: the epoll server of phase 7 never closes a descriptor that is not open and, when \<open>main\<close> returns
  after a successful set-up, has closed the listener, the epoll instance and every client that left; the
  clients still in the interest list are left open, and nothing else is.
\<close>

theorem phase7_descriptors:
  assumes "setup7 a s = (Watching server_fd epoll_fd, s1)" and "phase7_main a ws s = Returned (code, w)"
  shows "code = 0 \<and> open_fds (demo_os w) = open_fds s \<union> interest w \<and> open_fds s \<inter> interest w = {} \<and>
    server_fd \<notin> open_fds (demo_os w) \<and> epoll_fd \<notin> open_fds (demo_os w) \<and> bad_closes (demo_os w) = bad_closes s"
proof -
  obtain u where u: "demo_loop server_fd 0 ws \<lparr> demo_os = s1, interest = {server_fd}, demo_sent = [] \<rparr> = Returned u"
    "code = 0" "w = u\<lparr> demo_os := sys_close server_fd (sys_close epoll_fd (demo_os u)), interest := interest u - {server_fd} \<rparr>"
    using assms by (auto simp: phase7_main_def and_then_iff)
  note start = setup7_watching [OF assms(1)]
  have "demo_ok server_fd (insert epoll_fd (open_fds s)) (bad_closes s) u"
    using demo_loop_ok [OF u(1)] start by blast
  moreover have "epoll_fd \<notin> open_fds s" "server_fd \<notin> open_fds s"
    using start7.fresh [OF assms(1)] by auto
  ultimately show ?thesis using u start by (auto simp: demo_ok_def sys_close_def)
qed

theorem phase7_descriptors_witness:
  "\<exists>w. phase7_main \<lparr> ans_socket = 3, ans_setsockopt = True, ans_nonblock = True, ans_bind = True,
     ans_listen = True, ans_epoll_create = 4, ans_epoll_ctl = True \<rparr>
     [Ready [\<lparr> ready_fd = 3, ready_in = True, ready_accept = 5, ready_ctl = True, ready_recv = Got [], ready_send = Took 0 \<rparr>], WaitFailed]
     \<lparr> open_fds = {}, bad_closes = 0 \<rparr> = Returned (0, w) \<and> open_fds (demo_os w) = {5}"
  using phase7_descriptors [of "\<lparr> ans_socket = 3, ans_setsockopt = True, ans_nonblock = True, ans_bind = True,
     ans_listen = True, ans_epoll_create = 4, ans_epoll_ctl = True \<rparr>" "\<lparr> open_fds = {}, bad_closes = 0 \<rparr>" 3 4
     "\<lparr> open_fds = {3, 4}, bad_closes = 0 \<rparr>"
     "[Ready [\<lparr> ready_fd = 3, ready_in = True, ready_accept = 5, ready_ctl = True, ready_recv = Got [], ready_send = Took 0 \<rparr>], WaitFailed]"]
  by (auto simp: phase7_main_def setup7_def sys_open_def sys_close_def report_def MAX_EVENTS_def EVENT_LOOP_RUNS_def on_ready_def on_accept_def)

text \<open>
  phase 7 comes to an end: after a successful set-up, \<open>main\<close> returns 0 once \<open>epoll_wait\<close> has
  returned \<open>EVENT_LOOP_RUNS\<close> times, unless the echo to a client that has gone kills it by \<open>SIGPIPE\<close>.
\<close>

theorem phase7_returns:
  assumes "setup7 a s = (Watching server_fd epoll_fd, s1)" and "EVENT_LOOP_RUNS \<le> length ws"
    and "list_all (\<lambda>b. case b of WaitFailed \<Rightarrow> True | Ready es \<Rightarrow> list_all benign es) ws"
  shows "\<exists>w. phase7_main a ws s = Returned (0, w)"
  using assms(1) demo_loop_returns [OF _ assms(3), of 0 server_fd "\<lparr> demo_os = s1, interest = {server_fd}, demo_sent = [] \<rparr>"]
    assms(2)
  by (auto simp: phase7_main_def)

theorem phase7_returns_witness:
  "\<exists>w. phase7_main \<lparr> ans_socket = 3, ans_setsockopt = True, ans_nonblock = True, ans_bind = True,
     ans_listen = True, ans_epoll_create = 4, ans_epoll_ctl = True \<rparr> (replicate 20 (Ready [])) \<lparr> open_fds = {}, bad_closes = 0 \<rparr> = Returned (0, w)"
  by (rule phase7_returns [of _ _ 3 4 "\<lparr> open_fds = {3, 4}, bad_closes = 0 \<rparr>"])
    (auto simp: setup7_def sys_open_def EVENT_LOOP_RUNS_def list_all_iff)

end
