(* ===== verification/Resilience_Audit.thy ===== *)
theory Resilience_Audit
  imports Server_Startup
begin

text \<open>
  The four audits of \<open>src/phase18_resilience_audit.cpp\<close> and its \<open>main\<close>: the RAII wrapper under an
  exception, and the retrying wrappers of \<open>Socket_IO\<close> over local socket pairs. Every audit gets the
  answers of the kernel to the calls it makes. The text it prints is reduced to the verdict and
  the numbers in it.
\<close>

section \<open>Data and operations\<close>

text \<open>The verdict an audit prints, \<open>Silent\<close> when it returns without one.\<close>

datatype verdict = Pass | Fail | Silent

text \<open>\<open>socketpair\<close> hands out two fresh descriptors, or fails.\<close>

definition sys_socketpair :: "(int \<times> int) option \<Rightarrow> os \<Rightarrow> (int \<times> int) option \<times> os" where
  "sys_socketpair p s =
     (case p of
        None \<Rightarrow> (None, s)
      | Some (a, b) \<Rightarrow>
          if 0 \<le> a \<and> 0 \<le> b \<and> a \<noteq> b \<and> a \<notin> open_fds s \<and> b \<notin> open_fds s
          then (Some (a, b), s\<lparr> open_fds := insert a (insert b (open_fds s)) \<rparr>) else (None, s))"

text \<open>Audit 1, with the answer of \<open>socket\<close>. The exception leaves the block, which destroys the wrapper;
  with assertions compiled in, the result is \<open>None\<close> when
  the assertion fails.\<close>

definition audit_raii_socket_safety :: "int \<Rightarrow> os \<Rightarrow> (verdict \<times> os) option" where
  "audit_raii_socket_safety answer s =
     (let (fd, s) = sys_open answer s; sock = make_socket fd in
      if \<not> is_valid sock then None
      else
        let leaked_fd = sock;
            s = destroy_socket sock s;
            ebadf = (leaked_fd \<notin> open_fds s);
            s = sys_close leaked_fd s
        in Some (if ebadf then Pass else Fail, s))"

definition msg :: "u8 list" where
  "msg = map u8_of_char ''Qualcomm Gateway Resilience Audit Payload''"

definition RECV_BUF :: nat where
  "RECV_BUF = 128"

text \<open>Audit 2: the bytes the kernel has taken at one end are what it hands out at the other, after
  any number of interruptions; while none are there, \<open>recv\<close> blocks. It prints the two results and
  the text received, and passes in any case.\<close>

definition other_end :: "nat \<Rightarrow> stream \<Rightarrow> stream" where
  "other_end interrupts io =
     \<lparr> send_answers = [],
       recv_answers = replicate interrupts (RecvErr EINTR) @ (if delivered io = [] then [] else [Got (delivered io)]),
       delivered = [], received = [] \<rparr>"

definition audit_ein_tr_retry_handler ::
  "(int \<times> int) option \<Rightarrow> stream \<Rightarrow> nat \<Rightarrow> os \<Rightarrow> (verdict \<times> (int \<times> int \<times> u8 list) option \<times> os) call_end" where
  "audit_ein_tr_retry_handler sv io interrupts s =
     (case sys_socketpair sv s of
        (None, s) \<Rightarrow> Returned (Silent, None, s)
      | (Some (sv0, sv1), s) \<Rightarrow>
          let s1 = make_socket sv0; s2 = make_socket sv1 in
          and_then (send_with_retry msg io) (\<lambda>(sent, io).
            and_then (recv_with_retry RECV_BUF (other_end interrupts io)) (\<lambda>(recvd, recv_buf, io).
              Returned (Pass, Some (sent, recvd, recv_buf), destroy_socket s1 (destroy_socket s2 s)))))"

definition data :: "u8 list" where
  "data = map u8_of_char ''Test payload for closed reader''"

definition audit_epipe_broken_pipe_suppression :: "(int \<times> int) option \<Rightarrow> stream \<Rightarrow> os \<Rightarrow> (verdict \<times> os) call_end" where
  "audit_epipe_broken_pipe_suppression sv io s =
     (case sys_socketpair sv s of
        (None, s) \<Rightarrow> Returned (Silent, s)
      | (Some (sv0, sv1), s) \<Rightarrow>
          let writer = make_socket sv0; reader = make_socket sv1; s = destroy_socket reader s in
          and_then (send_with_retry data io) (\<lambda>(result, io).
            Returned (if result < 0 then Pass else Silent, destroy_socket writer s)))"

definition audit_econnreset_handling :: "(int \<times> int) option \<Rightarrow> stream \<Rightarrow> os \<Rightarrow> (verdict \<times> os) call_end" where
  "audit_econnreset_handling sv io s =
     (case sys_socketpair sv s of
        (None, s) \<Rightarrow> Returned (Silent, s)
      | (Some (sv0, sv1), s) \<Rightarrow>
          let s1 = make_socket sv0; s2 = make_socket sv1; (s2, s) = reset_socket (-1) s2 s in
          and_then (recv_with_retry 32 io) (\<lambda>(res, buf, io).
            Returned (if res \<le> 0 then Pass else Silent, destroy_socket s1 (destroy_socket s2 s))))"

record audit_answers =
  answer1 :: int
  pair2 :: "(int \<times> int) option"
  io2 :: stream
  interrupts2 :: nat
  pair3 :: "(int \<times> int) option"
  io3 :: stream
  pair4 :: "(int \<times> int) option"
  io4 :: stream

text \<open>\<open>main\<close>: the exit code and the verdicts; \<open>None\<close> is a failed assertion.\<close>

definition phase18_main :: "audit_answers \<Rightarrow> os \<Rightarrow> (int \<times> verdict list \<times> os) call_end option" where
  "phase18_main a s =
     (case audit_raii_socket_safety (answer1 a) s of
        None \<Rightarrow> None
      | Some (v1, s) \<Rightarrow> Some (
          and_then (audit_ein_tr_retry_handler (pair2 a) (io2 a) (interrupts2 a) s) (\<lambda>(v2, _, s).
          and_then (audit_epipe_broken_pipe_suppression (pair3 a) (io3 a) s) (\<lambda>(v3, s).
          and_then (audit_econnreset_handling (pair4 a) (io4 a) s) (\<lambda>(v4, s).
            Returned (0, [v1, v2, v3, v4], s))))))"

section \<open>Lemmas\<close>

text \<open>A socket pair, and that closing both ends, in either of the two ways the audits do, restores the
  descriptors.\<close>

lemma socketpair_cases:
  obtains (none) "sys_socketpair sv s = (None, s)"
  | (both) a b s1 where "sys_socketpair sv s = (Some (a, b), s1)" "destroy_socket a (destroy_socket b s1) = s"
      "destroy_socket a (destroy_socket (-1) (snd (close_fd b s1))) = s"
proof (cases "sys_socketpair sv s")
  case (Pair p s1)
  show thesis
  proof (cases p)
    case None
    with Pair have "s1 = s" by (auto simp: sys_socketpair_def split: option.splits if_splits)
    with None Pair none show thesis by simp
  next
    case (Some ab)
    then obtain a b where ab: "sys_socketpair sv s = (Some (a, b), s1)" using Pair by (cases ab) simp
    then have "0 \<le> a" "0 \<le> b" "a \<noteq> b" "s1 = s\<lparr> open_fds := insert a (insert b (open_fds s)) \<rparr>"
      "insert a (insert b (open_fds s)) - {b} - {a} = open_fds s"
      by (auto simp: sys_socketpair_def split: option.splits if_splits)
    then have "destroy_socket a (destroy_socket b s1) = s"
      by (simp add: destroy_socket_def close_fd_def sys_close_def)
    with both [OF ab] show thesis by (simp add: destroy_socket_def close_fd_def)
  qed
qed

lemma socketpair_fresh:
  "0 \<le> a \<Longrightarrow> 0 \<le> b \<Longrightarrow> a \<noteq> b \<Longrightarrow> a \<notin> open_fds s \<Longrightarrow> b \<notin> open_fds s \<Longrightarrow> \<exists>s1. sys_socketpair (Some (a, b)) s = (Some (a, b), s1)"
  by (simp add: sys_socketpair_def)

lemma audit1_result:
  assumes "audit_raii_socket_safety answer s = Some (v, s')"
  shows "v = Pass \<and> open_fds s' = open_fds s \<and> bad_closes s' = bad_closes s + 1"
  using assms
  by (auto simp: audit_raii_socket_safety_def sys_open_def make_socket_def is_valid_def destroy_socket_def
      close_fd_def sys_close_def Let_def split: if_splits)

text \<open>The audits over socket pairs leave the descriptors as they found them.\<close>

text \<open>The audits over socket pairs leave the descriptors as they found them.\<close>

lemma audit2_closes: "audit_ein_tr_retry_handler sv io k s = Returned (v, out, s') \<Longrightarrow> s' = s"
  by (cases sv s rule: socketpair_cases)
    (auto simp: audit_ein_tr_retry_handler_def make_socket_def and_then_iff)

lemma audit3_closes: "audit_epipe_broken_pipe_suppression sv io s = Returned (v, s') \<Longrightarrow> s' = s"
  by (cases sv s rule: socketpair_cases)
    (auto simp: audit_epipe_broken_pipe_suppression_def make_socket_def and_then_iff)

lemma audit4_closes: "audit_econnreset_handling sv io s = Returned (v, s') \<Longrightarrow> s' = s"
  by (cases sv s rule: socketpair_cases)
    (auto simp: audit_econnreset_handling_def make_socket_def reset_socket_def case_prod_beta and_then_iff)

text \<open>What the audits over socket pairs see when the kernel behaves as documented.\<close>

lemma send_with_retry_whole:
  assumes "progressing (send_answers io)" and "length bs \<le> takes (send_answers io)"
  shows "\<exists>t. send_with_retry bs io = Returned (int (length bs), t) \<and> delivered t = delivered io @ bs"
  using send_with_retry_loop_full [of io bs 0] assms by (auto simp: send_with_retry_def accepted_def)

lemma audit2_passes:
  assumes "sys_socketpair sv s = (Some (a, b), s1)" and "progressing (send_answers io)"
    and "length msg \<le> takes (send_answers io)" and "delivered io = []"
  shows "\<exists>s'. audit_ein_tr_retry_handler sv io k s = Returned (Pass, Some (int (length msg), int (length msg), msg), s')"
proof -
  obtain t where t: "send_with_retry msg io = Returned (int (length msg), t)" "delivered t = msg"
    using send_with_retry_whole [OF assms(2,3)] assms(4) by auto
  then have "recv_answers (other_end k t) = replicate k (RecvErr EINTR) @ Got msg # []"
    by (simp add: other_end_def msg_def)
  from recv_with_retry_interrupted [OF this, of RECV_BUF] obtain u where
    "recv_with_retry RECV_BUF (other_end k t) = Returned (int (length msg), msg, u)"
    by (auto simp: msg_def RECV_BUF_def)
  with assms(1) t show ?thesis by (simp add: audit_ein_tr_retry_handler_def Let_def)
qed

lemma audit3_passes:
  assumes "sys_socketpair sv s = (Some (a, b), s1)" and "send_answers io = SendErr EPIPE # rs"
  shows "\<exists>s'. audit_epipe_broken_pipe_suppression sv io s = Returned (Pass, s')"
  using assms
  by (simp add: audit_epipe_broken_pipe_suppression_def Let_def send_with_retry_def data_def
      send_with_retry_loop.simps [of _ 0 io] sock_send_def)

lemma audit4_passes:
  assumes "sys_socketpair sv s = (Some (a, b), s1)" and "recv_answers io = Got [] # rs \<or> recv_answers io = RecvErr ECONNRESET # rs"
  shows "\<exists>s'. audit_econnreset_handling sv io s = Returned (Pass, s')"
  using assms
  by (auto simp: audit_econnreset_handling_def Let_def case_prod_beta recv_with_retry.simps [of _ io] sock_recv_def)

section \<open>Properties\<close>

text \<open>
  whatever the kernel answers, when phase 18 runs to its end it exits with code 0, every
  descriptor it opened is closed, and the only call of \<open>close\<close> on a descriptor that is not open is the one
  by which the first audit finds out that the wrapper has closed its socket while the exception
  was propagated, so that this audit passes.
\<close>

theorem phase18_descriptors:
  assumes "phase18_main a s = Some (Returned (code, vs, s'))"
  shows "code = 0 \<and> open_fds s' = open_fds s \<and> bad_closes s' = bad_closes s + 1 \<and> hd vs = Pass"
proof -
  from assms obtain v1 t1 where 1: "audit_raii_socket_safety (answer1 a) s = Some (v1, t1)"
    by (auto simp: phase18_main_def split: option.splits)
  with assms obtain v2 o2 t2 v3 t3 v4 where
    "audit_ein_tr_retry_handler (pair2 a) (io2 a) (interrupts2 a) t1 = Returned (v2, o2, t2)"
    "audit_epipe_broken_pipe_suppression (pair3 a) (io3 a) t2 = Returned (v3, t3)"
    "audit_econnreset_handling (pair4 a) (io4 a) t3 = Returned (v4, s')" "code = 0" "vs = [v1, v2, v3, v4]"
    by (auto simp: phase18_main_def and_then_iff)
  with audit2_closes audit3_closes audit4_closes have "t2 = t1" "t3 = t2" "s' = t3" "code = 0" "hd vs = v1" by auto
  with audit1_result [OF 1] show ?thesis by simp
qed

theorem phase18_descriptors_witness:
  "(case phase18_main \<lparr> answer1 = 3, pair2 = None, io2 = \<lparr> send_answers = [], recv_answers = [], delivered = [], received = [] \<rparr>,
      interrupts2 = 0, pair3 = None, io3 = \<lparr> send_answers = [], recv_answers = [], delivered = [], received = [] \<rparr>,
      pair4 = Some (3, 4), io4 = \<lparr> send_answers = [], recv_answers = [Got []], delivered = [], received = [] \<rparr> \<rparr>
      \<lparr> open_fds = {0}, bad_closes = 0 \<rparr> of Some (Returned (code, vs, s')) \<Rightarrow> open_fds s' = {0} \<and> bad_closes s' = 1 | _ \<Rightarrow> False)"
proof -
  let ?a = "\<lparr> answer1 = 3, pair2 = None, io2 = \<lparr> send_answers = [], recv_answers = [], delivered = [], received = [] \<rparr>,
      interrupts2 = 0, pair3 = None, io3 = \<lparr> send_answers = [], recv_answers = [], delivered = [], received = [] \<rparr>,
      pair4 = Some (3, 4), io4 = \<lparr> send_answers = [], recv_answers = [Got []], delivered = [], received = [] \<rparr> \<rparr>"
  have "\<exists>r. phase18_main ?a \<lparr> open_fds = {0}, bad_closes = 0 \<rparr> = Some (Returned r)"
    by (simp add: phase18_main_def audit_raii_socket_safety_def audit_ein_tr_retry_handler_def
        audit_epipe_broken_pipe_suppression_def audit_econnreset_handling_def sys_socketpair_def sys_open_def
        make_socket_def is_valid_def destroy_socket_def close_fd_def sys_close_def reset_socket_def
        recv_with_retry.simps sock_recv_def)
  then show ?thesis using phase18_descriptors [of ?a "\<lparr> open_fds = {0}, bad_closes = 0 \<rparr>"]
    by (auto split: option.splits call_end.splits)
qed

text \<open>
  on a kernel that behaves as documented all four audits of phase 18 pass: when the pairs are
  created, the first \<open>send\<close> takes the message in any number of parts and interruptions, the \<open>send\<close> to the
  closed end is answered \<open>EPIPE\<close> and the \<open>recv\<close> from the closed end by the end of the stream or
  \<open>ECONNRESET\<close>, the program is not killed by \<open>SIGPIPE\<close> and the payload of the second audit arrives unchanged.
\<close>

theorem phase18_passes:
  assumes "0 \<le> answer1 a" and "answer1 a \<notin> open_fds s"
    and "\<And>p. p \<in> {pair2 a, pair3 a, pair4 a} \<Longrightarrow>
      \<exists>x y. p = Some (x, y) \<and> 0 \<le> x \<and> 0 \<le> y \<and> x \<noteq> y \<and> x \<notin> open_fds s \<and> y \<notin> open_fds s"
    and "progressing (send_answers (io2 a))" and "length msg \<le> takes (send_answers (io2 a))" and "delivered (io2 a) = []"
    and "send_answers (io3 a) = SendErr EPIPE # rs3"
    and "recv_answers (io4 a) = Got [] # rs4 \<or> recv_answers (io4 a) = RecvErr ECONNRESET # rs4"
  shows "\<exists>s'. phase18_main a s = Some (Returned (0, [Pass, Pass, Pass, Pass], s')) \<and>
    (\<exists>s''. audit_ein_tr_retry_handler (pair2 a) (io2 a) (interrupts2 a) s =
      Returned (Pass, Some (int (length msg), int (length msg), msg), s''))"
proof -
  have pairs: "\<exists>x y u. sys_socketpair p t = (Some (x, y), u)"
    if p: "p \<in> {pair2 a, pair3 a, pair4 a}" and t: "open_fds t = open_fds s" for p t
    using assms(3) [OF p] t socketpair_fresh by metis
  obtain v1 t where "audit_raii_socket_safety (answer1 a) s = Some (v1, t)"
    using assms(1,2) by (auto simp: audit_raii_socket_safety_def sys_open_def make_socket_def is_valid_def Let_def)
  with audit1_result have 1: "audit_raii_socket_safety (answer1 a) s = Some (Pass, t)" "open_fds t = open_fds s" by auto
  have 2: "audit_ein_tr_retry_handler (pair2 a) (io2 a) (interrupts2 a) u =
      Returned (Pass, Some (int (length msg), int (length msg), msg), u)" if "open_fds u = open_fds s" for u
    using pairs [of "pair2 a" u] that audit2_passes [OF _ assms(4-6)] audit2_closes by blast
  have 3: "audit_epipe_broken_pipe_suppression (pair3 a) (io3 a) t = Returned (Pass, t)"
    using pairs [of "pair3 a" t] 1(2) audit3_passes [OF _ assms(7)] audit3_closes by blast
  have 4: "audit_econnreset_handling (pair4 a) (io4 a) t = Returned (Pass, t)"
    using pairs [of "pair4 a" t] 1(2) audit4_passes [OF _ assms(8)] audit4_closes by blast
  from 1 2 [OF 1(2)] 3 4 have "phase18_main a s = Some (Returned (0, [Pass, Pass, Pass, Pass], t))"
    by (simp add: phase18_main_def)
  with 2 [of s] show ?thesis by simp
qed

theorem phase18_passes_witness:
  "\<exists>s'. phase18_main \<lparr> answer1 = 3, pair2 = Some (3, 4),
      io2 = \<lparr> send_answers = SendErr EINTR # replicate 41 (Took 1), recv_answers = [], delivered = [], received = [] \<rparr>,
      interrupts2 = 2, pair3 = Some (3, 4), io3 = \<lparr> send_answers = [SendErr EPIPE], recv_answers = [], delivered = [], received = [] \<rparr>,
      pair4 = Some (3, 4), io4 = \<lparr> send_answers = [], recv_answers = [Got []], delivered = [], received = [] \<rparr> \<rparr>
      \<lparr> open_fds = {0}, bad_closes = 0 \<rparr> = Some (Returned (0, [Pass, Pass, Pass, Pass], s'))"
proof -
  have "progressing (replicate n (Took 1))" "takes (replicate n (Took 1)) = n" for n
    by (induction n) simp_all
  then show ?thesis
    using phase18_passes [of "\<lparr> answer1 = 3, pair2 = Some (3, 4),
      io2 = \<lparr> send_answers = SendErr EINTR # replicate 41 (Took 1), recv_answers = [], delivered = [], received = [] \<rparr>,
      interrupts2 = 2, pair3 = Some (3, 4), io3 = \<lparr> send_answers = [SendErr EPIPE], recv_answers = [], delivered = [], received = [] \<rparr>,
      pair4 = Some (3, 4), io4 = \<lparr> send_answers = [], recv_answers = [Got []], delivered = [], received = [] \<rparr> \<rparr>"
      "\<lparr> open_fds = {0}, bad_closes = 0 \<rparr>" "[]" "[]"]
    by (simp add: msg_def)
qed

end
