(* ===== verification/Limiter_Stress.thy ===== *)
theory Limiter_Stress
  imports Rate_Limiter
begin

text \<open>
  Programs that let several threads share one rate limiter: the burst of eight threads in
  \<open>src/phase17_stress_fuzzer.cpp\<close> and the four clients of test 3 in
  \<open>src/phase12_rate_limiter.cpp\<close>. Every thread runs the machine of \<open>Rate_Limiter\<close> for each of its
  requests and records the answer, in shared atomic counters or in its own local ones.
\<close>

section \<open>Data and operations\<close>

text \<open>The shared limiter, the requests each thread has left, and the counters.\<close>

record 'c crew =
  lim :: limiter_sys
  remaining :: "nat \<Rightarrow> nat"
  tallied :: 'c

text \<open>One atomic step of a thread: inside \<open>try_consume\<close> a step of the limiter, after it the recording of
  the answer, with which the next iteration begins. A thread without requests left has returned.\<close>

fun crew_act :: "(nat \<Rightarrow> bool \<Rightarrow> 'c \<Rightarrow> 'c) \<Rightarrow> action \<Rightarrow> 'c crew \<Rightarrow> 'c crew outcome" where
  "crew_act tally (Act i t spurious) b =
     (if remaining b i = 0 then Inr b
      else case pcs (lim b) i of
          Done ok \<Rightarrow>
            Inr (b\<lparr> lim := at_pc i Start (lim b), remaining := (remaining b)(i := remaining b i - 1),
              tallied := tally i ok (tallied b) \<rparr>)
        | _ \<Rightarrow> bind_outcome (limiter_act (Act i t spurious) (lim b)) (\<lambda>l. Inr (b\<lparr> lim := l \<rparr>)))"

fun crew_run :: "(nat \<Rightarrow> bool \<Rightarrow> 'c \<Rightarrow> 'c) \<Rightarrow> action list \<Rightarrow> 'c crew \<Rightarrow> 'c crew outcome" where
  "crew_run tally [] b = Inr b"
| "crew_run tally (a # as) b = bind_outcome (crew_act tally a b) (crew_run tally as)"

text \<open>\<open>threads\<close> threads of \<open>reqs\<close> requests for one token each.\<close>

definition crew_start :: "nat \<Rightarrow> nat \<Rightarrow> int \<Rightarrow> int \<Rightarrow> time_ns \<Rightarrow> 'c \<Rightarrow> 'c crew" where
  "crew_start threads reqs c r now c0 =
     \<lparr> lim = limiter_init c r now (\<lambda>_. 1), remaining = (\<lambda>i. if i < threads then reqs else 0), tallied = c0 \<rparr>"

definition joined_all :: "'c crew \<Rightarrow> nat \<Rightarrow> bool" where
  "joined_all b threads \<longleftrightarrow> list_all (\<lambda>i. remaining b i = 0) [0..<threads]"

subsection \<open>Phase 17\<close>

definition THREADS :: nat where
  "THREADS = 8"

definition REQUESTS_PER_THREAD :: nat where
  "REQUESTS_PER_THREAD = 100"

record burst_totals =
  total_allowed :: u64
  total_denied :: u64

definition tally17 :: "nat \<Rightarrow> bool \<Rightarrow> burst_totals \<Rightarrow> burst_totals" where
  "tally17 i ok c = (if ok then c\<lparr> total_allowed := total_allowed c + 1 \<rparr> else c\<lparr> total_denied := total_denied c + 1 \<rparr>)"

definition run_burst_contention_test :: "time_ns \<Rightarrow> action list \<Rightarrow> burst_totals crew outcome" where
  "run_burst_contention_test now as =
     crew_run tally17 as (crew_start THREADS REQUESTS_PER_THREAD 100 50 now \<lparr> total_allowed = 0, total_denied = 0 \<rparr>)"

subsection \<open>Phase 12, test 3\<close>

text \<open>The local counters \<open>allowed\<close> and \<open>denied\<close> of the \<open>simulate_client\<close> each thread runs.\<close>

definition tally12 :: "nat \<Rightarrow> bool \<Rightarrow> (nat \<Rightarrow> int \<times> int) \<Rightarrow> (nat \<Rightarrow> int \<times> int)" where
  "tally12 i ok c = c(i := if ok then (fst (c i) + 1, snd (c i)) else (fst (c i), snd (c i) + 1))"

definition phase12_test3 :: "time_ns \<Rightarrow> action list \<Rightarrow> (nat \<Rightarrow> int \<times> int) crew outcome" where
  "phase12_test3 now as = crew_run tally12 as (crew_start 4 10 20 10 now (\<lambda>_. (0, 0)))"

section \<open>Specification\<close>

text \<open>The answers recorded so far, in order; what the counters show of them.\<close>

type_synonym answers = "(nat \<times> bool) list"

definition tally_all :: "(nat \<Rightarrow> bool \<Rightarrow> 'c \<Rightarrow> 'c) \<Rightarrow> answers \<Rightarrow> 'c \<Rightarrow> 'c" where
  "tally_all tally as c = fold (\<lambda>(i, ok). tally i ok) as c"

definition grants :: "answers \<Rightarrow> nat" where
  "grants as = length (filter snd as)"

definition of_thread :: "nat \<Rightarrow> answers \<Rightarrow> answers" where
  "of_thread i as = filter (\<lambda>a. fst a = i) as"

text \<open>The limiter under unit requests: a level a thread has loaded, or a refusal, tells how much has
  been granted.\<close>

definition unit_inv :: "int \<Rightarrow> limiter_sys \<Rightarrow> bool" where
  "unit_inv c s \<longleftrightarrow> limiter_inv c s \<and> (\<forall>i. need s i = 1) \<and> 0 \<le> added_micro s \<and>
     (\<forall>i k. pcs s i = CasConsume k \<longrightarrow> c * MICRO \<le> k + granted_micro s) \<and>
     (\<forall>i. pcs s i = Done False \<longrightarrow> c * MICRO < granted_micro s + MICRO)"

definition pending_grants :: "nat \<Rightarrow> limiter_sys \<Rightarrow> nat" where
  "pending_grants threads s = (\<Sum>i<threads. of_bool (pcs s i = Done True))"

definition crew_inv :: "(nat \<Rightarrow> bool \<Rightarrow> 'c \<Rightarrow> 'c) \<Rightarrow> 'c \<Rightarrow> nat \<Rightarrow> nat \<Rightarrow> int \<Rightarrow> answers \<Rightarrow> 'c crew \<Rightarrow> bool" where
  "crew_inv tally c0 threads reqs c as b \<longleftrightarrow> unit_inv c (lim b) \<and> tallied b = tally_all tally as c0 \<and>
     (\<forall>i. length (of_thread i as) + remaining b i = (if i < threads then reqs else 0)) \<and>
     (\<forall>i. remaining b i = 0 \<longrightarrow> pcs (lim b) i = Start) \<and>
     granted_micro (lim b) = MICRO * int (grants as + pending_grants threads (lim b)) \<and>
     (grants as < length as \<longrightarrow> c * MICRO < granted_micro (lim b) + MICRO)"

section \<open>Lemmas\<close>

lemma tally_all_append: "tally_all tally (as @ [(i, ok)]) c = tally i ok (tally_all tally as c)"
  by (simp add: tally_all_def)

text \<open>What one step inside \<open>try_consume\<close> does to the accounts.\<close>

lemma limiter_act_effect:
  assumes "limiter_act (Act i t sp) s = Inr s'" and "limiter_inv c s" and "need s i = 1"
  shows "need s' = need s \<and> (\<forall>j. j \<noteq> i \<longrightarrow> pcs s' j = pcs s j) \<and> added_micro s \<le> added_micro s' \<and>
    (pcs s i \<noteq> Done True \<longrightarrow> granted_micro s' = granted_micro s + (if pcs s' i = Done True then MICRO else 0)) \<and>
    (pcs s' i = Done False \<longrightarrow> pcs s i = Done False \<or> (\<exists>k. pcs s i = CasConsume k \<and> k < MICRO)) \<and>
    (\<forall>k. pcs s' i = CasConsume k \<longrightarrow> k = sh_tokens s)"
proof (cases "pcs s i")
  case (CasRefill a k)
  then have "0 < a" "sh_tokens s \<le> sh_cap s" using assms(2) by (auto simp: limiter_inv_def)
  with CasRefill assms(1) show ?thesis
    by (auto simp: limiter_act.simps at_pc_def bind_outcome_Inr Let_def split: if_splits)
next
  case (CasConsume k)
  with assms(1,3) show ?thesis
    by (auto simp: limiter_act.simps at_pc_def bind_outcome_Inr Let_def split: if_splits)
next
  case (GotNow now)
  with assms(1) show ?thesis
    by (auto simp: limiter_act.simps at_pc_def bind_outcome_Inr Let_def split: option.splits)
qed (use assms(1) in \<open>auto simp: limiter_act.simps at_pc_def Let_def\<close>)

lemma unit_inv_act:
  assumes "limiter_act (Act i t sp) s = Inr s'" and "unit_inv c s"
  shows "unit_inv c s'"
proof -
  have inv: "limiter_inv c s" "\<forall>j. need s j = 1" "0 \<le> added_micro s"
    and cas: "\<And>j k. pcs s j = CasConsume k \<Longrightarrow> c * MICRO \<le> k + granted_micro s"
    and den: "\<And>j. pcs s j = Done False \<Longrightarrow> c * MICRO < granted_micro s + MICRO"
    using assms(2) unfolding unit_inv_def by blast+
  note eff = limiter_act_effect [OF assms(1) inv(1)]
  have inv': "limiter_inv c s'" using limiter_act_inv assms(1) inv(1) by blast
  then have "granted_micro s \<le> granted_micro s'"
  proof (cases "pcs s i = Done True")
    case True
    with assms(1) show ?thesis by (auto simp: limiter_act.simps)
  qed (use eff inv(2) in \<open>simp add: MICRO_def\<close>)
  moreover have "c * MICRO \<le> sh_tokens s + granted_micro s"
    using inv(1,3) by (simp add: limiter_inv_def)
  ultimately have "c * MICRO \<le> k + granted_micro s'" if "pcs s' j = CasConsume k" for j k
    using that cas [of j k] eff inv(2) by (cases "j = i") force+
  moreover have "c * MICRO < granted_micro s' + MICRO" if "pcs s' j = Done False" for j
    using that den [of j] cas [of i] eff inv(2) \<open>granted_micro s \<le> granted_micro s'\<close> by (cases "j = i") force+
  ultimately show ?thesis
    using inv inv' eff unfolding unit_inv_def by auto
qed

lemma unit_inv_restart: "unit_inv c s \<Longrightarrow> unit_inv c (at_pc i Start s)"
  by (auto simp: unit_inv_def at_pc_def limiter_inv_def)

text \<open>The grants that are not recorded yet.\<close>

lemma pending_grants_upd:
  assumes "i < threads" and "\<forall>j. j \<noteq> i \<longrightarrow> pcs s' j = pcs s j"
  shows "pending_grants threads s' + of_bool (pcs s i = Done True) = pending_grants threads s + of_bool (pcs s' i = Done True)"
proof -
  have "(\<Sum>j \<in> {..<threads} - {i}. of_bool (pcs s' j = Done True)) = (\<Sum>j \<in> {..<threads} - {i}. of_bool (pcs s j = Done True) :: nat)"
    using assms(2) by (intro sum.cong) auto
  with assms(1) show ?thesis by (simp add: pending_grants_def sum.remove [of "{..<threads}" i] del: sum_of_bool_eq)
qed

lemma crew_inv_record:
  assumes "crew_inv tally c0 threads reqs c as b" and "remaining b i \<noteq> 0" and "pcs (lim b) i = Done ok"
  shows "crew_inv tally c0 threads reqs c (as @ [(i, ok)])
    (b\<lparr> lim := at_pc i Start (lim b), remaining := (remaining b)(i := remaining b i - 1), tallied := tally i ok (tallied b) \<rparr>)"
proof -
  have i: "i < threads" using assms(1,2) by (auto simp: crew_inv_def split: if_splits dest: spec [of _ i])
  let ?s = "at_pc i Start (lim b)"
  have "pending_grants threads ?s + of_bool (pcs (lim b) i = Done True) = pending_grants threads (lim b)"
    using pending_grants_upd [OF i, of ?s "lim b"] by (simp add: at_pc_def)
  then have "grants (as @ [(i, ok)]) + pending_grants threads ?s = grants as + pending_grants threads (lim b)"
    using assms(3) by (auto simp: grants_def split: if_splits)
  moreover have "c * MICRO < granted_micro (lim b) + MICRO" if "\<not> ok"
    using assms(1,3) that by (auto simp: crew_inv_def unit_inv_def)
  then have "c * MICRO < granted_micro (lim b) + MICRO" if "grants (as @ [(i, ok)]) < length (as @ [(i, ok)])"
    using that assms(1) by (cases ok) (auto simp: crew_inv_def grants_def)
  moreover have "length (of_thread j (as @ [(i, ok)])) + ((remaining b)(i := remaining b i - 1)) j =
      (if j < threads then reqs else 0)" for j
  proof -
    have "length (of_thread j as) + remaining b j = (if j < threads then reqs else 0)"
      using assms(1) by (simp add: crew_inv_def)
    with assms(2) show ?thesis by (cases "j = i") (simp_all add: of_thread_def del: split_paired_All)
  qed
  moreover have "pcs ?s j = Start" if "((remaining b)(i := remaining b i - 1)) j = 0" for j
    using that assms(1) by (cases "j = i") (auto simp: crew_inv_def at_pc_def)
  ultimately show ?thesis
    using assms(1) unit_inv_restart [of c "lim b" i]
    unfolding crew_inv_def by (simp add: tally_all_append)
qed

lemma crew_inv_inside:
  assumes "crew_inv tally c0 threads reqs c as b" and "remaining b i \<noteq> 0" and "\<And>ok. pcs (lim b) i \<noteq> Done ok"
    and "limiter_act (Act i t sp) (lim b) = Inr s"
  shows "crew_inv tally c0 threads reqs c as (b\<lparr> lim := s \<rparr>)"
proof -
  have i: "i < threads" using assms(1,2) by (auto simp: crew_inv_def split: if_splits dest: spec [of _ i])
  have u: "unit_inv c (lim b)" using assms(1) by (simp add: crew_inv_def)
  then have eff: "\<forall>j. j \<noteq> i \<longrightarrow> pcs s j = pcs (lim b) j"
    "granted_micro s = granted_micro (lim b) + (if pcs s i = Done True then MICRO else 0)"
    using limiter_act_effect [OF assms(4), of c] assms(3) by (auto simp: unit_inv_def)
  have "granted_micro s = MICRO * int (grants as + pending_grants threads s)"
    using pending_grants_upd [OF i eff(1)] assms(1,3) eff(2) by (auto simp: crew_inv_def algebra_simps)
  moreover have "granted_micro (lim b) \<le> granted_micro s" using eff(2) by (simp add: MICRO_def)
  moreover have "pcs s j = Start" if "remaining b j = 0" for j
    using that assms(1,2) eff(1) by (cases "j = i") (auto simp: crew_inv_def)
  ultimately show ?thesis
    using assms(1) unit_inv_act [OF assms(4) u] unfolding crew_inv_def by force
qed

lemma crew_act_inv:
  assumes "crew_act tally (Act i t sp) b = Inr b'" and "crew_inv tally c0 threads reqs c as b"
  shows "\<exists>as'. crew_inv tally c0 threads reqs c as' b'"
proof (cases "remaining b i = 0")
  case False
  show ?thesis
  proof (cases "\<exists>ok. pcs (lim b) i = Done ok")
    case True
    with assms False crew_inv_record show ?thesis by fastforce
  next
    case inside: False
    then obtain s where s: "limiter_act (Act i t sp) (lim b) = Inr s" "b' = b\<lparr> lim := s \<rparr>"
      using assms(1) False by (auto simp: bind_outcome_Inr split: pc.splits)
    with crew_inv_inside [OF assms(2) False _ s(1)] inside show ?thesis by auto
  qed
qed (use assms in auto)

lemma crew_run_inv:
  "crew_run tally ac b = Inr b' \<Longrightarrow> crew_inv tally c0 threads reqs c as b \<Longrightarrow> \<exists>as'. crew_inv tally c0 threads reqs c as' b'"
proof (induction ac arbitrary: b as)
  case (Cons a ac)
  obtain i t sp where a: "a = Act i t sp" by (cases a)
  from Cons.prems(1) obtain x where "crew_act tally (Act i t sp) b = Inr x" "crew_run tally ac x = Inr b'"
    by (auto simp: bind_outcome_Inr a)
  with Cons.IH crew_act_inv [OF _ Cons.prems(2), of i t sp x] show ?case by blast
qed auto

lemma crew_start_inv:
  assumes "0 \<le> c"
  shows "crew_inv tally c0 threads reqs c [] (crew_start threads reqs c r now c0)"
proof -
  have "limiter_inv c (limiter_init c r now (\<lambda>_. 1))"
    using limiter_reach_inv [OF limiter_reach.init, of c "\<lambda>_. 1" r now] assms by simp
  then show ?thesis
    by (simp add: crew_inv_def crew_start_def unit_inv_def limiter_init_def tally_all_def of_thread_def grants_def pending_grants_def)
qed

lemma length_by_thread: "\<forall>a \<in> set as. fst a < threads \<Longrightarrow> length as = (\<Sum>i<threads. length (of_thread i as))"
proof (induction as)
  case (Cons a as)
  have "(\<Sum>i<threads. length (of_thread i (a # as))) = (\<Sum>i<threads. length (of_thread i as) + of_bool (i = fst a))"
    by (intro sum.cong) (auto simp: of_thread_def)
  also have "\<dots> = (\<Sum>i<threads. length (of_thread i as)) + 1"
    using Cons.prems by (simp add: sum.distrib of_bool_def)
  finally show ?case using Cons by simp
qed (simp add: of_thread_def)

text \<open>When all threads have returned.\<close>

lemma crew_result:
  assumes "crew_run tally ac (crew_start threads reqs c r now c0) = Inr b" and "joined_all b threads" and "0 \<le> c"
  shows "\<exists>as. tallied b = tally_all tally as c0 \<and> length as = threads * reqs \<and> (\<forall>a \<in> set as. fst a < threads) \<and>
    (\<forall>i<threads. length (of_thread i as) = reqs) \<and> min c (int (threads * reqs)) \<le> int (grants as) \<and>
    int (grants as) * MICRO + sh_tokens (lim b) = c * MICRO + added_micro (lim b)"
proof -
  obtain as where inv: "crew_inv tally c0 threads reqs c as b"
    using crew_run_inv [OF assms(1) crew_start_inv [OF assms(3)]] by blast
  have rem: "remaining b i = 0" for i
    using inv assms(2) by (cases "i < threads") (auto simp: crew_inv_def joined_all_def list_all_iff dest: spec [of _ i])
  have each: "length (of_thread i as) = (if i < threads then reqs else 0)" for i
    using inv rem by (simp add: crew_inv_def)
  have own: "\<forall>a \<in> set as. fst a < threads"
  proof
    fix a assume "a \<in> set as"
    then show "fst a < threads"
      using each [of "fst a"] by (auto simp: of_thread_def filter_empty_conv split: if_splits)
  qed
  then have len: "length as = threads * reqs" using length_by_thread [of as threads] each by simp
  have "pending_grants threads (lim b) = 0" using inv rem by (simp add: crew_inv_def pending_grants_def)
  with inv have g: "granted_micro (lim b) = MICRO * int (grants as)" by (simp add: crew_inv_def)
  have "min c (int (threads * reqs)) \<le> int (grants as)"
  proof (cases "grants as < length as")
    case True
    with inv have "c * MICRO < granted_micro (lim b) + MICRO" by (simp add: crew_inv_def)
    then show ?thesis by (simp add: g MICRO_def)
  next
    case False
    then have "grants as = length as" using length_filter_le [of snd as] by (simp add: grants_def)
    with len show ?thesis by simp
  qed
  with inv len own each g show ?thesis
    by (intro exI [of _ as]) (auto simp: crew_inv_def unit_inv_def limiter_inv_def algebra_simps)
qed

text \<open>A complete run: the threads one after the other, before the clock moves on.\<close>

definition frozen :: "'c crew \<Rightarrow> bool" where
  "frozen b \<longleftrightarrow> sh_last (lim b) = sh_clock (lim b) \<and> (\<forall>i. need (lim b) i = 1) \<and> 0 \<le> sh_tokens (lim b) \<and>
     sh_tokens (lim b) < 2 ^ 63 \<and> (\<forall>i. remaining b i \<noteq> 0 \<longrightarrow> pcs (lim b) i = Start)"

lemma crew_run_append: "crew_run tally (xs @ ys) b = bind_outcome (crew_run tally xs b) (crew_run tally ys)"
  by (induction xs arbitrary: b) (simp_all add: bind_outcome_def split: sum.splits)

lemma refill_amount_now: "refill_amount r now now = Inr None"
  by (simp add: refill_amount_def ns_to_us_def cdiv_def bind_outcome_def)

lemma one_request:
  assumes "frozen b" and "remaining b i \<noteq> 0"
  shows "\<exists>b'. crew_run tally (replicate 5 (Act i (sh_clock (lim b)) False)) b = Inr b' \<and> frozen b' \<and>
    remaining b' = (remaining b)(i := remaining b i - 1) \<and> sh_clock (lim b') = sh_clock (lim b)"
proof -
  have "pcs (lim b) i = Start" using assms by (simp add: frozen_def)
  with assms show ?thesis
    by (auto simp: numeral_eq_Suc frozen_def solo_act refill_amount_now bind_outcome_def i64_def in_int64_def MICRO_def at_pc_def)
qed

lemma all_requests:
  assumes "frozen b" and "\<forall>i. threads \<le> i \<longrightarrow> remaining b i = 0"
  shows "\<exists>ac b'. crew_run tally ac b = Inr b' \<and> joined_all b' threads"
  using assms
proof (induction "\<Sum>i<threads. remaining b i" arbitrary: b)
  case 0
  then have "joined_all b threads" by (simp add: joined_all_def list_all_iff)
  then show ?case by (intro exI [of _ "[]"]) simp
next
  case (Suc n)
  then obtain i where i: "i < threads" "remaining b i \<noteq> 0" by (metis Suc_neq_Zero sum.neutral lessThan_iff)
  from one_request [OF Suc.prems(1) i(2)] obtain b1 where
    b1: "crew_run tally (replicate 5 (Act i (sh_clock (lim b)) False)) b = Inr b1" "frozen b1"
      "remaining b1 = (remaining b)(i := remaining b i - 1)" by blast
  have "(\<Sum>j<threads. remaining b j) = Suc (\<Sum>j<threads. remaining b1 j)"
    using i by (simp add: b1(3) sum.remove [of "{..<threads}" i])
  with Suc.hyps(2) have "n = (\<Sum>j<threads. remaining b1 j)" by simp
  moreover have "\<forall>j. threads \<le> j \<longrightarrow> remaining b1 j = 0" using Suc.prems(2) i(1) by (simp add: b1(3))
  ultimately obtain ac b' where "crew_run tally ac b1 = Inr b'" "joined_all b' threads"
    using Suc.hyps(1) b1(2) by blast
  with b1(1) show ?case
    by (intro exI [of _ "replicate 5 (Act i (sh_clock (lim b)) False) @ ac"]) (auto simp: crew_run_append bind_outcome_def)
qed

lemma crew_completes:
  assumes "0 \<le> c" and "c * MICRO < 2 ^ 63"
  shows "\<exists>ac b. crew_run tally ac (crew_start threads reqs c r now c0) = Inr b \<and> joined_all b threads"
proof (rule all_requests)
  show "frozen (crew_start threads reqs c r now c0)"
    using assms by (simp add: frozen_def crew_start_def limiter_init_def MICRO_def)
qed (simp add: crew_start_def)

text \<open>What the counters of the two programs show.\<close>

lemma tally17_all:
  "tally_all tally17 as c = \<lparr> total_allowed = total_allowed c + of_nat (grants as),
     total_denied = total_denied c + of_nat (length as - grants as) \<rparr>"
proof (induction as arbitrary: c)
  case (Cons a as)
  obtain i ok where a: "a = (i, ok)" by (cases a)
  have "grants as \<le> length as" by (simp add: grants_def)
  then have "Suc (length as) - grants as = Suc (length as - grants as)" by simp
  with Cons show ?case by (cases ok) (simp_all add: a tally_all_def tally17_def grants_def)
qed (simp add: tally_all_def grants_def)

lemma tally12_all:
  "tally_all tally12 as c i = (fst (c i) + int (grants (of_thread i as)),
     snd (c i) + int (length (of_thread i as) - grants (of_thread i as)))"
proof (induction as arbitrary: c)
  case (Cons a as)
  obtain j ok where a: "a = (j, ok)" by (cases a)
  have "grants (of_thread i as) \<le> length (of_thread i as)" by (simp add: grants_def)
  then have "Suc (length (of_thread i as)) - grants (of_thread i as) = Suc (length (of_thread i as) - grants (of_thread i as))" by simp
  with Cons show ?case
    by (cases "j = i"; cases ok) (simp_all add: a tally_all_def tally12_def grants_def of_thread_def)
qed (simp add: tally_all_def grants_def of_thread_def)

lemma grants_by_thread:
  assumes "\<forall>a \<in> set as. fst a < threads"
  shows "(\<Sum>i<threads. grants (of_thread i as)) = grants as"
proof -
  have "grants (of_thread i as) = length (of_thread i (filter snd as))" for i
    by (simp add: grants_def of_thread_def conj_commute)
  with length_by_thread [of "filter snd as" threads] assms show ?thesis by (simp add: grants_def)
qed

section \<open>Properties\<close>

text \<open>
  C28: the burst of phase 17. However the eight threads and the clock interleave, when all have been
  joined every one of the 800 requests was counted once, at least the 100 tokens of the full bucket were
  granted, and what was granted and is left is what the bucket held and what the refills added.
\<close>

theorem burst_contention:
  assumes "run_burst_contention_test now as = Inr b" and "joined_all b THREADS"
  shows "unat (total_allowed (tallied b)) + unat (total_denied (tallied b)) = THREADS * REQUESTS_PER_THREAD \<and>
    100 \<le> unat (total_allowed (tallied b)) \<and>
    int (unat (total_allowed (tallied b))) * MICRO + sh_tokens (lim b) = 100 * MICRO + added_micro (lim b)"
proof -
  obtain ans where ans: "tallied b = tally_all tally17 ans \<lparr> total_allowed = 0, total_denied = 0 \<rparr>"
    "length ans = THREADS * REQUESTS_PER_THREAD" "min 100 (int (THREADS * REQUESTS_PER_THREAD)) \<le> int (grants ans)"
    "int (grants ans) * MICRO + sh_tokens (lim b) = 100 * MICRO + added_micro (lim b)"
    using crew_result [OF assms(1) [unfolded run_burst_contention_test_def] assms(2)] by auto
  have len: "length ans = 800" using ans(2) by (simp add: THREADS_def REQUESTS_PER_THREAD_def)
  have le: "grants ans \<le> length ans" by (simp add: grants_def)
  have small: "unat (of_nat n :: u64) = n" if "n \<le> 800" for n
    using that by (simp add: unat_of_nat)
  have "unat (of_nat (grants ans) :: u64) = grants ans"
    "unat (of_nat (length ans - grants ans) :: u64) = length ans - grants ans"
    using le len by (intro small; linarith)+
  with ans le len show ?thesis by (simp add: tally17_all THREADS_def REQUESTS_PER_THREAD_def del: of_nat_diff)
qed

theorem burst_contention_witness:
  "\<exists>as b. run_burst_contention_test 0 as = Inr b \<and> joined_all b THREADS \<and> 100 \<le> unat (total_allowed (tallied b))"
proof -
  obtain as b where "run_burst_contention_test 0 as = Inr b" "joined_all b THREADS"
    using crew_completes [of 100 tally17 THREADS REQUESTS_PER_THREAD 50 0 "\<lparr> total_allowed = 0, total_denied = 0 \<rparr>"]
    by (auto simp: run_burst_contention_test_def MICRO_def)
  with burst_contention show ?thesis by blast
qed

text \<open>
  test 3 of phase 12. However the four clients and the clock interleave, when all have been joined
  each of them has counted its ten requests, and together they were granted at least the 20 tokens of
  the full bucket, every further grant being paid by a refill.
\<close>

theorem phase12_shared:
  assumes "phase12_test3 now as = Inr b" and "joined_all b 4"
  shows "(\<forall>i<4. fst (tallied b i) + snd (tallied b i) = 10 \<and> 0 \<le> fst (tallied b i) \<and> 0 \<le> snd (tallied b i)) \<and>
    20 \<le> (\<Sum>i<4. fst (tallied b i)) \<and>
    (\<Sum>i<4. fst (tallied b i)) * MICRO + sh_tokens (lim b) = 20 * MICRO + added_micro (lim b)"
proof -
  obtain ans where ans: "tallied b = tally_all tally12 ans (\<lambda>_. (0, 0))" "\<forall>a \<in> set ans. fst a < 4"
    "\<forall>i<4. length (of_thread i ans) = 10" "20 \<le> int (grants ans)"
    "int (grants ans) * MICRO + sh_tokens (lim b) = 20 * MICRO + added_micro (lim b)"
    using crew_result [OF assms(1) [unfolded phase12_test3_def] assms(2)] by auto
  have le: "grants (of_thread i ans) \<le> length (of_thread i ans)" for i by (simp add: grants_def)
  have "(\<Sum>i<4. fst (tallied b i)) = int (\<Sum>i<4. grants (of_thread i ans))"
    by (simp add: ans(1) tally12_all)
  also have "\<dots> = int (grants ans)" by (simp only: grants_by_thread [OF ans(2)])
  finally have "(\<Sum>i<4. fst (tallied b i)) = int (grants ans)" .
  moreover have "fst (tallied b i) + snd (tallied b i) = 10 \<and> 0 \<le> fst (tallied b i) \<and> 0 \<le> snd (tallied b i)" if "i < 4" for i
    using ans(1,3) that le [of i] by (simp add: tally12_all)
  ultimately show ?thesis using ans(4,5) by simp
qed

theorem phase12_shared_witness:
  "\<exists>as b. phase12_test3 0 as = Inr b \<and> joined_all b 4 \<and> 20 \<le> (\<Sum>i<4. fst (tallied b i))"
proof -
  obtain as b where "phase12_test3 0 as = Inr b" "joined_all b 4"
    using crew_completes [of 20 tally12 4 10 10 0 "\<lambda>_. (0, 0)"] by (auto simp: phase12_test3_def MICRO_def)
  with phase12_shared show ?thesis by blast
qed

end
