(* ===== verification/Logger_Demo.thy ===== *)
theory Logger_Demo
  imports Async_Logger Benchmark_Suite
begin

text \<open>
  The program \<open>src/phase14_async_logger.cpp\<close>: four tests on one logger, the second with four
  producer threads, the third a burst of 2000 messages, and the final \<open>stop\<close>. Producers, consumer and
  \<open>main\<close> interleave as in \<open>Async_Logger\<close>; the pauses of \<open>main\<close> are steps of the consumer only.
\<close>

section \<open>Data and operations\<close>

type_synonym message_in = "LogLevel \<times> string"

definition test1_messages :: "message_in list" where
  "test1_messages =
     [(LDEBUG, ''Gateway initialising subsystems''), (LINFO, ''Reactor started on port 8080''),
      (LWARN, ''High memory usage detected: 82%''), (LERROR, ''Client FD 9 authentication REJECTED'')]"

definition thread_message :: "nat \<Rightarrow> nat \<Rightarrow> message_in" where
  "thread_message t i = (LINFO, ''[Thread-'' @ to_string t @ ''] packet #'' @ to_string i @ '' processed'')"

text \<open>Test 2: \<open>picks\<close> says which of the producers logs next; each logs its messages in order.\<close>

fun weave :: "nat list \<Rightarrow> (nat \<Rightarrow> nat) \<Rightarrow> message_in list" where
  "weave [] nxt = []"
| "weave (t # picks) nxt = thread_message t (nxt t) # weave picks (nxt(t := nxt t + 1))"

definition picks_ok :: "nat list \<Rightarrow> bool" where
  "picks_ok picks \<longleftrightarrow> length picks = 80 \<and> list_all (\<lambda>t. count_list picks t = 20) [0..<4]"

definition BURST :: nat where
  "BURST = 2000"

definition burst_messages :: "message_in list" where
  "burst_messages = map (\<lambda>i. (LINFO, ''Burst entry #'' @ to_string i)) [0..<BURST]"

definition test4_messages :: "message_in list" where
  "test4_messages =
     [(LERROR, ''CRITICAL: epoll_wait returned -1, errno=EBADF''),
      (LWARN, ''Rate limiter threshold exceeded for 192.168.1.10''),
      (LINFO, ''Connection FD 12 closed cleanly after 320 packets'')]"

fun messages :: "log_event list \<Rightarrow> message_in list" where
  "messages [] = []"
| "messages (Log level msg now # es) = (level, msg) # messages es"
| "messages (Consume # es) = messages es"

text \<open>\<open>static_cast<int>\<close> of a 64-bit count.\<close>

definition to_int :: "u64 \<Rightarrow> int" where
  "to_int w = sint (ucast w :: u32)"

text \<open>What \<open>main\<close> prints of its own: the numbers of test 3, and the total at the end; \<open>None\<close> when
  \<open>stop\<close> has not returned within \<open>fuel\<close> iterations of the consumer.\<close>

record phase14_result =
  burst_queued :: int
  burst_dropped :: int
  printed_lines :: "log_line list"
  final_dropped :: u64

definition phase14_main :: "log_event list \<Rightarrow> log_event list \<Rightarrow> log_event list \<Rightarrow> nat \<Rightarrow> phase14_result option" where
  "phase14_main es12 es3 es4 fuel =
     (let (_, out12, l) = logger_steps es12 (start_logger new_logger);
          dropped_before = to_int (dropped l);
          (oks, out3, l) = logger_steps es3 l;
          logged_ok = int (length (filter id oks));
          dropped_now = to_int (dropped l) - dropped_before;
          (_, out4, l) = logger_steps es4 l
      in map_option (\<lambda>(rest, l). \<lparr> burst_queued = logged_ok, burst_dropped = dropped_now,
           printed_lines = out12 @ out3 @ out4 @ rest, final_dropped = dropped l \<rparr>) (stop_logger fuel l))"

text \<open>The schedules of the program.\<close>

definition phase14_schedule :: "nat list \<Rightarrow> log_event list \<Rightarrow> log_event list \<Rightarrow> log_event list \<Rightarrow> bool" where
  "phase14_schedule picks es12 es3 es4 \<longleftrightarrow> picks_ok picks \<and>
     messages es12 = test1_messages @ weave picks (\<lambda>_. 0) \<and> messages es3 = burst_messages \<and> messages es4 = test4_messages"

section \<open>Lemmas\<close>

lemma weave_length [simp]: "length (weave picks nxt) = length picks"
  by (induction picks arbitrary: nxt) simp_all

lemma logger_steps_counts:
  "length (fst (logger_steps es l)) = length (messages es) \<and>
   dropped (snd (snd (logger_steps es l))) = dropped l + of_nat (length (filter Not (fst (logger_steps es l))))"
proof (induction es arbitrary: l)
  case (Cons e es)
  show ?case
  proof (cases e)
    case (Log level msg now)
    have "dropped (snd (log_entry level msg now l)) = dropped l + of_nat (if fst (log_entry level msg now l) then 0 else 1)"
      by (simp add: log_entry_def Let_def)
    with Cons Log show ?thesis by (simp add: case_prod_beta Let_def)
  next
    case Consume
    have "dropped (snd (consume_one l)) = dropped l" by (simp add: consume_one_def Let_def)
    with Cons Consume show ?thesis by (simp add: case_prod_beta Let_def)
  qed
qed simp

lemma to_int_of_nat:
  assumes "n < 2 ^ 31"
  shows "to_int (of_nat n) = int n"
proof -
  have "ucast (of_nat n :: u64) = (of_nat n :: u32)" by transfer simp
  moreover have "sint (of_nat n :: u32) = int n"
    using assms by transfer (simp add: signed_take_bit_int_eq_self)
  ultimately show ?thesis by (simp add: to_int_def)
qed

lemma filter_split: "length (filter id bs) + length (filter Not bs) = length bs"
  by (induction bs) auto

lemma consume_loop_dropped: "consume_loop fuel l = Some (out, l') \<Longrightarrow> dropped l' = dropped l"
proof (induction fuel arbitrary: l out)
  case (Suc fuel)
  have "dropped (snd (consume_one l)) = dropped l" by (simp add: consume_one_def Let_def)
  with Suc show ?case by (auto simp: case_prod_beta split: if_splits)
qed simp

lemma stop_logger_dropped: "stop_logger fuel l = Some (out, l') \<Longrightarrow> dropped l' = dropped l"
  using consume_loop_dropped by (fastforce simp: stop_logger_def split: if_splits)

text \<open>The three parts of the run as one sequence of events.\<close>

lemma phase14_whole:
  assumes "logger_steps (es12 @ es3 @ es4) (start_logger new_logger) = (oks, out, l)"
  shows "\<exists>b k. phase14_main es12 es3 es4 fuel =
      map_option (\<lambda>(rest, l'). \<lparr> burst_queued = int b, burst_dropped = to_int (of_nat (k + (length (messages es3) - b))) - to_int (of_nat k),
        printed_lines = out @ rest, final_dropped = dropped l' \<rparr>) (stop_logger fuel l) \<and>
    b \<le> length (messages es3) \<and> k \<le> length (messages es12)"
proof -
  obtain oks1 out1 l1 where 1: "logger_steps es12 (start_logger new_logger) = (oks1, out1, l1)" by (rule prod_cases3)
  obtain oks3 out3 l3 where 3: "logger_steps es3 l1 = (oks3, out3, l3)" by (rule prod_cases3)
  obtain oks4 out4 l4 where 4: "logger_steps es4 l3 = (oks4, out4, l4)" by (rule prod_cases3)
  from assms 1 3 4 have all: "out = out1 @ out3 @ out4" "l = l4" by (auto simp: steps_append)
  note c1 = logger_steps_counts [of es12 "start_logger new_logger", unfolded 1]
  note c3 = logger_steps_counts [of es3 l1, unfolded 3]
  let ?b = "length (filter id oks3)" and ?k = "length (filter Not oks1)"
  have b: "length (filter Not oks3) = length (messages es3) - ?b" "?b \<le> length (messages es3)"
    using filter_split [of oks3] c3 by auto
  have "dropped l1 = of_nat ?k" using c1 by (simp add: start_logger_def new_logger_def)
  moreover from this have "dropped l3 = of_nat (?k + (length (messages es3) - ?b))" using c3 b(1) by simp
  ultimately have "phase14_main es12 es3 es4 fuel =
      map_option (\<lambda>(rest, l'). \<lparr> burst_queued = int ?b, burst_dropped = to_int (of_nat (?k + (length (messages es3) - ?b))) - to_int (of_nat ?k),
        printed_lines = out @ rest, final_dropped = dropped l' \<rparr>) (stop_logger fuel l)"
    unfolding phase14_main_def using 1 3 4 all by (simp add: Let_def)
  moreover have "?k \<le> length (messages es12)" using c1 filter_split [of oks1] by simp
  ultimately show ?thesis using b(2) by blast
qed

lemma schedule_lengths:
  assumes "phase14_schedule picks es12 es3 es4"
  shows "length (messages es12) = 84" "length (messages es3) = BURST" "length (messages es4) = 3"
  using assms by (auto simp: phase14_schedule_def picks_ok_def test1_messages_def burst_messages_def test4_messages_def)

lemma messages_append [simp]: "messages (es @ fs) = messages es @ messages fs"
  by (induction es rule: messages.induct) simp_all

subsection \<open>A burst that overruns the consumer\<close>

definition logs :: "message_in list \<Rightarrow> log_event list" where
  "logs ms = map (\<lambda>m. Log (fst m) (snd m) 0) ms"

definition served :: "message_in list \<Rightarrow> log_event list" where
  "served ms = concat (map (\<lambda>m. [Log (fst m) (snd m) 0, Consume]) ms)"

lemma messages_logs [simp]: "messages (logs ms) = ms" "messages (served ms) = ms" "messages (replicate n Consume) = []"
proof -
  show "messages (logs ms) = ms" "messages (served ms) = ms"
    by (induction ms) (simp_all add: logs_def served_def)
  show "messages (replicate n Consume) = []" by (induction n) simp_all
qed

text \<open>The producers of test 2 one after the other.\<close>

definition one_by_one :: "nat list" where
  "one_by_one = concat (map (replicate 20) [0..<4])"

lemma one_by_one_ok: "picks_ok one_by_one"
  by (simp add: picks_ok_def one_by_one_def upt_rec numeral_eq_Suc)

lemma log_list:
  "holds 0 l q \<Longrightarrow> length q + length ms \<le> RING_CAPACITY \<Longrightarrow>
   \<exists>l' q'. logger_steps (logs ms) l = (replicate (length ms) True, [], l') \<and> holds 0 l' q' \<and> length q' = length q + length ms"
proof (induction ms arbitrary: l q)
  case (Cons m ms)
  note c = log_room [OF Cons.prems(1), of "fst m" "snd m" 0]
  from Cons.IH [OF c(2)] Cons.prems(2) obtain l' q' where
    "logger_steps (logs ms) (snd (log_entry (fst m) (snd m) 0 l)) = (replicate (length ms) True, [], l')"
    "holds 0 l' q'" "length q' = length q + length (m # ms)" by auto
  with c(1) Cons.prems(2) show ?case by (auto simp: logs_def case_prod_beta)
qed (auto simp: logs_def)

lemma served_list:
  "holds 0 l [] \<Longrightarrow> \<exists>out l'. logger_steps (served ms) l = (replicate (length ms) True, out, l') \<and> holds 0 l' []"
proof (induction ms arbitrary: l)
  case (Cons m ms)
  note c = log_room [OF Cons.prems, of "fst m" "snd m" 0]
  let ?l = "snd (log_entry (fst m) (snd m) 0 l)"
  have "holds 0 (snd (consume_one ?l)) []" "fst (consume_one ?l) = Some (line_of (fst m) (snd m) 0)"
    using consume_some [of 0 ?l "line_of (fst m) (snd m) 0" "[]"] c(2) by simp_all
  with Cons.IH [of "snd (consume_one ?l)"] c(1) show ?case
    by (auto simp: served_def case_prod_beta Let_def)
qed (auto simp: served_def)

lemma all_valid:
  assumes "holds d l q" and "length q = RING_CAPACITY"
  shows "valid (ring l ! slot_of k)"
proof -
  have "slot_of k < RING_CAPACITY" by (simp add: slot_of_def)
  then obtain j where j: "j < RING_CAPACITY" "(unat (tail l) + j) mod RING_CAPACITY = slot_of k" using slot_surj by blast
  with assms show ?thesis unfolding holds_def by metis
qed

lemma full_list:
  "holds d l q \<Longrightarrow> length q = RING_CAPACITY \<Longrightarrow>
   \<exists>l'. logger_steps (logs ms) l = (replicate (length ms) False, [], l') \<and> holds (d + of_nat (length ms)) l' q"
proof (induction ms arbitrary: d l)
  case (Cons m ms)
  have "log_entry (fst m) (snd m) 0 l = (False, l\<lparr> head := head l + 1, dropped := dropped l + 1 \<rparr>)"
    using all_valid [OF Cons.prems] by (simp add: log_entry_def Let_def)
  moreover have "holds (d + 1) (l\<lparr> head := head l + 1, dropped := dropped l + 1 \<rparr>) q"
    using Cons.prems(1) by (simp add: holds_def)
  moreover have "d + of_nat (length (m # ms)) = d + 1 + of_nat (length ms)" by simp
  ultimately show ?case
    using Cons.IH [of "d + 1" "l\<lparr> head := head l + 1, dropped := dropped l + 1 \<rparr>"] Cons.prems(2)
    by (auto simp: logs_def add.assoc simp del: of_nat_Suc)
qed (auto simp: logs_def)

text \<open>A ring whose consumer waits at an empty slot while the producers fill slots further on.\<close>

definition stuck :: "nat \<Rightarrow> AsyncLogger \<Rightarrow> bool" where
  "stuck d l \<longleftrightarrow> length (ring l) = RING_CAPACITY \<and> \<not> valid (ring l ! slot_of (tail l)) \<and> head l = tail l + of_nat d"

lemma stuck_log:
  assumes "stuck d l" and "0 < d" and "d < RING_CAPACITY"
  shows "stuck (d + 1) (snd (log_entry level msg now l)) \<and> has_pending (snd (log_entry level msg now l))"
proof -
  have len: "length (ring l) = RING_CAPACITY" and tl: "\<not> valid (ring l ! slot_of (tail l))" using assms(1) by (auto simp: stuck_def)
  let ?h = "slot_of (head l)"
  have h: "?h \<noteq> slot_of (tail l)"
    using assms slot_nth [of "tail l" d] mod_eq_dvd_iff_nat [of "unat (tail l)" "unat (tail l) + d" RING_CAPACITY]
    by (auto simp: stuck_def slot_of_def dest: dvd_imp_le)
  have "?h < length (ring l)" using len by (simp add: slot_of_def)
  moreover have "valid (fill_entry level msg now e)" for e by (simp add: fill_entry_def Let_def)
  ultimately have "has_pending (snd (log_entry level msg now l))"
    by (auto simp: log_entry_def Let_def has_pending_def list_ex_length intro!: exI [of _ ?h])
  with h tl len assms(1) show ?thesis by (auto simp: stuck_def log_entry_def Let_def)
qed

lemma stuck_list:
  "stuck d l \<Longrightarrow> 0 < d \<Longrightarrow> d + length ms \<le> RING_CAPACITY \<Longrightarrow> ms \<noteq> [] \<or> has_pending l \<Longrightarrow>
   stuck (d + length ms) (snd (snd (logger_steps (logs ms) l))) \<and> has_pending (snd (snd (logger_steps (logs ms) l)))"
proof (induction ms arbitrary: d l)
  case (Cons m ms)
  then have "stuck (d + 1) (snd (log_entry (fst m) (snd m) 0 l)) \<and> has_pending (snd (log_entry (fst m) (snd m) 0 l))"
    by (intro stuck_log) auto
  with Cons.IH [of "d + 1"] Cons.prems show ?case by (simp add: logs_def case_prod_beta Let_def)
qed (simp add: logs_def)

lemma stuck_stop:
  assumes "stuck d l" and "has_pending l" and "logger_running l"
  shows "stop_logger fuel l = None"
proof -
  have "consume_loop fuel (l\<lparr> logger_running := False \<rparr>) = None"
    using assms(1,2) by (intro stalled_loop) (auto simp: stuck_def has_pending_def consume_one_def Let_def)
  with assms(3) show ?thesis by (simp add: stop_logger_def)
qed

lemma burst_then_drain:
  assumes "holds 0 l []"
  shows "\<exists>l'. snd (snd (logger_steps (logs burst_messages @ replicate RING_CAPACITY Consume) l)) = l' \<and> holds 976 l' []"
proof -
  let ?a = "take RING_CAPACITY burst_messages" and ?b = "drop RING_CAPACITY burst_messages"
  have len: "length ?a = RING_CAPACITY" "length ?b = 976"
    by (simp_all add: burst_messages_def BURST_def RING_CAPACITY_def)
  obtain l1 q where 1: "logger_steps (logs ?a) l = (replicate RING_CAPACITY True, [], l1)" "holds 0 l1 q" "length q = RING_CAPACITY"
    using log_list [OF assms, of ?a] unfolding len(1) by auto
  obtain l2 where 2: "logger_steps (logs ?b) l1 = (replicate 976 False, [], l2)" "holds 976 l2 q"
    using full_list [OF 1(2,3), of ?b] unfolding len(2) by auto
  obtain l3 where 3: "logger_steps (replicate RING_CAPACITY Consume) l2 = ([], q, l3)" "holds 976 l3 []"
    using consume_n [OF 2(2)] unfolding 1(3) by blast
  have "logs burst_messages = logs ?a @ logs ?b"
    by (simp only: logs_def map_append [symmetric] append_take_drop_id)
  with 1(1) 2(1) 3 show ?thesis by (simp add: steps_append)
qed

section \<open>Properties\<close>

text \<open>
  phase 14 accounts for its burst: in every schedule of the producers and the consumer, when
  \<open>main\<close> ends the 2000 messages of the burst are those reported as queued and those reported as dropped,
  and if the final count of dropped entries is 0 then every message of the program was printed, in
  order. If nothing was refused, \<open>main\<close> does end.
\<close>

theorem phase14_accounts:
  assumes "phase14_schedule picks es12 es3 es4"
  shows "(\<forall>fuel r. phase14_main es12 es3 es4 fuel = Some r \<longrightarrow> burst_queued r + burst_dropped r = int BURST \<and>
      (final_dropped r = 0 \<longrightarrow> RING_CAPACITY < fuel \<longrightarrow> printed_lines r = logged (es12 @ es3 @ es4))) \<and>
    (False \<notin> set (fst (logger_steps (es12 @ es3 @ es4) (start_logger new_logger))) \<longrightarrow>
      phase14_main es12 es3 es4 (RING_CAPACITY + 1) \<noteq> None)"
proof -
  let ?es = "es12 @ es3 @ es4"
  note lens = schedule_lengths [OF assms]
  obtain oks out l where s: "logger_steps ?es (start_logger new_logger) = (oks, out, l)" by (rule prod_cases3)
  note cnt = logger_steps_counts [of ?es "start_logger new_logger", unfolded s]
  have flush: "\<exists>rest l'. stop_logger fuel l = Some (rest, l') \<and> out @ rest = logged ?es"
    if "False \<notin> set oks" "RING_CAPACITY < fuel" for fuel
    using flushes [OF s that] .
  have "burst_queued r + burst_dropped r = int BURST \<and> (final_dropped r = 0 \<longrightarrow> RING_CAPACITY < fuel \<longrightarrow> printed_lines r = logged ?es)"
    if r: "phase14_main es12 es3 es4 fuel = Some r" for fuel r
  proof -
    obtain b k where bk: "phase14_main es12 es3 es4 fuel =
        map_option (\<lambda>(rest, l'). \<lparr> burst_queued = int b, burst_dropped = to_int (of_nat (k + (BURST - b))) - to_int (of_nat k),
          printed_lines = out @ rest, final_dropped = dropped l' \<rparr>) (stop_logger fuel l)" "b \<le> BURST" "k \<le> 84"
      using phase14_whole [OF s, of fuel] unfolding lens by blast
    obtain rest l' where stop: "stop_logger fuel l = Some (rest, l')" and
      rr: "burst_queued r = int b" "burst_dropped r = to_int (of_nat (k + (BURST - b))) - to_int (of_nat k)"
        "printed_lines r = out @ rest" "final_dropped r = dropped l'"
      using r bk(1) by auto
    have "to_int (of_nat (k + (BURST - b))) - to_int (of_nat k) = int BURST - int b"
      using bk(2,3) by (simp add: to_int_of_nat BURST_def del: of_nat_add of_nat_diff)
    moreover have "printed_lines r = logged ?es" if "final_dropped r = 0" "RING_CAPACITY < fuel"
    proof -
      have "length (filter Not oks) \<le> 2087"
        using cnt lens length_filter_le [of Not oks] by (simp add: BURST_def)
      moreover have "of_nat (length (filter Not oks)) = (0 :: u64)"
        using cnt that(1) rr(4) stop_logger_dropped [OF stop] by (simp add: start_logger_def new_logger_def)
      ultimately have "length (filter Not oks) = 0" by (simp add: unat_of_nat unat_eq_zero [symmetric] del: unat_eq_zero length_0_conv)
      then have "False \<notin> set oks" by (auto simp: filter_empty_conv)
      with flush [OF _ that(2)] stop rr(3) show ?thesis by auto
    qed
    ultimately show ?thesis using rr by simp
  qed
  moreover have "phase14_main es12 es3 es4 (RING_CAPACITY + 1) \<noteq> None" if "False \<notin> set oks"
    using phase14_whole [OF s, of "RING_CAPACITY + 1"] flush [OF that, of "RING_CAPACITY + 1"] by auto
  ultimately show ?thesis using s by auto
qed

theorem phase14_accounts_witness:
  "\<exists>picks es12 es3 es4 r. phase14_schedule picks es12 es3 es4 \<and> phase14_main es12 es3 es4 (RING_CAPACITY + 1) = Some r \<and>
     burst_queued r + burst_dropped r = 2000"
proof -
  let ?es12 = "served (test1_messages @ weave one_by_one (\<lambda>_. 0))" and ?es3 = "served burst_messages" and ?es4 = "served test4_messages"
  have sched: "phase14_schedule one_by_one ?es12 ?es3 ?es4" by (simp add: phase14_schedule_def one_by_one_ok)
  have "?es12 @ ?es3 @ ?es4 = served ((test1_messages @ weave one_by_one (\<lambda>_. 0)) @ burst_messages @ test4_messages)"
    by (simp add: served_def)
  then have "False \<notin> set (fst (logger_steps (?es12 @ ?es3 @ ?es4) (start_logger new_logger)))"
    using served_list [of "start_logger new_logger" "(test1_messages @ weave one_by_one (\<lambda>_. 0)) @ burst_messages @ test4_messages"]
      new_logger_holds by (auto simp: in_set_replicate)
  with phase14_accounts [OF sched] sched show ?thesis by (fastforce simp: BURST_def)
qed


end
