(* ===== verification/Dashboard.thy ===== *)
theory Dashboard
  imports Telemetry_Counters
begin

text \<open>
  The display of \<open>src/phase15_telemetry_dashboard.cpp\<close>: \<open>render_dashboard\<close> as the values, colours and
  gauges it writes, field by field, and the ten ticks of \<open>main\<close>. The rounding of a real number to
  the digits shown and the fixed labels are left out.
\<close>

section \<open>Data and operations\<close>

text \<open>The colours of the namespace \<open>term\<close>.\<close>

datatype colour = CYAN | GREEN | YELLOW | RED | MAGENTA

datatype size_unit = GigaBytes | MegaBytes | KiloBytes | Bytes

definition fmt_bytes :: "u64 \<Rightarrow> real \<times> size_unit" where
  "fmt_bytes b =
     (if unat b \<ge> 1024 * 1024 * 1024 then (real (unat b) / (1024 * 1024 * 1024), GigaBytes)
      else if unat b \<ge> 1024 * 1024 then (real (unat b) / (1024 * 1024), MegaBytes)
      else if unat b \<ge> 1024 then (real (unat b) / 1024, KiloBytes)
      else (real (unat b), Bytes))"

record Dashboard =
  uptime_hms :: "int \<times> int \<times> int"
  cpu_shown :: "colour \<times> real \<times> string"
  rss_shown :: "colour \<times> real \<times> string"
  active_shown :: "colour \<times> int"
  latency_shown :: "colour \<times> real"
  pps_shown :: "colour \<times> real \<times> string"
  rx_shown :: u64
  tx_shown :: u64
  drops_shown :: "colour \<times> u64 \<times> real"
  drop_bar :: "colour \<times> string \<times> real"
  bytes_in_shown :: "colour \<times> real \<times> size_unit"
  bytes_out_shown :: "colour \<times> real \<times> size_unit"
  auth_shown :: "colour \<times> u64"

definition render_dashboard :: "Snapshot \<Rightarrow> Dashboard outcome" where
  "render_dashboard s =
     bind_outcome (trunc_int (uptime_sec s)) (\<lambda>up.
       let h = cdiv up 3600; m = cdiv (up - cdiv up 3600 * 3600) 60; sc = up - cdiv up 60 * 60;
           cpu_col = (if cpu_usage_pct s > 75 then RED else GREEN) in
       bind_outcome (bar_gauge (cpu_usage_pct s) 100 40) (\<lambda>cpu_bar.
       bind_outcome (bar_gauge (rss_memory_mb s) 250 40) (\<lambda>rss_bar.
       bind_outcome (bar_gauge (pkt_per_sec_in s) 10000 40) (\<lambda>pps_bar.
       let drop_col = (if drop_rate_pct s > 5 then RED else GREEN);
           bar_col = (if drop_rate_pct s > 5 then RED else YELLOW) in
       bind_outcome (bar_gauge (drop_rate_pct s) 100 40) (\<lambda>d_bar.
       let auth_col = (if snap_auth_failures s > 0 then RED else GREEN) in
       Inr \<lparr> uptime_hms = (h, m, sc), cpu_shown = (cpu_col, cpu_usage_pct s, cpu_bar),
         rss_shown = (MAGENTA, rss_memory_mb s, rss_bar), active_shown = (GREEN, snap_active s),
         latency_shown = (CYAN, avg_latency_us s), pps_shown = (GREEN, pkt_per_sec_in s, pps_bar),
         rx_shown = snap_received s, tx_shown = snap_sent s,
         drops_shown = (drop_col, snap_dropped s, drop_rate_pct s), drop_bar = (bar_col, d_bar, drop_rate_pct s),
         bytes_in_shown = (CYAN, fmt_bytes (snap_bytes_in s)), bytes_out_shown = (CYAN, fmt_bytes (snap_bytes_out s)),
         auth_shown = (auth_col, snap_auth_failures s) \<rparr>)))))"

text \<open>What the snapshot of a tick reads: the files, the clock, and the counters while the traffic goes on.\<close>

record tick =
  tick_fs :: file_system
  tick_sysconf :: int
  tick_now :: time_ns
  tick_now_cpu :: time_ns
  tick_obs :: "nat \<Rightarrow> Telemetry"

fun render_ticks :: "tick list \<Rightarrow> Telemetry \<Rightarrow> Dashboard list outcome" where
  "render_ticks [] t = Inr []"
| "render_ticks (k # ks) t =
     (let (snap, t) = take_snapshot (tick_fs k) (tick_sysconf k) (tick_now k) (tick_now_cpu k) (tick_obs k) t
      in bind_outcome (render_dashboard snap) (\<lambda>d. bind_outcome (render_ticks ks t) (\<lambda>ds. Inr (d # ds))))"

definition phase15_main :: "(nat \<Rightarrow> tick) \<Rightarrow> Telemetry \<Rightarrow> Dashboard list outcome" where
  "phase15_main inp t = render_ticks (map inp [0..<10]) t"

section \<open>Specification\<close>

fun unit_bytes :: "size_unit \<Rightarrow> real" where
  "unit_bytes GigaBytes = 1024 * 1024 * 1024"
| "unit_bytes MegaBytes = 1024 * 1024"
| "unit_bytes KiloBytes = 1024"
| "unit_bytes Bytes = 1"

text \<open>A snapshot every cast of the display is defined for.\<close>

definition displayable :: "Snapshot \<Rightarrow> bool" where
  "displayable s \<longleftrightarrow> 0 \<le> uptime_sec s \<and> uptime_sec s < 2 ^ 31 \<and>
     0 \<le> cpu_usage_pct s \<and> cpu_usage_pct s < 2 ^ 31 \<and> 0 \<le> rss_memory_mb s \<and> rss_memory_mb s < 2 ^ 31 \<and>
     0 \<le> pkt_per_sec_in s \<and> pkt_per_sec_in s < 2 ^ 31 \<and> 0 \<le> drop_rate_pct s \<and> drop_rate_pct s \<le> 100"

definition gauge_ok :: "real \<Rightarrow> real \<Rightarrow> string \<Rightarrow> bool" where
  "gauge_ok v mx g \<longleftrightarrow> g = replicate (min 40 (nat \<lfloor>v / mx * 40\<rfloor>)) CHR ''#'' @ replicate (40 - min 40 (nat \<lfloor>v / mx * 40\<rfloor>)) CHR ''-''"

definition bytes_ok :: "u64 \<Rightarrow> real \<times> size_unit \<Rightarrow> bool" where
  "bytes_ok b p \<longleftrightarrow> fst p * unit_bytes (snd p) = real (unat b) \<and> (snd p \<noteq> GigaBytes \<longrightarrow> fst p < 1024) \<and>
     (snd p \<noteq> Bytes \<longrightarrow> 1 \<le> fst p)"

definition hms_ok :: "real \<Rightarrow> int \<times> int \<times> int \<Rightarrow> bool" where
  "hms_ok up p = (case p of (h, m, s) \<Rightarrow>
     h * 3600 + m * 60 + s = \<lfloor>up\<rfloor> \<and> 0 \<le> m \<and> m < 60 \<and> 0 \<le> s \<and> s < 60)"

text \<open>Every snapshot of a sequence of ticks is in range.\<close>

fun all_displayable :: "tick list \<Rightarrow> Telemetry \<Rightarrow> bool" where
  "all_displayable [] t \<longleftrightarrow> True"
| "all_displayable (k # ks) t \<longleftrightarrow>
     (let (snap, t) = take_snapshot (tick_fs k) (tick_sysconf k) (tick_now k) (tick_now_cpu k) (tick_obs k) t
      in displayable snap \<and> all_displayable ks t)"

section \<open>Lemmas\<close>

lemma fmt_bytes_exact:
  "fst (fmt_bytes b) * unit_bytes (snd (fmt_bytes b)) = real (unat b)"
  "snd (fmt_bytes b) \<noteq> GigaBytes \<Longrightarrow> fst (fmt_bytes b) < 1024"
  "snd (fmt_bytes b) \<noteq> Bytes \<Longrightarrow> 1 \<le> fst (fmt_bytes b)"
proof -
  define n where "n = unat b"
  have f: "fmt_bytes b = (if n \<ge> 1024 * 1024 * 1024 then (real n / (1024 * 1024 * 1024), GigaBytes)
      else if n \<ge> 1024 * 1024 then (real n / (1024 * 1024), MegaBytes)
      else if n \<ge> 1024 then (real n / 1024, KiloBytes) else (real n, Bytes))"
    unfolding fmt_bytes_def n_def ..
  show "fst (fmt_bytes b) * unit_bytes (snd (fmt_bytes b)) = real (unat b)"
    unfolding f n_def [symmetric] by simp
  show "snd (fmt_bytes b) \<noteq> GigaBytes \<Longrightarrow> fst (fmt_bytes b) < 1024"
    "snd (fmt_bytes b) \<noteq> Bytes \<Longrightarrow> 1 \<le> fst (fmt_bytes b)"
    unfolding f by (auto split: if_splits)
qed

lemma trunc_int_nonneg: "0 \<le> x \<Longrightarrow> x < 2 ^ 31 \<Longrightarrow> trunc_int x = Inr \<lfloor>x\<rfloor>"
  by (auto simp: trunc_int_def in_int32_def Let_def floor_less_iff intro: order_trans [OF _ zero_le_floor [THEN iffD2]])

lemma gauge_filled:
  assumes "0 \<le> v" and "v < 2 ^ 31" and "100 \<le> mx"
  shows "\<exists>g. bar_gauge v mx 40 = Inr g \<and> gauge_ok v mx g"
proof -
  have "v / mx * 40 \<le> v"
    using assms(1,3) mult_left_mono [of 40 mx v] by (simp add: divide_le_eq)
  then have tr: "trunc_int (v / mx * 40) = Inr \<lfloor>v / mx * 40\<rfloor>"
    using assms by (intro trunc_int_nonneg) auto
  define k where "k = nat \<lfloor>v / mx * 40\<rfloor>"
  have k: "\<lfloor>v / mx * 40\<rfloor> = int k" using assms by (simp add: k_def)
  have "nat (min (int k) 40) = min 40 k" "nat (40 - min (int k) 40) = 40 - min 40 k" by auto
  with assms(3) tr show ?thesis
    unfolding bar_gauge_def gauge_ok_def k_def [symmetric]
    by (simp add: k bind_outcome_def Let_def del: times_divide_eq_left)
qed

lemma hms:
  fixes up :: int
  assumes "0 \<le> up"
  shows "cdiv up 3600 * 3600 + cdiv (up - cdiv up 3600 * 3600) 60 * 60 + (up - cdiv up 60 * 60) = up"
    "0 \<le> cdiv (up - cdiv up 3600 * 3600) 60 \<and> cdiv (up - cdiv up 3600 * 3600) 60 < 60"
    "0 \<le> up - cdiv up 60 * 60 \<and> up - cdiv up 60 * 60 < 60"
proof -
  define x where "x = up mod 3600"
  have x: "0 \<le> x" "x < 3600" "up = up div 3600 * 3600 + x" by (simp_all add: x_def)
  have h: "cdiv up 3600 = up div 3600" using assms by (simp add: cdiv_nonneg)
  have "up - cdiv up 3600 * 3600 = x" using x(3) h by simp
  then have m: "cdiv (up - cdiv up 3600 * 3600) 60 = x div 60" using x(1) by (simp add: cdiv_nonneg)
  have "up - cdiv up 60 * 60 = up mod 60" using assms by (simp add: cdiv_nonneg minus_div_mult_eq_mod)
  then have s: "up - cdiv up 60 * 60 = x mod 60" by (simp add: x_def mod_mod_cancel)
  have "x div 60 * 60 + x mod 60 = x" by (rule div_mult_mod_eq)
  then show "cdiv up 3600 * 3600 + cdiv (up - cdiv up 3600 * 3600) 60 * 60 + (up - cdiv up 60 * 60) = up"
    using x(3) unfolding m s unfolding h by linarith
  show "0 \<le> cdiv (up - cdiv up 3600 * 3600) 60 \<and> cdiv (up - cdiv up 3600 * 3600) 60 < 60"
    unfolding m using x(1,2) by auto
  show "0 \<le> up - cdiv up 60 * 60 \<and> up - cdiv up 60 * 60 < 60"
    unfolding s by simp
qed

lemma hms_shown:
  "0 \<le> \<lfloor>up\<rfloor> \<Longrightarrow> hms_ok up (cdiv \<lfloor>up\<rfloor> 3600, cdiv (\<lfloor>up\<rfloor> - cdiv \<lfloor>up\<rfloor> 3600 * 3600) 60, \<lfloor>up\<rfloor> - cdiv \<lfloor>up\<rfloor> 60 * 60)"
  using hms [of "\<lfloor>up\<rfloor>"] by (simp add: hms_ok_def)

lemma render_defined: "displayable s \<Longrightarrow> \<exists>d. render_dashboard s = Inr d"
  using gauge_filled [of "cpu_usage_pct s" 100] gauge_filled [of "rss_memory_mb s" 250]
    gauge_filled [of "pkt_per_sec_in s" 10000] gauge_filled [of "drop_rate_pct s" 100]
  by (auto simp: displayable_def trunc_int_nonneg render_dashboard_def bind_outcome_def Let_def)

lemma render_ticks_length: "all_displayable ks t \<Longrightarrow> \<exists>ds. render_ticks ks t = Inr ds \<and> length ds = length ks"
proof (induction ks arbitrary: t)
  case (Cons k ks)
  obtain snap u where s: "take_snapshot (tick_fs k) (tick_sysconf k) (tick_now k) (tick_now_cpu k) (tick_obs k) t = (snap, u)"
    by fastforce
  with Cons.prems Cons.IH [of u] render_defined [of snap] show ?case by (auto simp: bind_outcome_def)
qed simp

text \<open>If every snapshot it takes is in range, \<open>main\<close> draws its ten dashboards.\<close>

lemma phase15_draws:
  "all_displayable (map inp [0..<10]) t \<Longrightarrow> \<exists>ds. phase15_main inp t = Inr ds \<and> length ds = 10"
  using render_ticks_length [of "map inp [0..<10]" t] by (simp add: phase15_main_def)

section \<open>Properties\<close>

text \<open>
  the dashboard of phase 15 shows a snapshot as it is: for values in the range of the casts
  it is drawn without undefined behaviour, hours, minutes and seconds add up to the whole seconds of
  the uptime, each of the four gauges fills 40 characters in proportion to its value, a figure is
  red exactly if it is beyond its threshold, and a byte count times its unit is the counter, with at
  least one and, below the largest unit, less than 1024 units.
\<close>

theorem dashboard_shows:
  assumes "displayable s"
  shows "\<exists>d. render_dashboard s = Inr d \<and> hms_ok (uptime_sec s) (uptime_hms d) \<and>
    gauge_ok (cpu_usage_pct s) 100 (snd (snd (cpu_shown d))) \<and> gauge_ok (rss_memory_mb s) 250 (snd (snd (rss_shown d))) \<and>
    gauge_ok (pkt_per_sec_in s) 10000 (snd (snd (pps_shown d))) \<and> gauge_ok (drop_rate_pct s) 100 (fst (snd (drop_bar d))) \<and>
    (fst (cpu_shown d) = RED \<longleftrightarrow> cpu_usage_pct s > 75) \<and> (fst (drops_shown d) = RED \<longleftrightarrow> drop_rate_pct s > 5) \<and>
    (fst (auth_shown d) = RED \<longleftrightarrow> snap_auth_failures s > 0) \<and>
    bytes_ok (snap_bytes_in s) (snd (bytes_in_shown d)) \<and> bytes_ok (snap_bytes_out s) (snd (bytes_out_shown d))"
proof -
  have "\<exists>g. bar_gauge (cpu_usage_pct s) 100 40 = Inr g \<and> gauge_ok (cpu_usage_pct s) 100 g"
    "\<exists>g. bar_gauge (rss_memory_mb s) 250 40 = Inr g \<and> gauge_ok (rss_memory_mb s) 250 g"
    "\<exists>g. bar_gauge (pkt_per_sec_in s) 10000 40 = Inr g \<and> gauge_ok (pkt_per_sec_in s) 10000 g"
    "\<exists>g. bar_gauge (drop_rate_pct s) 100 40 = Inr g \<and> gauge_ok (drop_rate_pct s) 100 g"
    using assms by (auto simp: displayable_def intro!: gauge_filled)
  moreover have "trunc_int (uptime_sec s) = Inr \<lfloor>uptime_sec s\<rfloor>" "0 \<le> \<lfloor>uptime_sec s\<rfloor>"
    using assms by (simp_all add: displayable_def trunc_int_nonneg)
  moreover have "bytes_ok b (fmt_bytes b)" for b
    using fmt_bytes_exact [of b] by (simp add: bytes_ok_def del: of_nat_unat)
  ultimately show ?thesis
    by (auto simp: render_dashboard_def bind_outcome_def Let_def hms_shown)
qed

theorem dashboard_shows_witness:
  "\<exists>d. render_dashboard \<lparr> snap_received = 5, snap_sent = 0, snap_dropped = 0, snap_bytes_in = 2048, snap_bytes_out = 0,
     snap_active = 3, snap_auth_failures = 0, uptime_sec = 3725, pkt_per_sec_in = 1, drop_rate_pct = 0, cpu_usage_pct = 80,
     rss_memory_mb = 10, avg_latency_us = 0 \<rparr> = Inr d \<and> fst (cpu_shown d) = RED \<and> hms_ok 3725 (uptime_hms d)"
  using dashboard_shows [of "\<lparr> snap_received = 5, snap_sent = 0, snap_dropped = 0, snap_bytes_in = 2048, snap_bytes_out = 0,
     snap_active = 3, snap_auth_failures = 0, uptime_sec = 3725, pkt_per_sec_in = 1, drop_rate_pct = 0, cpu_usage_pct = 80,
     rss_memory_mb = 10, avg_latency_us = 0 \<rparr>"]
  by (auto simp: displayable_def)

end
