(* ===== verification/Sanitizer_Demo.thy ===== *)
theory Sanitizer_Demo
  imports Packet_Protocol
begin

text \<open>
  The checks of \<open>src/phase19_sanitizers_demo.cpp\<close>: each function is the list of the conditions it
  asserts, and the concurrent counter is a machine of threads whose steps are the atomic
  increments. The guide it prints is left out.
\<close>

section \<open>Data and operations\<close>

text \<open>Test A and the writes of test B; a write outside the vector is undefined.\<close>

fun fill_from :: "nat \<Rightarrow> nat \<Rightarrow> u8 list \<Rightarrow> u8 list outcome" where
  "fill_from 0 i buffer = Inr buffer"
| "fill_from (Suc n) i buffer =
     (if i < length buffer then fill_from n (Suc i) (buffer[i := of_nat i AND 0xFF]) else Inl Undefined)"

definition verify_address_sanitizer_bounds :: "endian \<Rightarrow> (bool list \<times> u8 list) outcome" where
  "verify_address_sanitizer_bounds e =
     bind_outcome (make_packet_str e DATA ''ASan Clean Memory Allocation Test'') (\<lambda>packet.
     let a1 = (get_payload_length e packet > 0) in
     bind_outcome (serialize e packet) (\<lambda>bytes.
     let a2 = (bytes \<noteq> []); buffer = replicate 64 0xAB in
     bind_outcome (fill_from (length buffer) 0 buffer) (\<lambda>buffer. Inr ([a1, a2], buffer))))"

definition THREAD_COUNT :: nat where
  "THREAD_COUNT = 8"

definition ITERATIONS_PER_THREAD :: nat where
  "ITERATIONS_PER_THREAD = 1000"

record counter_threads =
  atomic_counter :: u64
  iterations_left :: "nat \<Rightarrow> nat"

text \<open>One iteration of thread \<open>t\<close>: a single atomic \<open>fetch_add\<close>.\<close>

definition count_act :: "nat \<Rightarrow> counter_threads \<Rightarrow> counter_threads option" where
  "count_act t w =
     (if iterations_left w t = 0 then None
      else Some (w\<lparr> atomic_counter := atomic_counter w + 1,
                   iterations_left := (iterations_left w)(t := iterations_left w t - 1) \<rparr>))"

definition start_count :: counter_threads where
  "start_count = \<lparr> atomic_counter = 0, iterations_left = (\<lambda>t. if t < THREAD_COUNT then ITERATIONS_PER_THREAD else 0) \<rparr>"

text \<open>\<open>order\<close> is the order of the increments; the assertion is evaluated when all threads are joined,
  \<open>None\<close> before.\<close>

definition verify_thread_sanitizer_concurrency :: "nat list \<Rightarrow> (bool list \<times> u64) option" where
  "verify_thread_sanitizer_concurrency order =
     (case run_events count_act order start_count of
        None \<Rightarrow> None
      | Some w \<Rightarrow>
          if list_all (\<lambda>t. iterations_left w t = 0) [0..<THREAD_COUNT]
          then Some ([atomic_counter w = of_nat (THREAD_COUNT * ITERATIONS_PER_THREAD)], atomic_counter w)
          else None)"

definition verify_undefined_behavior_sanitizer :: "endian \<Rightarrow> bool list" where
  "verify_undefined_behavior_sanitizer e =
     (let a = (1000 :: u32); b = 2000; c = a + b;
          hdr = \<lparr> version = PROTOCOL_VERSION, type_code = packet_type_code HELLO, hdr_length = htonl e 12 \<rparr>
      in [c = 3000, version hdr = 1])"

section \<open>Specification\<close>

text \<open>Increments done and increments left.\<close>

definition count_inv :: "counter_threads \<Rightarrow> bool" where
  "count_inv w \<longleftrightarrow> (\<forall>t \<ge> THREAD_COUNT. iterations_left w t = 0) \<and>
     (\<exists>n. atomic_counter w = of_nat n \<and> n + (\<Sum>t<THREAD_COUNT. iterations_left w t) = THREAD_COUNT * ITERATIONS_PER_THREAD)"

section \<open>Lemmas\<close>

lemma count_act_inv: "count_inv w \<Longrightarrow> count_act t w = Some w' \<Longrightarrow> count_inv w'"
proof -
  assume inv: "count_inv w" and act: "count_act t w = Some w'"
  then have "iterations_left w t \<noteq> 0" by (auto simp: count_act_def split: if_splits)
  with inv have t: "iterations_left w t \<noteq> 0" "t < THREAD_COUNT"
    unfolding count_inv_def by (blast, meson not_le)
  from act t(1) have w': "w' = w\<lparr> atomic_counter := atomic_counter w + 1, iterations_left := (iterations_left w)(t := iterations_left w t - 1) \<rparr>"
    by (simp add: count_act_def)
  from inv obtain n where n: "atomic_counter w = of_nat n"
    "n + (\<Sum>t<THREAD_COUNT. iterations_left w t) = THREAD_COUNT * ITERATIONS_PER_THREAD" by (auto simp: count_inv_def)
  have "(\<Sum>j<THREAD_COUNT. iterations_left w j) = Suc (\<Sum>j<THREAD_COUNT. iterations_left w' j)"
    using t by (simp add: w' sum.remove [of "{..<THREAD_COUNT}" t])
  with n have "atomic_counter w' = of_nat (Suc n)"
    "Suc n + (\<Sum>t<THREAD_COUNT. iterations_left w' t) = THREAD_COUNT * ITERATIONS_PER_THREAD" by (simp_all add: w')
  moreover have "\<forall>j \<ge> THREAD_COUNT. iterations_left w' j = 0" using inv t(2) by (simp add: count_inv_def w')
  ultimately show ?thesis unfolding count_inv_def by blast
qed

interpretation counting: event_machine count_act "\<lambda>w. w = start_count" count_inv
proof
  show "count_inv w" if "w = start_count" for w
    using that by (auto simp: start_count_def count_inv_def intro: exI [of _ 0])
qed (rule count_act_inv)

lemma run_one_thread:
  "n \<le> iterations_left w t \<Longrightarrow>
   \<exists>w'. run_events count_act (replicate n t) w = Some w' \<and> iterations_left w' = (iterations_left w)(t := iterations_left w t - n)"
proof (induction n arbitrary: w)
  case (Suc n)
  let ?w = "w\<lparr> atomic_counter := atomic_counter w + 1, iterations_left := (iterations_left w)(t := iterations_left w t - 1) \<rparr>"
  have "count_act t w = Some ?w" using Suc.prems by (simp add: count_act_def)
  moreover have "iterations_left ?w t = iterations_left w t - 1" by simp
  moreover have "(iterations_left ?w)(t := iterations_left ?w t - n) = (iterations_left w)(t := iterations_left w t - Suc n)"
    by (simp add: fun_eq_iff)
  ultimately show ?case using Suc.IH [of ?w] Suc.prems by (simp del: fun_upd_apply)
qed simp

text \<open>The threads one after the other.\<close>

lemma run_threads:
  "k \<le> THREAD_COUNT \<Longrightarrow> \<exists>w. run_events count_act (concat (map (replicate ITERATIONS_PER_THREAD) [0..<k])) start_count = Some w \<and>
     iterations_left w = (\<lambda>t. if k \<le> t \<and> t < THREAD_COUNT then ITERATIONS_PER_THREAD else 0)"
proof (induction k)
  case (Suc k)
  then obtain w where w: "run_events count_act (concat (map (replicate ITERATIONS_PER_THREAD) [0..<k])) start_count = Some w"
    "iterations_left w = (\<lambda>t. if k \<le> t \<and> t < THREAD_COUNT then ITERATIONS_PER_THREAD else 0)" by auto
  obtain w' where "run_events count_act (replicate ITERATIONS_PER_THREAD k) w = Some w'"
    "iterations_left w' = (iterations_left w)(k := iterations_left w k - ITERATIONS_PER_THREAD)"
    using run_one_thread [of ITERATIONS_PER_THREAD w k] w(2) Suc.prems by auto
  with w show ?case by (auto simp: run_append fun_eq_iff)
qed (simp add: start_count_def)

lemma and_mask_u8: "w AND 0xFF = (w :: u8)"
proof -
  have "(0xFF :: u8) = - 1" by simp
  then show ?thesis by (simp only: and.right_neutral)
qed

lemma fill_from_length: "i + n \<le> length buf \<Longrightarrow> \<exists>buf'. fill_from n i buf = Inr buf' \<and> length buf' = length buf \<and>
  (\<forall>j < length buf. buf' ! j = (if i \<le> j \<and> j < i + n then of_nat j AND 0xFF else buf ! j))"
proof (induction n arbitrary: i buf)
  case (Suc n)
  from Suc.IH [of "Suc i" "buf[i := of_nat i AND 0xFF]"] Suc.prems show ?case
    by (auto simp: nth_list_update not_less_eq_eq dest: le_antisym)
qed auto

section \<open>Properties\<close>

text \<open>
  the checks of phase 19 hold: on a host of either byte order the assertions of the first and the
  third are true and the writes of the first stay within the vector, which ends as 0 to 63; and in every
  order of the increments of the eight threads the counter is 8000 when they have been joined.
\<close>

theorem phase19_passes:
  "(\<exists>buffer. verify_address_sanitizer_bounds e = Inr ([True, True], buffer) \<and> buffer = map of_nat [0..<64]) \<and>
   (verify_thread_sanitizer_concurrency order = Some r \<longrightarrow> r = ([True], 8000)) \<and>
   verify_undefined_behavior_sanitizer e = [True, True]"
proof (intro conjI impI)
  obtain p where p: "make_packet_str e DATA ''ASan Clean Memory Allocation Test'' = Inr p"
    by (simp add: make_packet_str_def make_packet_def packet_consts)
  then have ok: "packet_ok e p" by (auto simp: make_packet_str_def intro: make_packet_ok)
  have "length (payload p) = 33" using p by (auto simp: make_packet_str_def make_packet_def split: if_splits)
  with ok have "get_payload_length e p > 0" "header_bytes e (header p) @ payload p \<noteq> []"
    by (auto simp: packet_ok_def word_less_nat_alt)
  moreover obtain buffer where b: "fill_from 64 0 (replicate 64 0xAB) = Inr buffer" "length buffer = 64"
    "\<forall>j < 64. buffer ! j = of_nat j AND 0xFF"
    using fill_from_length [of 0 64 "replicate 64 0xAB"] by auto
  moreover have "buffer = map of_nat [0..<64]"
  proof (rule nth_equalityI)
    fix j assume "j < length buffer"
    with b have j: "j < 64" "buffer ! j = of_nat j AND 0xFF" by auto
    have "of_nat j AND 0xFF = (of_nat j :: u8)" by (rule and_mask_u8)
    with j show "buffer ! j = map of_nat [0..<64] ! j" by simp
  qed (simp add: b(2))
  ultimately show "\<exists>buffer. verify_address_sanitizer_bounds e = Inr ([True, True], buffer) \<and> buffer = map of_nat [0..<64]"
    using p serialize_ok [OF ok] by (simp add: verify_address_sanitizer_bounds_def bind_outcome_def Let_def)
next
  assume "verify_thread_sanitizer_concurrency order = Some r"
  then obtain w where w: "run_events count_act order start_count = Some w" "\<forall>t<THREAD_COUNT. iterations_left w t = 0"
    "r = ([atomic_counter w = of_nat (THREAD_COUNT * ITERATIONS_PER_THREAD)], atomic_counter w)"
    by (auto simp: verify_thread_sanitizer_concurrency_def list_all_iff split: option.splits if_splits)
  have "count_inv w" using counting.run_inv [OF refl w(1)] .
  with w(2,3) show "r = ([True], 8000)" by (auto simp: count_inv_def THREAD_COUNT_def ITERATIONS_PER_THREAD_def)
next
  show "verify_undefined_behavior_sanitizer e = [True, True]"
    by (simp add: verify_undefined_behavior_sanitizer_def Let_def PROTOCOL_VERSION_def)
qed

theorem phase19_passes_witness:
  "verify_thread_sanitizer_concurrency (concat (map (replicate ITERATIONS_PER_THREAD) [0..<THREAD_COUNT])) = Some ([True], 8000)"
proof -
  obtain w where "run_events count_act (concat (map (replicate ITERATIONS_PER_THREAD) [0..<THREAD_COUNT])) start_count = Some w"
    "iterations_left w = (\<lambda>t. if THREAD_COUNT \<le> t \<and> t < THREAD_COUNT then ITERATIONS_PER_THREAD else 0)"
    using run_threads [of THREAD_COUNT] by blast
  then obtain r where "verify_thread_sanitizer_concurrency (concat (map (replicate ITERATIONS_PER_THREAD) [0..<THREAD_COUNT])) = Some r"
    by (auto simp: verify_thread_sanitizer_concurrency_def list_all_iff)
  with phase19_passes show ?thesis by blast
qed

end
