(* ===== verification/Kernel_Stats.thy ===== *)
theory Kernel_Stats
  imports Config_Parser Benchmark_Suite
begin

text \<open>
  The kernel module \<open>kernel/gateway_stats_mod.c\<close> and the program that shows its statistics,
  \<open>src/phase23_kernel_module_demo.cpp\<close>. The proc file system is the map from paths to contents;
  reading \<open>/proc/gateway_stats\<close> yields what \<open>gateway_stats_show\<close> writes. The introduction and the
  closing lines the program prints are left out.
\<close>

section \<open>Data and operations\<close>

subsection \<open>The module\<close>

record kernel_counters =
  g_rx_packets :: int
  g_tx_packets :: int
  g_drop_packets :: int

definition initial_counters :: kernel_counters where
  "initial_counters = \<lparr> g_rx_packets = 1048576, g_tx_packets = 1048000, g_drop_packets = 576 \<rparr>"

text \<open>The conversion \<open>%lld\<close>.\<close>

definition lld :: "int \<Rightarrow> string" where
  "lld n = (if n < 0 then CHR ''-'' # to_string (nat (- n)) else to_string (nat n))"

definition ruler :: string where
  "ruler = replicate 40 CHR ''=''"

definition gateway_stats_show :: "kernel_counters \<Rightarrow> string list" where
  "gateway_stats_show c =
     [ruler, '' LINUX KERNEL GATEWAY TELEMETRY (/proc/'' @ ''gateway_stats'' @ '')'', ruler,
      ''  Kernel Ring Privilege : Ring 0 (LKM Driver)'',
      ''  Kernel RX Packets     : '' @ lld (g_rx_packets c),
      ''  Kernel TX Packets     : '' @ lld (g_tx_packets c),
      ''  Kernel Dropped Packets: '' @ lld (g_drop_packets c), ruler]"

definition proc_path :: string where
  "proc_path = ''/proc/gateway_stats''"

definition with_newlines :: "string list \<Rightarrow> string" where
  "with_newlines ls = concat (map (\<lambda>l. l @ [CHR 0x0A]) ls)"

definition ENOMEM :: int where
  "ENOMEM = 12"

text \<open>Loading the module, with the success of \<open>proc_create\<close>, and unloading it.\<close>

definition gateway_stats_init :: "bool \<Rightarrow> kernel_counters \<Rightarrow> file_system \<Rightarrow> int \<times> file_system" where
  "gateway_stats_init created c fs =
     (if \<not> created then (- ENOMEM, fs) else (0, fs(proc_path \<mapsto> with_newlines (gateway_stats_show c))))"

definition gateway_stats_exit :: "file_system \<Rightarrow> file_system" where
  "gateway_stats_exit fs = fs(proc_path := None)"

subsection \<open>Phase 23\<close>

text \<open>Whether the file could be read, and the lines between the two rules.\<close>

definition read_proc_gateway_stats :: "file_system \<Rightarrow> bool \<times> string list" where
  "read_proc_gateway_stats fs =
     (case fs proc_path of None \<Rightarrow> (False, []) | Some content \<Rightarrow> (True, getlines [] content))"

definition fallback_kernel_telemetry_simulation :: "string list" where
  "fallback_kernel_telemetry_simulation =
     [''========================================'',
      '' LINUX KERNEL GATEWAY TELEMETRY (/proc/gateway_stats)'',
      ''========================================'',
      ''  Kernel Ring Privilege : Ring 0 (LKM Driver)'',
      ''  Kernel RX Packets     : 1048576'',
      ''  Kernel TX Packets     : 1048000'',
      ''  Kernel Dropped Packets: 576'',
      ''========================================'']"

definition phase23_main :: "file_system \<Rightarrow> string list" where
  "phase23_main fs =
     (let (ok, shown) = read_proc_gateway_stats fs
      in if \<not> ok then fallback_kernel_telemetry_simulation else shown)"

section \<open>Lemmas\<close>

lemma getlines_with_newlines: "list_all (\<lambda>l. CHR 0x0A \<notin> set l) ls \<Longrightarrow> getlines [] (with_newlines ls) = ls"
  by (induction ls) (simp_all add: with_newlines_def getlines_line)

lemma to_string_no_newline: "CHR 0x0A \<notin> set (to_string n)"
proof (induction n rule: to_string.induct)
  case (1 n)
  have "char_of (48 + k) \<noteq> CHR 0x0A" if "k < 10" for k :: nat
  proof
    assume "char_of (48 + k) = CHR 0x0A"
    then have "of_char (char_of (48 + k) :: char) = (of_char (CHR 0x0A) :: nat)" by (rule arg_cong)
    with that show False by simp
  qed
  from 1 this [of n] this [of "n mod 10"] show ?case by (auto simp: to_string.simps [of n])
qed

lemma to_string_counters: "to_string 1048576 = ''1048576''" "to_string 1048000 = ''1048000''" "to_string 576 = ''576''"
  by (simp_all add: to_string.simps char_of_def bit_0)

lemma ruler_text: "ruler = ''========================================''"
  by (simp add: ruler_def numeral_eq_Suc)

lemma show_lines: "list_all (\<lambda>l. CHR 0x0A \<notin> set l) (gateway_stats_show c)"
  by (auto simp: gateway_stats_show_def ruler_def lld_def to_string_no_newline)

section \<open>Properties\<close>

text \<open>
  phase 23 and the module agree: with the module loaded the program shows exactly the lines the module
  writes for its counters; without it, before loading or after unloading, or when the proc entry could
  not be created, it shows a simulation that is, line by line, what a freshly loaded module would
  have written.
\<close>

theorem phase23_agrees:
  assumes "fs proc_path = None"
  shows "phase23_main (snd (gateway_stats_init True c fs)) = gateway_stats_show c \<and>
    phase23_main fs = gateway_stats_show initial_counters \<and>
    phase23_main (snd (gateway_stats_init False c fs)) = gateway_stats_show initial_counters \<and>
    phase23_main (gateway_stats_exit (snd (gateway_stats_init True c fs))) = gateway_stats_show initial_counters"
proof -
  have sim: "fallback_kernel_telemetry_simulation = gateway_stats_show initial_counters"
    by (simp add: fallback_kernel_telemetry_simulation_def gateway_stats_show_def initial_counters_def lld_def
        to_string_counters ruler_text)
  show ?thesis
    using assms getlines_with_newlines [OF show_lines]
    by (simp add: phase23_main_def read_proc_gateway_stats_def gateway_stats_init_def gateway_stats_exit_def sim)
qed

theorem phase23_agrees_witness:
  "phase23_main (snd (gateway_stats_init True initial_counters Map.empty)) = phase23_main Map.empty"
  using phase23_agrees [of Map.empty initial_counters] by simp

end
