(* ===== verification/Logger_Threads.thy ===== *)
theory Logger_Threads
  imports Logger_Demo
begin

text \<open>
  The logger of \<open>include/logging/AsyncLogger.hpp\<close> at the granularity of its memory accesses: a call of \<open>log\<close> claims
  a slot, tests its flag, writes level, time and text and sets the flag in separate steps, and the consumer tests, prints,
  releases and advances in separate steps, so that any number of producers and the consumer interleave inside the calls.
  \<open>Async_Logger\<close> has the same code with a call and an iteration as one step each; here it is shown when that is justified,
  what holds in every interleaving, and what goes wrong when a call is overtaken by a whole round of the ring.
\<close>

section \<open>Data and operations\<close>

text \<open>Where a call of \<open>log\<close> is after its \<open>fetch_add\<close>; it keeps its arguments and its slot.\<close>

datatype stage = Check | PutLevel | PutTime | CopyText | Terminate | Publish

datatype producer = Free | Busy LogLevel string nat stage

text \<open>Where the consumer is: at the two halves of the loop condition (the second looks at one slot after the other), at the
  test of the flag, inside the output statement, before the release of the slot, before the advance of \<open>tail_\<close>.\<close>

datatype consumer =
    TestRunning
  | Scan nat
  | TestValid
  | PrintTime
  | PrintLevel int
  | PrintText int string
  | Release
  | Advance
  | Stopped

text \<open>Besides the logger and the threads the state has the lines printed, the answers of the calls that have returned, and
  the arguments of the calls in the order of their \<open>fetch_add\<close>.\<close>

record logger_sys =
  core :: AsyncLogger
  producers :: "nat \<Rightarrow> producer"
  consumer :: consumer
  printed :: "log_line list"
  answers :: "(nat \<times> bool) list"
  claimed :: "(LogLevel \<times> string) list"

definition logger_sys0 :: logger_sys where
  "logger_sys0 = \<lparr> core = start_logger new_logger, producers = (\<lambda>_. Free), consumer = TestRunning, printed = [],
     answers = [], claimed = [] \<rparr>"

definition copy_len :: "string \<Rightarrow> nat" where
  "copy_len msg = min (length msg) 255"

definition copy_text :: "string \<Rightarrow> LogEntry \<Rightarrow> LogEntry" where
  "copy_text msg e = e\<lparr> message := take (copy_len msg) msg @ drop (copy_len msg) (message e) \<rparr>"

definition terminate_text :: "string \<Rightarrow> LogEntry \<Rightarrow> LogEntry" where
  "terminate_text msg e = e\<lparr> message := (message e)[copy_len msg := CHR 0x00] \<rparr>"

text \<open>A store into the entry of a slot.\<close>

definition store :: "nat \<Rightarrow> (LogEntry \<Rightarrow> LogEntry) \<Rightarrow> AsyncLogger \<Rightarrow> AsyncLogger" where
  "store i f l = l\<lparr> ring := (ring l)[i := f (ring l ! i)] \<rparr>"

text \<open>\<open>fetch_add\<close>: the call has its slot.\<close>

definition log_claim :: "nat \<Rightarrow> LogLevel \<Rightarrow> string \<Rightarrow> logger_sys \<Rightarrow> logger_sys" where
  "log_claim t level msg s =
     s\<lparr> core := (core s)\<lparr> head := head (core s) + 1 \<rparr>,
        producers := (producers s)(t := Busy level msg (slot_of (head (core s))) Check),
        claimed := claimed s @ [(level, msg)] \<rparr>"

text \<open>The call writes its slot and goes on to the next stage, or it returns.\<close>

definition advance_to :: "nat \<Rightarrow> producer \<Rightarrow> AsyncLogger \<Rightarrow> logger_sys \<Rightarrow> logger_sys" where
  "advance_to t p l s = s\<lparr> core := l, producers := (producers s)(t := p) \<rparr>"

definition answer :: "nat \<Rightarrow> bool \<Rightarrow> AsyncLogger \<Rightarrow> logger_sys \<Rightarrow> logger_sys" where
  "answer t b l s = s\<lparr> core := l, producers := (producers s)(t := Free), answers := answers s @ [(t, b)] \<rparr>"

definition log_step :: "nat \<Rightarrow> time_ns \<Rightarrow> logger_sys \<Rightarrow> logger_sys option" where
  "log_step t now s =
     (let l = core s
      in case producers s t of
           Free \<Rightarrow> None
         | Busy level msg i st \<Rightarrow> Some (case st of
             Check \<Rightarrow> if valid (ring l ! i) then answer t False (l\<lparr> dropped := dropped l + 1 \<rparr>) s
                      else advance_to t (Busy level msg i PutLevel) l s
           | PutLevel \<Rightarrow> advance_to t (Busy level msg i PutTime) (store i (entry_level_update (\<lambda>_. level)) l) s
           | PutTime \<Rightarrow> advance_to t (Busy level msg i CopyText) (store i (timestamp_us_update (\<lambda>_. ns_to_us now)) l) s
           | CopyText \<Rightarrow> advance_to t (Busy level msg i Terminate) (store i (copy_text msg) l) s
           | Terminate \<Rightarrow> advance_to t (Busy level msg i Publish) (store i (terminate_text msg) l) s
           | Publish \<Rightarrow> answer t True (store i (valid_update (\<lambda>_. True)) l) s))"

definition consumer_step :: "logger_sys \<Rightarrow> logger_sys option" where
  "consumer_step s =
     (let l = core s; i = slot_of (tail l); e = ring l ! i
      in case consumer s of
           TestRunning \<Rightarrow> Some (s\<lparr> consumer := if logger_running l then TestValid else Scan 0 \<rparr>)
         | Scan j \<Rightarrow> Some (s\<lparr> consumer := if j < RING_CAPACITY then if valid (ring l ! j) then TestValid else Scan (j + 1)
                                  else Stopped \<rparr>)
         | TestValid \<Rightarrow> Some (s\<lparr> consumer := if valid e then PrintTime else TestRunning \<rparr>)
         | PrintTime \<Rightarrow> Some (s\<lparr> consumer := PrintLevel (timestamp_us e) \<rparr>)
         | PrintLevel ts \<Rightarrow> Some (s\<lparr> consumer := PrintText ts (level_str (entry_level e)) \<rparr>)
         | PrintText ts lv \<Rightarrow> Some (s\<lparr> consumer := Release, printed := printed s @ [(ts, lv, c_string (message e))] \<rparr>)
         | Release \<Rightarrow> Some (s\<lparr> consumer := Advance, core := store i (valid_update (\<lambda>_. False)) l \<rparr>)
         | Advance \<Rightarrow> Some (s\<lparr> consumer := TestRunning, core := l\<lparr> tail := tail l + 1 \<rparr> \<rparr>)
         | Stopped \<Rightarrow> None)"

datatype logger_event = Call nat LogLevel string | Work nat time_ns | Consumer | Stop

fun logger_act :: "logger_event \<Rightarrow> logger_sys \<Rightarrow> logger_sys option" where
  "logger_act (Call t level msg) s = (if producers s t = Free then Some (log_claim t level msg s) else None)"
| "logger_act (Work t now) s = log_step t now s"
| "logger_act Consumer s = consumer_step s"
| "logger_act Stop s =
     (if logger_running (core s) then Some (s\<lparr> core := (core s)\<lparr> logger_running := False \<rparr> \<rparr>) else None)"

section \<open>Specification\<close>

text \<open>Schedules in which a call starts only when fewer calls than slots have not been consumed.\<close>

definition has_room :: "AsyncLogger \<Rightarrow> bool" where
  "has_room l \<longleftrightarrow> unat (head l - tail l) < RING_CAPACITY"

fun roomy_act :: "logger_event \<Rightarrow> logger_sys \<Rightarrow> logger_sys option" where
  "roomy_act (Call t level msg) s = (if has_room (core s) then logger_act (Call t level msg) s else None)"
| "roomy_act e s = logger_act e s"

definition text_of :: "LogLevel \<times> string \<Rightarrow> string \<times> string" where
  "text_of c = (level_str (fst c), c_string (take 255 (snd c)))"

text \<open>What a call at a stage has written.\<close>

fun written :: "stage \<Rightarrow> LogLevel \<Rightarrow> string \<Rightarrow> LogEntry \<Rightarrow> bool" where
  "written Check level msg e = True"
| "written PutLevel level msg e = True"
| "written PutTime level msg e = (entry_level e = level)"
| "written CopyText level msg e = (entry_level e = level)"
| "written Terminate level msg e = (entry_level e = level \<and> take (copy_len msg) (message e) = take 255 msg)"
| "written Publish level msg e = (entry_level e = level \<and> c_string (message e) = c_string (take 255 msg))"

fun slot_in :: "producer \<Rightarrow> nat option" where
  "slot_in Free = None"
| "slot_in (Busy level msg i st) = Some i"

text \<open>The slots while \<open>lo\<close> lines are released: claim \<open>k\<close> has slot \<open>k mod RING_CAPACITY\<close>, which holds its line or
  belongs to one call that is writing it; no other slot is valid.\<close>

definition cells_ok :: "nat \<Rightarrow> (LogLevel \<times> string) list \<Rightarrow> LogEntry list \<Rightarrow> (nat \<Rightarrow> producer) \<Rightarrow> bool" where
  "cells_ok lo cl r ps \<longleftrightarrow> lo \<le> length cl \<and> length cl \<le> lo + RING_CAPACITY \<and>
     length r = RING_CAPACITY \<and> list_all (\<lambda>e. length (message e) = 256) r \<and>
     (\<forall>t level msg i st. ps t = Busy level msg i st \<longrightarrow> \<not> valid (r ! i) \<and> written st level msg (r ! i) \<and>
        (\<exists>k. lo \<le> k \<and> k < length cl \<and> i = k mod RING_CAPACITY \<and> cl ! k = (level, msg))) \<and>
     (\<forall>t u i. slot_in (ps t) = Some i \<and> slot_in (ps u) = Some i \<longrightarrow> t = u) \<and>
     (\<forall>k. lo \<le> k \<and> k < length cl \<longrightarrow>
        valid (r ! (k mod RING_CAPACITY)) \<and> snd (format_entry (r ! (k mod RING_CAPACITY))) = text_of (cl ! k) \<or>
        (\<exists>t. slot_in (ps t) = Some (k mod RING_CAPACITY))) \<and>
     (\<forall>i < RING_CAPACITY. valid (r ! i) \<longrightarrow> (\<exists>k. lo \<le> k \<and> k < length cl \<and> i = k mod RING_CAPACITY))"

definition released :: "logger_sys \<Rightarrow> nat" where
  "released s = length (printed s) - of_bool (consumer s = Release)"

definition taken :: "logger_sys \<Rightarrow> nat" where
  "taken s = released s - of_bool (consumer s = Advance)"

text \<open>What the consumer has read of the slot it is printing.\<close>

fun reading :: "consumer \<Rightarrow> LogEntry \<Rightarrow> bool" where
  "reading PrintTime e = valid e"
| "reading (PrintLevel ts) e = valid e"
| "reading (PrintText ts lv) e = (valid e \<and> lv = level_str (entry_level e))"
| "reading Release e = valid e"
| "reading c e = True"

definition logger_inv :: "logger_sys \<Rightarrow> bool" where
  "logger_inv s \<longleftrightarrow>
     cells_ok (released s) (claimed s) (ring (core s)) (producers s) \<and>
     (consumer s = Release \<or> consumer s = Advance \<longrightarrow> printed s \<noteq> []) \<and>
     length (claimed s) \<le> taken s + RING_CAPACITY \<and>
     head (core s) = of_nat (length (claimed s)) \<and> tail (core s) = of_nat (taken s) \<and>
     map snd (printed s) = map text_of (take (length (printed s)) (claimed s)) \<and>
     length (printed s) \<le> length (claimed s) \<and>
     reading (consumer s) (ring (core s) ! (taken s mod RING_CAPACITY)) \<and>
     dropped (core s) = 0 \<and> list_all snd (answers s)"

section \<open>The slots\<close>

lemma window_inj:
  assumes "lo \<le> j" "j < lo + RING_CAPACITY" "lo \<le> k" "k < lo + RING_CAPACITY" "j mod RING_CAPACITY = k mod RING_CAPACITY"
  shows "j = k"
proof -
  have "j - lo = k - lo" using mod_shift_inj [of lo "j - lo" RING_CAPACITY "k - lo"] assms by simp
  with assms show ?thesis by simp
qed

lemma slot_of_nat [simp]: "slot_of (of_nat k) = k mod RING_CAPACITY"
  using slot_nth [of 0 k] by simp

lemma copy_len_bound: "copy_len msg < 256" "copy_len msg \<le> length msg"
  by (simp_all add: copy_len_def)

lemma take_copy_len [simp]: "take (copy_len msg) msg = take 255 msg"
  by (simp add: copy_len_def min_def)

lemma text_writes [simp]:
  "length (message e) = 256 \<Longrightarrow> length (message (copy_text msg e)) = 256"
  "length (message e) = 256 \<Longrightarrow> length (message (terminate_text msg e)) = 256"
  "valid (copy_text msg e) = valid e" "valid (terminate_text msg e) = valid e"
  "entry_level (copy_text msg e) = entry_level e" "entry_level (terminate_text msg e) = entry_level e"
  "timestamp_us (copy_text msg e) = timestamp_us e" "timestamp_us (terminate_text msg e) = timestamp_us e"
  by (simp_all add: copy_text_def terminate_text_def copy_len_def)

lemma c_string_terminated: "n < length xs \<Longrightarrow> c_string (xs[n := CHR 0x00]) = c_string (take n xs)"
proof (induction xs arbitrary: n)
  case (Cons x xs)
  then show ?case by (cases n) (simp_all add: c_string_def)
qed simp

lemma copied: "take (copy_len msg) (message (copy_text msg e)) = take 255 msg"
  by (simp add: copy_text_def copy_len_def min_def)

lemma terminated:
  assumes "length (message e) = 256" and "take (copy_len msg) (message e) = take 255 msg"
  shows "c_string (message (terminate_text msg e)) = c_string (take 255 msg)"
  using assms copy_len_bound(1) [of msg] by (simp add: terminate_text_def c_string_terminated)

lemma cells_okD:
  assumes "cells_ok lo cl r ps"
  shows "lo \<le> length cl" and "length cl \<le> lo + RING_CAPACITY" and "length r = RING_CAPACITY"
    and "i < RING_CAPACITY \<Longrightarrow> length (message (r ! i)) = 256"
    and "ps t = Busy level msg i st \<Longrightarrow> \<not> valid (r ! i) \<and> written st level msg (r ! i) \<and>
      (\<exists>k. lo \<le> k \<and> k < length cl \<and> i = k mod RING_CAPACITY \<and> cl ! k = (level, msg))"
    and "slot_in (ps t) = Some i \<Longrightarrow> slot_in (ps u) = Some i \<Longrightarrow> t = u"
    and "lo \<le> k \<Longrightarrow> k < length cl \<Longrightarrow>
      valid (r ! (k mod RING_CAPACITY)) \<and> snd (format_entry (r ! (k mod RING_CAPACITY))) = text_of (cl ! k) \<or>
      (\<exists>t. slot_in (ps t) = Some (k mod RING_CAPACITY))"
    and "i < RING_CAPACITY \<Longrightarrow> valid (r ! i) \<Longrightarrow> \<exists>k. lo \<le> k \<and> k < length cl \<and> i = k mod RING_CAPACITY"
  subgoal using assms by (simp add: cells_ok_def)
  subgoal using assms by (simp add: cells_ok_def)
  subgoal using assms by (simp add: cells_ok_def)
  subgoal using assms by (simp add: cells_ok_def list_all_length)
  subgoal using assms by (simp add: cells_ok_def)
  subgoal using assms unfolding cells_ok_def by blast
  subgoal using assms by (simp add: cells_ok_def)
  subgoal using assms by (simp add: cells_ok_def)
  done

lemma cells_okI:
  assumes "lo \<le> length cl" and "length cl \<le> lo + RING_CAPACITY" and "length r = RING_CAPACITY"
    and "\<And>i. i < RING_CAPACITY \<Longrightarrow> length (message (r ! i)) = 256"
    and "\<And>t level msg i st. ps t = Busy level msg i st \<Longrightarrow> \<not> valid (r ! i) \<and> written st level msg (r ! i) \<and>
      (\<exists>k. lo \<le> k \<and> k < length cl \<and> i = k mod RING_CAPACITY \<and> cl ! k = (level, msg))"
    and "\<And>t u i. slot_in (ps t) = Some i \<Longrightarrow> slot_in (ps u) = Some i \<Longrightarrow> t = u"
    and "\<And>k. lo \<le> k \<Longrightarrow> k < length cl \<Longrightarrow>
      valid (r ! (k mod RING_CAPACITY)) \<and> snd (format_entry (r ! (k mod RING_CAPACITY))) = text_of (cl ! k) \<or>
      (\<exists>t. slot_in (ps t) = Some (k mod RING_CAPACITY))"
    and "\<And>i. i < RING_CAPACITY \<Longrightarrow> valid (r ! i) \<Longrightarrow> \<exists>k. lo \<le> k \<and> k < length cl \<and> i = k mod RING_CAPACITY"
  shows "cells_ok lo cl r ps"
  using assms unfolding cells_ok_def list_all_length by presburger

lemma slot_in_Some: "slot_in p = Some i \<longleftrightarrow> (\<exists>level msg st. p = Busy level msg i st)"
  by (cases p) auto

text \<open>A slot some call is writing: inside the ring and not valid.\<close>

lemma cells_busy:
  assumes "cells_ok lo cl r ps" and "slot_in (ps t) = Some i"
  shows "\<not> valid (r ! i)" and "i < RING_CAPACITY" and "\<exists>k. lo \<le> k \<and> k < length cl \<and> i = k mod RING_CAPACITY"
proof -
  from assms(2) obtain level msg st where "ps t = Busy level msg i st" by (auto simp: slot_in_Some)
  from cells_okD(5) [OF assms(1) this]
  show "\<not> valid (r ! i)" "i < RING_CAPACITY" "\<exists>k. lo \<le> k \<and> k < length cl \<and> i = k mod RING_CAPACITY" by auto
qed

lemma cells_claim:
  assumes "cells_ok lo cl r ps" and "ps t = Free" and "length cl < lo + RING_CAPACITY"
  shows "cells_ok lo (cl @ [(level, msg)]) r (ps(t := Busy level msg (length cl mod RING_CAPACITY) Check))"
proof -
  note c = cells_okD [OF assms(1)]
  let ?i = "length cl mod RING_CAPACITY" and ?cl = "cl @ [(level, msg)]"
  let ?ps = "ps(t := Busy level msg ?i Check)"
  have new: "k mod RING_CAPACITY \<noteq> ?i" if "lo \<le> k" "k < length cl" for k
    using window_inj [of lo k "length cl"] that assms(3) c(1,2) by auto
  have old: "lo \<le> k \<Longrightarrow> k < length cl \<Longrightarrow> k < length ?cl \<and> ?cl ! k = cl ! k" for k by (simp add: nth_append)
  have empty: "\<not> valid (r ! ?i)" using c(8) [of ?i] new by fastforce
  have free: "slot_in (ps u) \<noteq> Some ?i" for u using cells_busy(3) [OF assms(1), of u ?i] new by fastforce
  show ?thesis
  proof (rule cells_okI)
    fix u lv m i st assume u: "?ps u = Busy lv m i st"
    show "\<not> valid (r ! i) \<and> written st lv m (r ! i) \<and>
        (\<exists>k. lo \<le> k \<and> k < length ?cl \<and> i = k mod RING_CAPACITY \<and> ?cl ! k = (lv, m))"
    proof (cases "u = t")
      case True
      with u empty c(1) show ?thesis by (auto intro!: exI [of _ "length cl"])
    next
      case False
      with u c(5) [of u lv m i st] old show ?thesis by (metis fun_upd_other)
    qed
  next
    fix u v i assume "slot_in (?ps u) = Some i" "slot_in (?ps v) = Some i"
    with free c(6) [of u i v] show "u = v" by (auto split: if_splits)
  next
    fix k assume k: "lo \<le> k" "k < length ?cl"
    show "valid (r ! (k mod RING_CAPACITY)) \<and> snd (format_entry (r ! (k mod RING_CAPACITY))) = text_of (?cl ! k) \<or>
        (\<exists>u. slot_in (?ps u) = Some (k mod RING_CAPACITY))"
    proof (cases "k = length cl")
      case False
      with k have k': "k < length cl" by simp
      from c(7) [OF k(1) k'] show ?thesis
      proof
        assume "\<exists>u. slot_in (ps u) = Some (k mod RING_CAPACITY)"
        then obtain u where u: "slot_in (ps u) = Some (k mod RING_CAPACITY)" ..
        with assms(2) have "u \<noteq> t" by auto
        with u show ?thesis by (intro disjI2 exI [of _ u]) simp
      qed (use old [OF k(1) k'] in simp)
    qed (auto intro!: exI [of _ t])
  next
    fix i assume "i < RING_CAPACITY" "valid (r ! i)"
    with c(8) old show "\<exists>k. lo \<le> k \<and> k < length ?cl \<and> i = k mod RING_CAPACITY" by blast
  qed (use c assms(3) in auto)
qed

text \<open>A call writes its own slot only.\<close>

lemma cells_write:
  assumes "cells_ok lo cl r ps" and t: "ps t = Busy level msg i st" and e: "length (message e) = 256" "\<not> valid e"
    and w: "written st' level msg e"
  shows "cells_ok lo cl (r[i := e]) (ps(t := Busy level msg i st'))"
proof -
  note c = cells_okD [OF assms(1)]
  let ?ps = "ps(t := Busy level msg i st')"
  have i: "i < RING_CAPACITY" and slot: "slot_in (ps t) = Some i" using cells_busy(2) [OF assms(1), of t] t by auto
  have slots: "slot_in (?ps u) = slot_in (ps u)" for u using t by simp
  have other: "j \<noteq> i" if "ps u = Busy lv m j st2" "u \<noteq> t" for u lv m j st2
    using c(6) [of u i t] slot that by auto
  show ?thesis
  proof (rule cells_okI)
    fix u lv m j st2 assume u: "?ps u = Busy lv m j st2"
    show "\<not> valid (r[i := e] ! j) \<and> written st2 lv m (r[i := e] ! j) \<and>
        (\<exists>k. lo \<le> k \<and> k < length cl \<and> j = k mod RING_CAPACITY \<and> cl ! k = (lv, m))"
      using u c(3) i e w c(5) [OF t] c(5) [of u lv m j st2] other [of u lv m j st2] by (cases "u = t") auto
  next
    fix k assume k: "lo \<le> k" "k < length cl"
    have "k mod RING_CAPACITY = i \<Longrightarrow> slot_in (?ps t) = Some (k mod RING_CAPACITY)" by simp
    with c(7) [OF k] show "valid (r[i := e] ! (k mod RING_CAPACITY)) \<and>
        snd (format_entry (r[i := e] ! (k mod RING_CAPACITY))) = text_of (cl ! k) \<or>
        (\<exists>u. slot_in (?ps u) = Some (k mod RING_CAPACITY))"
      unfolding slots by (cases "k mod RING_CAPACITY = i") auto
  next
    fix j assume "j < RING_CAPACITY" "valid (r[i := e] ! j)"
    with c(8) [of j] c(3) e(2) show "\<exists>k. lo \<le> k \<and> k < length cl \<and> j = k mod RING_CAPACITY" by (cases "j = i") auto
  next
    fix u v j assume "slot_in (?ps u) = Some j" "slot_in (?ps v) = Some j"
    then show "u = v" using c(6) [of u j v] unfolding slots by blast
  qed (use c(1-4) e i in \<open>auto simp: nth_list_update\<close>)
qed

lemma cells_publish:
  assumes "cells_ok lo cl r ps" and t: "ps t = Busy level msg i Publish"
  shows "cells_ok lo cl (r[i := (r ! i)\<lparr> valid := True \<rparr>]) (ps(t := Free))"
proof -
  note c = cells_okD [OF assms(1)]
  let ?r = "r[i := (r ! i)\<lparr> valid := True \<rparr>]" and ?ps = "ps(t := Free)"
  have i: "i < RING_CAPACITY" and slot: "slot_in (ps t) = Some i" using cells_busy(2) [OF assms(1), of t] t by auto
  obtain k0 where k0: "lo \<le> k0" "k0 < length cl" "i = k0 mod RING_CAPACITY" "cl ! k0 = (level, msg)"
    and w: "written Publish level msg (r ! i)" using c(5) [OF t] by blast
  show ?thesis
  proof (rule cells_okI)
    fix u lv m j st assume u: "?ps u = Busy lv m j st"
    then have "ps u = Busy lv m j st" "j \<noteq> i" using c(6) [of u i t] slot by (auto split: if_splits)
    with c(5) show "\<not> valid (?r ! j) \<and> written st lv m (?r ! j) \<and>
        (\<exists>k. lo \<le> k \<and> k < length cl \<and> j = k mod RING_CAPACITY \<and> cl ! k = (lv, m))" by (metis nth_list_update_neq)
  next
    fix u v j assume "slot_in (?ps u) = Some j" "slot_in (?ps v) = Some j"
    with c(6) [of u j v] show "u = v" by (auto split: if_splits)
  next
    fix k assume k: "lo \<le> k" "k < length cl"
    show "valid (?r ! (k mod RING_CAPACITY)) \<and> snd (format_entry (?r ! (k mod RING_CAPACITY))) = text_of (cl ! k) \<or>
        (\<exists>u. slot_in (?ps u) = Some (k mod RING_CAPACITY))"
    proof (cases "k mod RING_CAPACITY = i")
      case True
      then have "k = k0" using window_inj [of lo k k0] k k0 c(2) by simp
      with True k0 w i c(3) show ?thesis by (simp add: format_entry_def text_of_def)
    next
      case False
      then have "slot_in (ps u) = Some (k mod RING_CAPACITY) \<Longrightarrow> slot_in (?ps u) = Some (k mod RING_CAPACITY)" for u
        using slot by auto
      with c(7) [OF k] False show ?thesis by (metis nth_list_update_neq)
    qed
  next
    fix j assume "j < RING_CAPACITY" "valid (?r ! j)"
    with c(8) [of j] k0 show "\<exists>k. lo \<le> k \<and> k < length cl \<and> j = k mod RING_CAPACITY" by (cases "j = i") auto
  qed (use c(1-4) i in \<open>auto simp: nth_list_update\<close>)
qed

lemma cells_front:
  assumes "cells_ok lo cl r ps" and "valid (r ! (lo mod RING_CAPACITY))"
  shows "lo < length cl" and "snd (format_entry (r ! (lo mod RING_CAPACITY))) = text_of (cl ! lo)"
proof -
  note c = cells_okD [OF assms(1)]
  obtain k where k: "lo \<le> k" "k < length cl" "lo mod RING_CAPACITY = k mod RING_CAPACITY" using c(8) [OF _ assms(2)] by auto
  then have "lo = k" using window_inj [of lo lo k] c(2) by simp
  with k show lo: "lo < length cl" by simp
  from c(7) [OF order_refl lo] assms(2) cells_busy(1) [OF assms(1)]
  show "snd (format_entry (r ! (lo mod RING_CAPACITY))) = text_of (cl ! lo)" by blast
qed

lemma cells_release:
  assumes "cells_ok lo cl r ps" and "valid (r ! (lo mod RING_CAPACITY))"
  shows "cells_ok (Suc lo) cl (r[lo mod RING_CAPACITY := (r ! (lo mod RING_CAPACITY))\<lparr> valid := False \<rparr>]) ps"
proof -
  note c = cells_okD [OF assms(1)]
  let ?i = "lo mod RING_CAPACITY"
  let ?r = "r[?i := (r ! ?i)\<lparr> valid := False \<rparr>]"
  have later: "Suc lo \<le> k \<Longrightarrow> k < length cl \<Longrightarrow> k mod RING_CAPACITY \<noteq> ?i" for k
    using window_inj [of lo lo k] c(2) by auto
  have other: "j \<noteq> ?i" if "slot_in (ps u) = Some j" for u j using cells_busy(1) [OF assms(1) that] assms(2) by blast
  have step: "lo \<le> k \<Longrightarrow> k mod RING_CAPACITY \<noteq> ?i \<Longrightarrow> Suc lo \<le> k" for k by (cases "k = lo") auto
  show ?thesis
  proof (rule cells_okI)
    fix u lv m j st assume u: "ps u = Busy lv m j st"
    with other [of u j] c(5) [OF u] step
    show "\<not> valid (?r ! j) \<and> written st lv m (?r ! j) \<and>
        (\<exists>k. Suc lo \<le> k \<and> k < length cl \<and> j = k mod RING_CAPACITY \<and> cl ! k = (lv, m))" by auto
  next
    fix k assume "Suc lo \<le> k" "k < length cl"
    with later [of k] c(7) [of k]
    show "valid (?r ! (k mod RING_CAPACITY)) \<and> snd (format_entry (?r ! (k mod RING_CAPACITY))) = text_of (cl ! k) \<or>
        (\<exists>u. slot_in (ps u) = Some (k mod RING_CAPACITY))" by (simp add: Suc_le_eq)
  next
    fix j assume j: "j < RING_CAPACITY" "valid (?r ! j)"
    then have "j \<noteq> ?i" using c(3) by auto
    with j c(8) [of j] step show "\<exists>k. Suc lo \<le> k \<and> k < length cl \<and> j = k mod RING_CAPACITY" by auto
  next
    fix u v j assume "slot_in (ps u) = Some j" "slot_in (ps v) = Some j"
    then show "u = v" by (rule c(6))
  qed (use c(2-4) cells_front(1) [OF assms] in \<open>auto simp: nth_list_update\<close>)
qed

section \<open>The invariant\<close>

lemma logger_inv_start: "logger_inv logger_sys0"
  by (auto simp: logger_inv_def logger_sys0_def start_logger_def new_logger_def blank_entry_def released_def taken_def
      intro!: cells_okI)

lemma inv_room:
  assumes "logger_inv s"
  shows "has_room (core s) \<longleftrightarrow> length (claimed s) < taken s + RING_CAPACITY"
proof -
  have le: "taken s \<le> length (claimed s)" "length (claimed s) \<le> taken s + RING_CAPACITY"
    using assms by (auto simp: logger_inv_def taken_def released_def)
  then have "head (core s) - tail (core s) = of_nat (length (claimed s) - taken s)"
    using assms by (simp add: logger_inv_def of_nat_diff)
  moreover have "unat (of_nat n :: u64) = n" if "n \<le> RING_CAPACITY" for n
    using that by (simp add: unat_of_nat RING_CAPACITY_def)
  from this [of "length (claimed s) - taken s"]
  have "unat (of_nat (length (claimed s) - taken s) :: u64) = length (claimed s) - taken s" using le by linarith
  ultimately show ?thesis using le by (auto simp: has_room_def)
qed

lemma claim_inv:
  assumes "logger_inv s" and "has_room (core s)" and "producers s t = Free"
  shows "logger_inv (log_claim t level msg s)"
proof -
  let ?s = "log_claim t level msg s"
  have room: "length (claimed s) < taken s + RING_CAPACITY" using assms(1,2) inv_room by blast
  have same: "released ?s = released s" "taken ?s = taken s" by (simp_all add: released_def taken_def log_claim_def)
  have slot: "slot_of (head (core s)) = length (claimed s) mod RING_CAPACITY"
    using assms(1) by (simp add: logger_inv_def slot_of_nat)
  have "length (claimed s) < released s + RING_CAPACITY" using room by (simp add: taken_def)
  with assms(1,3) have "cells_ok (released s) (claimed ?s) (ring (core ?s)) (producers ?s)"
    using cells_claim [of "released s" "claimed s" "ring (core s)" "producers s" t level msg]
    by (simp add: logger_inv_def log_claim_def slot)
  with assms(1) room show ?thesis unfolding logger_inv_def same by (auto simp: log_claim_def)
qed

text \<open>The parts of the invariant a write to the slot of a call can touch.\<close>

lemma inv_write:
  assumes "logger_inv s" and "cells_ok (released s) (claimed s) r ps"
    and "\<not> valid (ring (core s) ! i)" and "\<forall>j. j \<noteq> i \<longrightarrow> r ! j = ring (core s) ! j" and "list_all snd as"
    and "valid (ring (core s) ! (taken s mod RING_CAPACITY)) \<or> reading (consumer s) (r ! (taken s mod RING_CAPACITY))"
  shows "logger_inv (s\<lparr> core := (core s)\<lparr> ring := r \<rparr>, producers := ps, answers := as \<rparr>)"
proof -
  have "reading (consumer s) (r ! (taken s mod RING_CAPACITY))"
  proof (cases "taken s mod RING_CAPACITY = i")
    case False
    with assms(1,4) show ?thesis by (simp add: logger_inv_def)
  qed (use assms(3,6) in blast)
  with assms show ?thesis by (simp add: logger_inv_def released_def taken_def)
qed

lemma reading_not_valid: "\<not> valid e \<Longrightarrow> reading c e \<Longrightarrow> reading c e'"
  by (cases c) auto

lemma work_inv:
  assumes "logger_inv s" and "log_step t now s = Some s'"
  shows "logger_inv s'"
proof -
  let ?l = "core s" and ?r = "ring (core s)"
  from assms(2) obtain level msg i st where t: "producers s t = Busy level msg i st"
    by (cases "producers s t") (auto simp: log_step_def)
  have cells: "cells_ok (released s) (claimed s) ?r (producers s)" and as: "list_all snd (answers s)"
    using assms(1) by (simp_all add: logger_inv_def)
  note b = cells_okD(5) [OF cells t]
  have i: "i < RING_CAPACITY" using cells_busy(2) [OF cells, of t i] t by simp
  have len: "length (message (?r ! i)) = 256" using cells_okD(4) [OF cells i] .
  have read: "valid (?r ! (taken s mod RING_CAPACITY)) \<or> reading (consumer s) e" for e
    using assms(1) reading_not_valid by (auto simp: logger_inv_def)
  have step: "logger_inv (advance_to t (Busy level msg i st') (store i f ?l) s)"
    if "length (message (f (?r ! i))) = 256" "\<not> valid (f (?r ! i))" "written st' level msg (f (?r ! i))" for f st'
    using inv_write [OF assms(1) cells_write [OF cells t that] _ _ as read, of i] b
    by (simp add: advance_to_def store_def)
  show ?thesis
  proof (cases st)
    case Check
    have "s' = advance_to t (Busy level msg i PutLevel) (store i id ?l) s"
      using assms(2) t Check b by (simp add: log_step_def Let_def store_def)
    with step [of id PutLevel] len b show ?thesis by simp
  next
    case PutLevel
    with assms(2) t step [of "entry_level_update (\<lambda>_. level)" PutTime] len b show ?thesis by (simp add: log_step_def Let_def)
  next
    case PutTime
    with assms(2) t step [of "timestamp_us_update (\<lambda>_. ns_to_us now)" CopyText] len b
    show ?thesis by (simp add: log_step_def Let_def)
  next
    case CopyText
    with assms(2) t step [of "copy_text msg" Terminate] len b copied show ?thesis by (simp add: log_step_def Let_def)
  next
    case Terminate
    with assms(2) t step [of "terminate_text msg" Publish] len b terminated show ?thesis by (simp add: log_step_def Let_def)
  next
    case Publish
    have "list_all snd (answers s @ [(t, True)])" using as by simp
    from inv_write [OF assms(1) cells_publish [OF cells] _ _ this read, of t level msg i i] assms(2) t Publish b
    show ?thesis by (simp add: log_step_def Let_def answer_def store_def)
  qed
qed

text \<open>The consumer at the front of the window.\<close>

lemma inv_front:
  assumes "logger_inv s" and "consumer s \<noteq> Advance"
  shows "slot_of (tail (core s)) = released s mod RING_CAPACITY" and "taken s = released s"
    and "cells_ok (released s) (claimed s) (ring (core s)) (producers s)"
  using assms by (simp_all add: logger_inv_def taken_def)

text \<open>A move of the consumer that touches neither the ring nor the output.\<close>

lemma inv_move:
  assumes "logger_inv s" and "consumer s \<notin> {Release, Advance}" and "c \<notin> {Release, Advance}"
    and "reading c (ring (core s) ! (taken s mod RING_CAPACITY))"
  shows "logger_inv (s\<lparr> consumer := c \<rparr>)"
proof -
  have "released (s\<lparr> consumer := c \<rparr>) = released s" "taken (s\<lparr> consumer := c \<rparr>) = taken s"
    using assms(2,3) by (simp_all add: released_def taken_def)
  with assms show ?thesis by (simp add: logger_inv_def)
qed

lemma print_inv:
  assumes "logger_inv s" and "consumer s = PrintText ts lv"
  shows "logger_inv (s\<lparr> consumer := Release,
    printed := printed s @ [(ts, lv, c_string (message (ring (core s) ! slot_of (tail (core s)))))] \<rparr>)" (is "logger_inv ?s")
proof -
  let ?e = "ring (core s) ! (length (printed s) mod RING_CAPACITY)"
  have n: "released s = length (printed s)" "taken s = length (printed s)"
    using assms(2) by (simp_all add: released_def taken_def)
  have slot: "slot_of (tail (core s)) = length (printed s) mod RING_CAPACITY"
    using inv_front(1) [OF assms(1)] assms(2) n by simp
  have cells: "cells_ok (length (printed s)) (claimed s) (ring (core s)) (producers s)"
    and e: "valid ?e" "lv = level_str (entry_level ?e)"
    using assms by (simp_all add: logger_inv_def n)
  note f = cells_front [OF cells e(1)]
  have "(lv, c_string (message ?e)) = text_of (claimed s ! length (printed s))"
    using f(2) e(2) by (simp add: format_entry_def)
  moreover have "released ?s = length (printed s)" "taken ?s = length (printed s)" by (simp_all add: released_def taken_def)
  ultimately show ?thesis
    using assms(1) f(1) e(1) n by (simp add: logger_inv_def slot take_Suc_conv_app_nth)
qed

lemma release_inv:
  assumes "logger_inv s" and "consumer s = Release"
  shows "logger_inv (s\<lparr> consumer := Advance, core := store (slot_of (tail (core s))) (valid_update (\<lambda>_. False)) (core s) \<rparr>)"
    (is "logger_inv ?s")
proof -
  have p: "printed s \<noteq> []" using assms by (simp add: logger_inv_def)
  then have n: "released ?s = Suc (released s)" "taken ?s = released s"
    using assms(2) by (simp_all add: released_def taken_def)
  note fr = inv_front [OF assms(1)]
  have v: "valid (ring (core s) ! (released s mod RING_CAPACITY))"
    using assms fr(2) by (simp add: logger_inv_def)
  from cells_release [OF fr(3) v] assms p n fr show ?thesis
    by (simp add: logger_inv_def store_def)
qed

lemma advance_inv:
  assumes "logger_inv s" and "consumer s = Advance"
  shows "logger_inv (s\<lparr> consumer := TestRunning, core := (core s)\<lparr> tail := tail (core s) + 1 \<rparr> \<rparr>)" (is "logger_inv ?s")
proof -
  have p: "printed s \<noteq> []" using assms by (simp add: logger_inv_def)
  have n: "released ?s = released s" "taken ?s = Suc (taken s)"
    using assms(2) p by (simp_all add: released_def taken_def)
  from assms p n show ?thesis by (auto simp: logger_inv_def)
qed

lemma consumer_inv:
  assumes "logger_inv s" and "consumer_step s = Some s'"
  shows "logger_inv s'"
proof -
  let ?e = "ring (core s) ! (taken s mod RING_CAPACITY)"
  have tail: "slot_of (tail (core s)) = taken s mod RING_CAPACITY" using assms(1) by (simp add: logger_inv_def)
  have read: "reading (consumer s) ?e" using assms(1) by (simp add: logger_inv_def)
  show ?thesis
  proof (cases "consumer s")
    case (PrintText ts lv)
    with print_inv [OF assms(1) PrintText] assms(2) show ?thesis by (simp add: consumer_step_def Let_def)
  next
    case Release
    with release_inv [OF assms(1) Release] assms(2) show ?thesis by (simp add: consumer_step_def Let_def)
  next
    case Advance
    with advance_inv [OF assms(1) Advance] assms(2) show ?thesis by (simp add: consumer_step_def Let_def)
  qed (use assms(2) read inv_move [OF assms(1)] in \<open>auto simp: consumer_step_def Let_def tail\<close>)
qed

lemma stop_inv: "logger_inv s \<Longrightarrow> logger_inv (s\<lparr> core := (core s)\<lparr> logger_running := b \<rparr> \<rparr>)"
  by (simp add: logger_inv_def released_def taken_def)

lemma roomy_act_inv:
  assumes "logger_inv s" and "roomy_act e s = Some s'"
  shows "logger_inv s'"
proof (cases e)
  case (Call t level msg)
  with assms claim_inv [OF assms(1), of t level msg] show ?thesis by (simp split: if_splits)
next
  case (Work t now)
  with assms work_inv [OF assms(1), of t now s'] show ?thesis by simp
next
  case Consumer
  with assms consumer_inv [OF assms(1), of s'] show ?thesis by simp
next
  case Stop
  with assms stop_inv [OF assms(1), of False] show ?thesis by (simp split: if_splits)
qed

interpretation logger_threads: event_machine roomy_act "\<lambda>s. s = logger_sys0" logger_inv
  by unfold_locales (auto simp: logger_inv_start roomy_act_inv)

section \<open>Runs\<close>

text \<open>The messages of a schedule in the order of their \<open>fetch_add\<close>.\<close>

fun calls :: "logger_event list \<Rightarrow> (LogLevel \<times> string) list" where
  "calls [] = []"
| "calls (Call t level msg # es) = (level, msg) # calls es"
| "calls (e # es) = calls es"

lemmas logger_step_defs = log_step_def consumer_step_def log_claim_def advance_to_def answer_def store_def Let_def

lemma log_step_keeps:
  assumes "log_step t now s = Some s'"
  shows "claimed s' = claimed s" and "logger_running (core s') = logger_running (core s)" and "consumer s' = consumer s"
  using assms by (auto simp: logger_step_defs split: producer.splits stage.splits if_splits)

lemma consumer_step_keeps:
  assumes "consumer_step s = Some s'"
  shows "claimed s' = claimed s" and "logger_running (core s') = logger_running (core s)" and "producers s' = producers s"
  using assms by (auto simp: logger_step_defs split: consumer.splits)

lemma roomy_acts: "roomy_act e s = Some s' \<Longrightarrow> logger_act e s = Some s'"
  by (cases e) (auto split: if_splits)

lemma run_roomy: "run_events roomy_act es s = Some s' \<Longrightarrow> run_events logger_act es s = Some s'"
proof (induction es arbitrary: s)
  case (Cons e es)
  then obtain x where "roomy_act e s = Some x" "run_events roomy_act es x = Some s'" by (auto split: option.splits)
  with Cons.IH roomy_acts show ?case by simp
qed simp

lemma act_claims: "logger_act e s = Some s' \<Longrightarrow> claimed s' = claimed s @ calls [e]"
  by (cases e) (auto simp: log_claim_def log_step_keeps consumer_step_keeps split: if_splits)

lemma calls_Cons: "calls (e # es) = calls [e] @ calls es"
  by (cases e) simp_all

lemma run_claims: "run_events logger_act es s = Some s' \<Longrightarrow> claimed s' = claimed s @ calls es"
proof (induction es arbitrary: s)
  case (Cons e es)
  then obtain x where "logger_act e s = Some x" "run_events logger_act es x = Some s'" by (auto split: option.splits)
  with Cons.IH [of x] act_claims [of e s x] show ?case by (simp add: calls_Cons [of e es])
qed simp

text \<open>A run with at most as many calls as slots never lacks room.\<close>

lemma few_calls_roomy:
  "logger_inv s \<Longrightarrow> run_events logger_act es s = Some s' \<Longrightarrow> length (claimed s) + length (calls es) \<le> RING_CAPACITY \<Longrightarrow>
     run_events roomy_act es s = Some s'"
proof (induction es arbitrary: s)
  case (Cons e es)
  then obtain x where x: "logger_act e s = Some x" "run_events logger_act es x = Some s'" by (auto split: option.splits)
  have "has_room (core s)" if "e = Call t level msg" for t level msg
    using inv_room [OF Cons.prems(1)] Cons.prems(3) that by simp
  with x(1) have r: "roomy_act e s = Some x" by (cases e) simp_all
  moreover have "run_events roomy_act es x = Some s'"
    using Cons.IH [OF roomy_act_inv [OF Cons.prems(1) r] x(2)] act_claims [OF x(1)] Cons.prems(3)
    by (simp add: calls_Cons [of e es])
  ultimately show ?case by simp
qed simp

text \<open>Until \<open>stop\<close> the consumer is in its loop.\<close>

fun looping :: "consumer \<Rightarrow> bool" where
  "looping (Scan j) = False"
| "looping Stopped = False"
| "looping c = True"

lemma looping_act:
  assumes "logger_running (core s) \<longrightarrow> looping (consumer s)" and "logger_act e s = Some s'"
  shows "logger_running (core s') \<longrightarrow> looping (consumer s')"
proof (cases e)
  case Consumer
  with assms show ?thesis by (auto simp: logger_step_defs split: consumer.splits)
next
  case (Work t now)
  with assms log_step_keeps [of t now s s'] show ?thesis by simp
qed (use assms in \<open>auto simp: log_claim_def split: if_splits\<close>)

interpretation logger_phase: event_machine logger_act "\<lambda>s. s = logger_sys0" "\<lambda>s. logger_running (core s) \<longrightarrow> looping (consumer s)"
  by unfold_locales (simp add: logger_sys0_def, rule looping_act)

section \<open>The consumer alone\<close>

definition alone :: "logger_sys \<Rightarrow> logger_sys \<Rightarrow> bool" where
  "alone s s' \<longleftrightarrow> (\<exists>n. run_events logger_act (replicate n Consumer) s = Some s')"

lemma alone_refl [simp]: "alone s s"
  unfolding alone_def by (intro exI [of _ 0]) simp

lemma alone_step: "consumer_step s = Some s' \<Longrightarrow> alone s' s'' \<Longrightarrow> alone s s''"
  unfolding alone_def by (metis logger_act.simps(3) option.simps(5) replicate_Suc run_events.simps(2))

lemma alone_trans: "alone s s' \<Longrightarrow> alone s' s'' \<Longrightarrow> alone s s''"
  unfolding alone_def by (metis (no_types) option.simps(5) replicate_add run_append)

lemma alone_keeps:
  assumes "alone s s'"
  shows "logger_inv s \<longrightarrow> logger_inv s'" and "claimed s' = claimed s" and "producers s' = producers s"
    and "logger_running (core s') = logger_running (core s)"
proof -
  have "(logger_inv s \<longrightarrow> logger_inv s') \<and> claimed s' = claimed s \<and> producers s' = producers s \<and>
      logger_running (core s') = logger_running (core s)" if "run_events logger_act (replicate n Consumer) s = Some s'" for n s
    using that
  proof (induction n arbitrary: s)
    case (Suc n)
    then obtain x where "consumer_step s = Some x" "run_events logger_act (replicate n Consumer) x = Some s'"
      by (auto split: option.splits)
    with Suc.IH [of x] consumer_step_keeps [of s x] consumer_inv [of s x] show ?case by simp
  qed simp
  with assms show "logger_inv s \<longrightarrow> logger_inv s'" "claimed s' = claimed s" "producers s' = producers s"
    "logger_running (core s') = logger_running (core s)" unfolding alone_def by blast+
qed

text \<open>One iteration of the loop is the atomic one of \<open>Async_Logger\<close>.\<close>

lemma consumer_iteration:
  assumes "consumer s = TestValid"
  shows "alone s (s\<lparr> consumer := TestRunning, core := snd (consume_one (core s)),
    printed := printed s @ (case fst (consume_one (core s)) of None \<Rightarrow> [] | Some x \<Rightarrow> [x]) \<rparr>)" (is "alone s ?s")
proof (cases "valid (ring (core s) ! slot_of (tail (core s)))")
  case False
  then have "consumer_step s = Some ?s" using assms by (simp add: logger_step_defs consume_one_def)
  then show ?thesis by (rule alone_step) simp
next
  case True
  have six: "run_events logger_act (replicate 6 Consumer) s = Some ?s"
    using assms True by (simp add: numeral_eq_Suc logger_step_defs consume_one_def format_entry_def)
  then show ?thesis unfolding alone_def by blast
qed

text \<open>From inside an iteration it comes back to the loop condition: the steps that are left are counted.\<close>

fun steps_left :: "consumer \<Rightarrow> nat" where
  "steps_left TestValid = 6"
| "steps_left PrintTime = 5"
| "steps_left (PrintLevel ts) = 4"
| "steps_left (PrintText ts lv) = 3"
| "steps_left Release = 2"
| "steps_left Advance = 1"
| "steps_left c = 0"

lemma looping_step:
  assumes "looping (consumer s)" and "consumer s \<noteq> TestRunning"
  shows "\<exists>s'. consumer_step s = Some s' \<and> looping (consumer s') \<and> steps_left (consumer s') < steps_left (consumer s)"
  using assms by (cases "consumer s") (simp_all add: logger_step_defs)

lemma consumer_finishes: "looping (consumer s) \<Longrightarrow> \<exists>s'. alone s s' \<and> consumer s' = TestRunning"
proof (induction "steps_left (consumer s)" arbitrary: s rule: less_induct)
  case less
  show ?case
  proof (cases "consumer s = TestRunning")
    case False
    with looping_step less obtain x where "consumer_step s = Some x" "\<exists>s'. alone x s' \<and> consumer s' = TestRunning" by blast
    with alone_step show ?thesis by blast
  qed (use alone_refl in blast)
qed

lemma scan_hits:
  assumes "consumer s = Scan j" and "j \<le> i" and "i < RING_CAPACITY" and "valid (ring (core s) ! i)"
  shows "alone s (s\<lparr> consumer := TestValid \<rparr>)"
  using assms
proof (induction "i - j" arbitrary: s j)
  case 0
  then show ?case by (intro alone_step [OF _ alone_refl]) (simp add: logger_step_defs)
next
  case (Suc d)
  show ?case
  proof (cases "valid (ring (core s) ! j)")
    case True
    with Suc.prems Suc.hyps show ?thesis by (intro alone_step [OF _ alone_refl]) (simp add: logger_step_defs)
  next
    case False
    let ?s = "s\<lparr> consumer := Scan (Suc j) \<rparr>"
    have "consumer_step s = Some ?s" using False Suc.prems by (simp add: logger_step_defs)
    moreover have "alone ?s (?s\<lparr> consumer := TestValid \<rparr>)"
      using Suc.hyps(2) Suc.prems by (intro Suc.hyps(1) [of "Suc j"]) auto
    ultimately show ?thesis using alone_step by fastforce
  qed
qed

lemma scan_misses:
  assumes "consumer s = Scan j" and "j \<le> RING_CAPACITY" and "\<forall>i < RING_CAPACITY. \<not> valid (ring (core s) ! i)"
  shows "alone s (s\<lparr> consumer := Stopped \<rparr>)"
  using assms
proof (induction "RING_CAPACITY - j" arbitrary: s j)
  case 0
  then show ?case by (intro alone_step [OF _ alone_refl]) (simp add: logger_step_defs)
next
  case (Suc d)
  let ?s = "s\<lparr> consumer := Scan (Suc j) \<rparr>"
  have "consumer_step s = Some ?s" using Suc by (simp add: logger_step_defs)
  moreover have "alone ?s (?s\<lparr> consumer := Stopped \<rparr>)"
    using Suc.hyps(2) Suc.prems by (intro Suc.hyps(1) [of "Suc j"]) auto
  ultimately show ?case using alone_step by fastforce
qed

text \<open>After \<open>stop\<close>, with no call under way, everything claimed is printed and the consumer ends.\<close>

lemma idle_cells:
  assumes "cells_ok lo cl r ps" and "\<forall>t. ps t = Free"
  shows "lo < length cl \<Longrightarrow> valid (r ! (lo mod RING_CAPACITY))"
    and "lo = length cl \<Longrightarrow> \<forall>i < RING_CAPACITY. \<not> valid (r ! i)"
  using cells_okD(7,8) [OF assms(1)] assms(2) by fastforce+

lemma drains:
  assumes "logger_inv s" and "consumer s = TestRunning" and "\<not> logger_running (core s)" and "\<forall>t. producers s t = Free"
  shows "\<exists>s'. alone s s' \<and> consumer s' = Stopped \<and> map snd (printed s') = map text_of (claimed s)"
  using assms
proof (induction "length (claimed s) - length (printed s)" arbitrary: s rule: less_induct)
  case less
  let ?n = "length (printed s)" and ?s = "s\<lparr> consumer := Scan 0 \<rparr>"
  have n: "released s = ?n" "?n \<le> length (claimed s)" using less.prems by (simp_all add: released_def logger_inv_def)
  have cells: "cells_ok ?n (claimed s) (ring (core s)) (producers s)" and tail: "slot_of (tail (core s)) = ?n mod RING_CAPACITY"
    using inv_front [OF less.prems(1)] less.prems(2) n by simp_all
  have scan: "alone s s'" if "alone ?s s'" for s'
    using that less.prems by (intro alone_step [of s ?s]) (simp_all add: logger_step_defs)
  show ?case
  proof (cases "?n = length (claimed s)")
    case True
    with idle_cells(2) [OF cells less.prems(4)] have "alone ?s (?s\<lparr> consumer := Stopped \<rparr>)" by (intro scan_misses) auto
    with scan have "alone s (s\<lparr> consumer := Stopped \<rparr>)" by simp
    moreover have "map snd (printed s) = map text_of (claimed s)" using less.prems(1) True by (simp add: logger_inv_def)
    ultimately show ?thesis by (intro exI [of _ "s\<lparr> consumer := Stopped \<rparr>"]) simp
  next
    case False
    with n have v: "valid (ring (core s) ! (?n mod RING_CAPACITY))" using idle_cells(1) [OF cells less.prems(4)] by simp
    let ?t = "?s\<lparr> consumer := TestValid \<rparr>"
    have "alone ?s ?t" using v by (intro scan_hits [of _ 0 "?n mod RING_CAPACITY"]) auto
    moreover obtain u where u: "alone ?t u" "consumer u = TestRunning" "length (printed u) = Suc ?n"
      using consumer_iteration [of ?t] v tail by (fastforce simp: consume_one_def Let_def)
    ultimately have su: "alone s u" using scan alone_trans by blast
    note k = alone_keeps [OF su]
    have "length (claimed u) - length (printed u) < length (claimed s) - ?n" using u(3) k(2) n False by simp
    with less.hyps [of u] k u(2) less.prems obtain s' where "alone u s'" "consumer s' = Stopped"
      "map snd (printed s') = map text_of (claimed s)" by auto
    with su alone_trans show ?thesis by blast
  qed
qed

lemma flushed:
  assumes "logger_inv s" and "logger_running (core s)" and "looping (consumer s)" and "\<forall>t. producers s t = Free"
  shows "\<exists>n s'. run_events logger_act (Stop # replicate n Consumer) s = Some s' \<and> consumer s' = Stopped \<and>
    map snd (printed s') = map text_of (claimed s)"
proof -
  let ?s = "s\<lparr> core := (core s)\<lparr> logger_running := False \<rparr> \<rparr>"
  obtain x where x: "alone ?s x" "consumer x = TestRunning" using consumer_finishes [of ?s] assms(3) by auto
  note k = alone_keeps [OF x(1)]
  obtain s' where "alone x s'" "consumer s' = Stopped" "map snd (printed s') = map text_of (claimed s)"
    using drains [of x] k x(2) stop_inv [OF assms(1)] assms(4) by auto
  moreover have "logger_act Stop s = Some ?s" using assms(2) by simp
  ultimately show ?thesis using alone_trans [OF x(1)] unfolding alone_def by force
qed

section \<open>A call alone\<close>

definition call_alone :: "nat \<Rightarrow> LogLevel \<Rightarrow> string \<Rightarrow> time_ns \<Rightarrow> nat \<Rightarrow> logger_event list" where
  "call_alone t level msg now n = Call t level msg # replicate n (Work t now)"

lemma update_drop: "n < length xs \<Longrightarrow> (drop n xs)[0 := c] = c # drop (Suc n) xs"
  by (simp add: Cons_nth_drop_Suc [symmetric])

lemma filled:
  assumes "length (message e) = 256"
  shows "(terminate_text msg (copy_text msg (e\<lparr> entry_level := level, timestamp_us := ns_to_us now \<rparr>)))\<lparr> valid := True \<rparr> =
    fill_entry level msg now e"
proof -
  have "length (take 255 msg) = copy_len msg" by (simp add: copy_len_def)
  then have "(take 255 msg @ drop (copy_len msg) (message e))[copy_len msg := CHR 0x00] =
      take 255 msg @ CHR 0x00 # drop (Suc (copy_len msg)) (message e)"
    using assms copy_len_bound(1) [of msg] update_drop [of "copy_len msg" "message e" "CHR 0x00"]
    by (simp add: list_update_append)
  then show ?thesis
    by (simp add: copy_text_def terminate_text_def fill_entry_def Let_def flip: copy_len_def)
qed

text \<open>Without interference a call is the atomic one of \<open>Async_Logger\<close>.\<close>

lemma call_refused:
  assumes "producers s t = Free" and "valid (ring (core s) ! slot_of (head (core s)))"
  shows "run_events logger_act (call_alone t level msg now 1) s =
    Some (s\<lparr> core := snd (log_entry level msg now (core s)), answers := answers s @ [(t, False)],
      claimed := claimed s @ [(level, msg)] \<rparr>)" and "\<not> fst (log_entry level msg now (core s))"
  using assms by (simp_all add: call_alone_def logger_step_defs log_entry_def fun_upd_idem)

lemma call_accepted:
  assumes "producers s t = Free" and "\<not> valid (ring (core s) ! slot_of (head (core s)))"
    and "length (message (ring (core s) ! slot_of (head (core s)))) = 256" and "length (ring (core s)) = RING_CAPACITY"
  shows "run_events logger_act (call_alone t level msg now 6) s =
    Some (s\<lparr> core := snd (log_entry level msg now (core s)), answers := answers s @ [(t, True)],
      claimed := claimed s @ [(level, msg)] \<rparr>)" and "fst (log_entry level msg now (core s))"
proof -
  have "slot_of (head (core s)) < length (ring (core s))" using assms(4) by (simp add: slot_of_def)
  with assms filled [OF assms(3)] show "run_events logger_act (call_alone t level msg now 6) s =
    Some (s\<lparr> core := snd (log_entry level msg now (core s)), answers := answers s @ [(t, True)],
      claimed := claimed s @ [(level, msg)] \<rparr>)"
    by (simp add: call_alone_def numeral_eq_Suc logger_step_defs log_entry_def fun_upd_idem)
  show "fst (log_entry level msg now (core s))" using assms(2) by (simp add: log_entry_def Let_def)
qed

text \<open>A slow producer: thread 0 has claimed slot 0 and seen it free; then thread 1 logs \<open>n\<close> messages.\<close>

definition slow_start :: logger_sys where
  "slow_start = advance_to 0 (Busy LINFO ''a'' 0 PutLevel) (core (log_claim 0 LINFO ''a'' logger_sys0)) (log_claim 0 LINFO ''a'' logger_sys0)"

definition overrun :: "nat \<Rightarrow> logger_sys \<Rightarrow> bool" where
  "overrun n s \<longleftrightarrow> producers s = (\<lambda>_. Free)(0 := Busy LINFO ''a'' 0 PutLevel) \<and> consumer s = TestRunning \<and> printed s = [] \<and>
     answers s = replicate n (1, True) \<and> claimed s = (LINFO, ''a'') # replicate n (LINFO, ''x'') \<and>
     head (core s) = of_nat (Suc n) \<and> tail (core s) = 0 \<and> logger_running (core s) \<and> dropped (core s) = 0 \<and>
     length (ring (core s)) = RING_CAPACITY \<and>
     (\<forall>j < RING_CAPACITY. j = 0 \<or> n < j \<longrightarrow> ring (core s) ! j = blank_entry)"

lemma overrun_start: "run_events logger_act [Call 0 LINFO ''a'', Work 0 0] logger_sys0 = Some slow_start" "overrun 0 slow_start"
  by (auto simp: overrun_def slow_start_def logger_sys0_def start_logger_def new_logger_def logger_step_defs slot_of_def blank_entry_def)

lemma overrun_step:
  assumes "overrun n s" and "Suc n < RING_CAPACITY"
  shows "\<exists>s'. run_events logger_act (call_alone 1 LINFO ''x'' 0 6) s = Some s' \<and> overrun (Suc n) s'"
proof -
  have slot: "slot_of (head (core s)) = Suc n" using assms slot_of_nat [of "Suc n"] by (simp add: overrun_def del: slot_of_nat)
  have e: "ring (core s) ! Suc n = blank_entry" using assms by (simp add: overrun_def)
  have "\<not> valid blank_entry" "length (message blank_entry) = 256" by (simp_all add: blank_entry_def)
  note c = call_accepted [of s 1 LINFO "''x''" 0, unfolded slot e, OF _ this]
  let ?s = "s\<lparr> core := snd (log_entry LINFO ''x'' 0 (core s)), answers := answers s @ [(1, True)], claimed := claimed s @ [(LINFO, ''x'')] \<rparr>"
  have "run_events logger_act (call_alone 1 LINFO ''x'' 0 6) s = Some ?s" using c(1) assms(1) by (simp add: overrun_def)
  moreover have "overrun (Suc n) ?s"
    using assms e slot by (auto simp: overrun_def log_entry_def Let_def blank_entry_def replicate_append_same)
  ultimately show ?thesis by blast
qed

lemma overrun_many:
  "n < RING_CAPACITY \<Longrightarrow> \<exists>s. run_events logger_act (concat (replicate n (call_alone 1 LINFO ''x'' 0 6))) slow_start = Some s \<and> overrun n s"
proof (induction n)
  case (Suc n)
  then obtain s where s: "run_events logger_act (concat (replicate n (call_alone 1 LINFO ''x'' 0 6))) slow_start = Some s" "overrun n s"
    by auto
  have "concat (replicate (Suc n) xs) = concat (replicate n xs) @ xs" for xs :: "logger_event list" by (induction n) simp_all
  with overrun_step [OF s(2) Suc.prems] s(1) show ?case by (auto simp: run_append)
qed (use overrun_start(2) in simp)

text \<open>Then thread 1 claims the slot of thread 0 and publishes its message, the consumer prints time and level of it, thread 0
  writes its own message over it and publishes it too, and the consumer prints the text and releases the slot.\<close>

definition torn_end :: "logger_event list" where
  "torn_end = call_alone 1 LWARN ''b'' 0 6 @ replicate 4 Consumer @ replicate 5 (Work 0 0) @ replicate 3 Consumer"

lemma fill_entry_fields [simp]:
  "valid (fill_entry level msg now e)" "entry_level (fill_entry level msg now e) = level"
  "timestamp_us (fill_entry level msg now e) = ns_to_us now"
  "length (message e) = 256 \<Longrightarrow> length (message (fill_entry level msg now e)) = 256"
  by (simp_all add: fill_entry_def Let_def)

lemma overwritten: "length (message e) = 256 \<Longrightarrow> c_string (message (terminate_text msg (copy_text msg e))) = c_string (take 255 msg)"
  by (rule terminated) (simp_all add: copied)

lemma overrun_tears:
  assumes "overrun 1023 s"
  shows "\<exists>s'. run_events logger_act torn_end s = Some s' \<and> printed s' = [(0, ''WARN '', ''a'')] \<and>
    answers s' = answers s @ [(1, True), (0, True)] \<and> dropped (core s') = 0 \<and> claimed s' = claimed s @ [(LWARN, ''b'')] \<and>
    consumer s' = TestRunning \<and> length (ring (core s')) = RING_CAPACITY \<and> \<not> valid (ring (core s') ! 0)"
proof -
  have slot: "slot_of (head (core s)) = 0" using assms slot_of_nat [of 1024] by (simp add: overrun_def RING_CAPACITY_def del: slot_of_nat)
  have e: "ring (core s) ! 0 = blank_entry" using assms unfolding overrun_def by (metis capacity_simps(1))
  have b: "\<not> valid blank_entry" "length (message blank_entry) = 256" by (simp_all add: blank_entry_def)
  let ?e = "fill_entry LWARN ''b'' 0 blank_entry"
  let ?s = "s\<lparr> core := (core s)\<lparr> head := head (core s) + 1, ring := (ring (core s))[0 := ?e] \<rparr>, answers := answers s @ [(1, True)],
    claimed := claimed s @ [(LWARN, ''b'')] \<rparr>"
  have call: "run_events logger_act (call_alone 1 LWARN ''b'' 0 6) s = Some ?s"
    using call_accepted(1) [of s 1 LWARN "''b''" 0, unfolded slot e, OF _ b] assms b e slot
    by (simp add: overrun_def log_entry_def Let_def)
  have p: "producers s 0 = Busy LINFO ''a'' 0 PutLevel" "consumer s = TestRunning" "logger_running (core s)" "tail (core s) = 0"
    "printed s = []" "dropped (core s) = 0" "0 < length (ring (core s))"
    "length (ring (core s)) = RING_CAPACITY" using assms by (simp_all add: overrun_def)
  have z: "slot_of 0 = 0" "ns_to_us 0 = 0" by (simp_all add: slot_of_def ns_to_us_def cdiv_def)
  let ?t = "?s\<lparr> consumer := PrintText 0 ''WARN '' \<rparr>"
  have read: "run_events logger_act (replicate 4 Consumer) ?s = Some ?t"
    using p z by (simp add: numeral_eq_Suc logger_step_defs level_str_def)
  let ?f = "terminate_text ''a'' (copy_text ''a'' (?e\<lparr> entry_level := LINFO, timestamp_us := 0 \<rparr>))"
  let ?u = "?t\<lparr> core := (core ?t)\<lparr> ring := (ring (core s))[0 := ?f\<lparr> valid := True \<rparr>] \<rparr>, producers := (producers s)(0 := Free),
    answers := answers s @ [(1, True), (0, True)] \<rparr>"
  have wrote: "run_events logger_act (replicate 5 (Work 0 0)) ?t = Some ?u"
    using p(1-7) z by (simp add: numeral_eq_Suc logger_step_defs)
  have txt_a: "c_string (message ?f) = ''a''" using b overwritten [of "?e\<lparr> entry_level := LINFO, timestamp_us := 0 \<rparr>" "''a''"]
    by (simp add: c_string_def)
  have rest: "\<exists>s'. run_events logger_act (replicate 3 Consumer) ?u = Some s' \<and> printed s' = [(0, ''WARN '', ''a'')] \<and>
    answers s' = answers s @ [(1, True), (0, True)] \<and> dropped (core s') = 0 \<and> claimed s' = claimed s @ [(LWARN, ''b'')] \<and>
    consumer s' = TestRunning \<and> length (ring (core s')) = RING_CAPACITY \<and> \<not> valid (ring (core s') ! 0)"
    using p z txt_a by (simp add: numeral_eq_Suc logger_step_defs)
  show ?thesis using call read wrote rest by (simp add: torn_end_def run_append)
qed

text \<open>The calls that have returned \<open>true\<close>, and the messages in the ring that still have to be printed: the valid slots, but for
  the one whose line is out and which is not released yet.\<close>

definition accepted_calls :: "logger_sys \<Rightarrow> nat" where
  "accepted_calls s = length (filter snd (answers s))"

definition waiting :: "logger_sys \<Rightarrow> nat" where
  "waiting s = length (filter valid (ring (core s))) - of_bool (consumer s = Release)"

text \<open>While the consumer is inside the output statement or before the release, its slot is valid: only the consumer releases
  slots.\<close>

definition consumer_holds :: "logger_sys \<Rightarrow> bool" where
  "consumer_holds s \<longleftrightarrow> length (ring (core s)) = RING_CAPACITY \<and>
     (consumer s \<in> {PrintTime, Release} \<or> (\<exists>ts lv. consumer s = PrintLevel ts \<or> consumer s = PrintText ts lv) \<longrightarrow>
        valid (ring (core s) ! slot_of (tail (core s))))"

definition one_lost :: "logger_sys \<Rightarrow> bool" where
  "one_lost s \<longleftrightarrow> consumer_holds s \<and>
     length (printed s) + length (filter valid (ring (core s))) < accepted_calls s + of_bool (consumer s = Release)"

lemma count_update:
  "i < length xs \<Longrightarrow> length (filter P (xs[i := y])) + of_bool (P (xs ! i)) = length (filter P xs) + of_bool (P y)"
proof (induction xs arbitrary: i)
  case (Cons x xs)
  then show ?case by (cases i) (auto split: if_splits)
qed simp

lemma count_update_same: "P y = P (xs ! i) \<Longrightarrow> length (filter P (xs[i := y])) = length (filter P xs)"
  using count_update [of i xs P y] by (cases "i < length xs") (auto simp: not_less list_update_beyond)

lemma count_update_le: "length (filter P (xs[i := y])) \<le> Suc (length (filter P xs))"
  using count_update [of i xs P y] by (cases "i < length xs") (auto simp: of_bool_def not_less list_update_beyond split: if_splits)

lemma valid_update_same: "valid y = valid (xs ! i) \<Longrightarrow> valid (xs[i := y] ! j) = valid (xs ! j)"
  by (cases "i < length xs"; cases "i = j") (auto simp: not_less list_update_beyond)

lemma one_lost_store:
  assumes "one_lost s" and "\<And>e. valid (f e) = valid e"
  shows "one_lost (s\<lparr> core := store i f (core s), producers := ps \<rparr>)"
  using assms by (simp add: one_lost_def consumer_holds_def accepted_calls_def store_def count_update_same valid_update_same)

lemma one_lost_publish:
  assumes "one_lost s"
  shows "one_lost (answer t True (store i (valid_update (\<lambda>_. True)) (core s)) s)"
proof -
  let ?r = "(ring (core s))[i := (ring (core s) ! i)\<lparr> valid := True \<rparr>]"
  have "valid (ring (core s) ! j) \<Longrightarrow> valid (?r ! j)" for j by (cases "i < length (ring (core s))"; cases "i = j") (auto simp: not_less list_update_beyond)
  moreover have "length (filter valid ?r) \<le> Suc (length (filter valid (ring (core s))))" by (rule count_update_le)
  ultimately show ?thesis using assms
    by (auto simp: one_lost_def consumer_holds_def accepted_calls_def answer_def store_def)
qed

lemma one_lost_work:
  assumes "one_lost s" and "log_step t now s = Some s'"
  shows "one_lost s'"
proof -
  obtain level msg i st where p: "producers s t = Busy level msg i st"
    using assms(2) by (cases "producers s t") (auto simp: log_step_def)
  have refuse: "one_lost (answer t False ((core s)\<lparr> dropped := dropped (core s) + 1 \<rparr>) s)"
    using assms(1) by (simp add: one_lost_def consumer_holds_def accepted_calls_def answer_def)
  have keep: "one_lost (advance_to t p (core s) s)" for p
    using assms(1) by (simp add: one_lost_def consumer_holds_def accepted_calls_def advance_to_def)
  have stored: "one_lost (advance_to t p (store i f (core s)) s)" if "\<And>e. valid (f e) = valid e" for p f
    unfolding advance_to_def by (rule one_lost_store [OF assms(1) that])
  show ?thesis using assms(2) p refuse keep stored one_lost_publish [OF assms(1)]
    by (auto simp: log_step_def Let_def split: stage.splits if_splits)
qed

lemma one_lost_release:
  assumes "one_lost s" and "consumer s = Release"
  shows "one_lost (s\<lparr> consumer := Advance, core := store (slot_of (tail (core s))) (valid_update (\<lambda>_. False)) (core s) \<rparr>)"
proof -
  let ?i = "slot_of (tail (core s))"
  have "?i < length (ring (core s))" "valid (ring (core s) ! ?i)"
    using assms by (auto simp: one_lost_def consumer_holds_def slot_of_def)
  with count_update [of ?i "ring (core s)" valid "(ring (core s) ! ?i)\<lparr> valid := False \<rparr>"] assms show ?thesis
    by (auto simp: one_lost_def consumer_holds_def accepted_calls_def store_def)
qed

lemma one_lost_consumer:
  assumes "one_lost s" and "consumer_step s = Some s'"
  shows "one_lost s'"
proof (cases "consumer s = Release")
  case True
  with assms(2) one_lost_release [OF assms(1)] show ?thesis by (simp add: consumer_step_def Let_def)
next
  case False
  with assms show ?thesis
    by (auto simp: consumer_step_def Let_def one_lost_def consumer_holds_def accepted_calls_def split: consumer.splits if_splits)
qed

lemma one_lost_act: "one_lost s \<Longrightarrow> logger_act e s = Some s' \<Longrightarrow> one_lost s'"
proof (cases e)
  case (Work t now)
  then show "one_lost s \<Longrightarrow> logger_act e s = Some s' \<Longrightarrow> one_lost s'" using one_lost_work by simp
next
  case Consumer
  then show "one_lost s \<Longrightarrow> logger_act e s = Some s' \<Longrightarrow> one_lost s'" using one_lost_consumer by simp
qed (auto simp: one_lost_def consumer_holds_def accepted_calls_def log_claim_def split: if_splits)

interpretation loss: event_machine logger_act one_lost one_lost
  by unfold_locales (auto intro: one_lost_act)

lemma one_lost_counts:
  assumes "one_lost s"
  shows "length (printed s) + waiting s < accepted_calls s"
proof -
  have "filter valid (ring (core s)) \<noteq> []" if "consumer s = Release"
    using assms that by (auto simp: one_lost_def consumer_holds_def filter_empty_conv slot_of_def intro!: bexI nth_mem)
  with assms show ?thesis by (cases "consumer s = Release") (auto simp: one_lost_def waiting_def Suc_diff_le length_greater_0_conv [symmetric] simp del: length_greater_0_conv)
qed

section \<open>Properties\<close>

text \<open>
  C17: the logger at the granularity of its memory accesses, with any number of producers: in every interleaving in which a
  call starts only while fewer than \<open>RING_CAPACITY\<close> messages are under way, no message is dropped, every call that has
  returned has returned \<open>true\<close>, and what is printed are the first messages in the order in which the calls claimed
  their slots, whole, once and with their own level, each cut at 255 characters; when no call is under way, \<open>stop\<close> makes the
  consumer print all the rest and end.
\<close>

theorem logger_threads_fifo:
  assumes "run_events roomy_act es logger_sys0 = Some s"
  shows "map snd (printed s) = map text_of (take (length (printed s)) (calls es)) \<and>
    length (printed s) \<le> length (calls es) \<and> list_all snd (answers s) \<and> dropped (core s) = 0 \<and>
    (logger_running (core s) \<and> (\<forall>t. producers s t = Free) \<longrightarrow>
      (\<exists>n s'. run_events logger_act (Stop # replicate n Consumer) s = Some s' \<and> consumer s' = Stopped \<and>
        map snd (printed s') = map text_of (calls es)))"
proof -
  have inv: "logger_inv s" using logger_threads.run_inv assms by blast
  have run: "run_events logger_act es logger_sys0 = Some s" using assms by (rule run_roomy)
  have cl: "claimed s = calls es" using run_claims [OF run] by (simp add: logger_sys0_def)
  have "logger_running (core s) \<longrightarrow> looping (consumer s)" using logger_phase.run_inv run by blast
  with flushed [OF inv] inv cl show ?thesis by (simp add: logger_inv_def)
qed

theorem logger_threads_fifo_witness:
  "\<exists>n s'. run_events logger_act ([Call 0 LINFO ''a'', Call 1 LWARN ''b''] @ replicate 6 (Work 1 0) @ [Consumer, Consumer] @
       replicate 6 (Work 0 0) @ Stop # replicate n Consumer) logger_sys0 = Some s' \<and>
     map snd (printed s') = [(''INFO '', ''a''), (''WARN '', ''b'')]"
proof -
  let ?es = "[Call 0 LINFO ''a'', Call 1 LWARN ''b''] @ replicate 6 (Work 1 0) @ [Consumer, Consumer] @ replicate 6 (Work 0 0)"
  have z: "slot_of 0 = 0" "slot_of 1 = 1" by (simp_all add: slot_of_def RING_CAPACITY_def)
  have "1 < RING_CAPACITY" by (simp add: RING_CAPACITY_def)
  then obtain s where s: "run_events logger_act ?es logger_sys0 = Some s" "logger_running (core s)" "\<forall>t. producers s t = Free"
    using z by (simp add: numeral_eq_Suc logger_step_defs logger_sys0_def new_logger_def start_logger_def blank_entry_def)
  have c: "calls ?es = [(LINFO, ''a''), (LWARN, ''b'')]" by (simp add: numeral_eq_Suc)
  have "length (claimed logger_sys0) + length (calls ?es) \<le> RING_CAPACITY"
    unfolding c by (simp add: logger_sys0_def RING_CAPACITY_def)
  from logger_threads_fifo [OF few_calls_roomy [OF logger_inv_start s(1) this]] s(2,3) obtain n s' where
    "run_events logger_act (Stop # replicate n Consumer) s = Some s'" "map snd (printed s') = map text_of (calls ?es)" by blast
  moreover have "map text_of (calls ?es) = [(''INFO '', ''a''), (''WARN '', ''b'')]"
    unfolding c by (simp add: text_of_def level_str_def c_string_def)
  ultimately have "run_events logger_act (?es @ Stop # replicate n Consumer) logger_sys0 = Some s' \<and>
      map snd (printed s') = [(''INFO '', ''a''), (''WARN '', ''b'')]"
    using s(1) by (simp only: run_append [of logger_act ?es "Stop # replicate n Consumer"] option.case)
  then show ?thesis unfolding append_assoc by (intro exI)
qed

text \<open>
  C27: the comment \<open>no mutex needed, we own this slot\<close> is not true of a call that is overtaken by a whole round of the ring: there is
  a schedule of two producers and the consumer, in which two calls share a slot, every call returns \<open>true\<close> and nothing is
  counted as dropped, but the consumer prints a line that nobody logged (the level of one message with the text of another). One
  of the accepted messages is lost for good: then and however the program goes on, the lines printed and the messages that
  wait in the ring together are fewer than the calls that have returned \<open>true\<close>.
\<close>

theorem logger_torn_line:
  "\<exists>es s. run_events logger_act es logger_sys0 = Some s \<and> length (answers s) = length (calls es) \<and> list_all snd (answers s) \<and>
     dropped (core s) = 0 \<and> fst ` set (answers s) = {0, 1} \<and> map snd (printed s) = [(''WARN '', ''a'')] \<and>
     (''WARN '', ''a'') \<notin> text_of ` set (calls es) \<and>
     (\<forall>es' s'. run_events logger_act es' s = Some s' \<longrightarrow> length (printed s') + waiting s' < accepted_calls s')"
proof -
  let ?mid = "concat (replicate 1023 (call_alone 1 LINFO ''x'' 0 6))"
  obtain s1 where s1: "run_events logger_act ?mid slow_start = Some s1" "overrun 1023 s1"
    using overrun_many [of 1023] by (auto simp: RING_CAPACITY_def)
  obtain s where s: "run_events logger_act torn_end s1 = Some s" "printed s = [(0, ''WARN '', ''a'')]"
    "answers s = answers s1 @ [(1, True), (0, True)]" "dropped (core s) = 0" "claimed s = claimed s1 @ [(LWARN, ''b'')]"
    "consumer s = TestRunning" "length (ring (core s)) = RING_CAPACITY" "\<not> valid (ring (core s) ! 0)"
    using overrun_tears [OF s1(2)] by blast
  let ?es = "[Call 0 LINFO ''a'', Work 0 0] @ ?mid @ torn_end"
  have run: "run_events logger_act ?es logger_sys0 = Some s"
    unfolding run_append overrun_start(1) option.case s1(1) s(1) ..
  have cl: "calls ?es = (LINFO, ''a'') # replicate 1023 (LINFO, ''x'') @ [(LWARN, ''b'')]"
    using run_claims [OF run] s(5) s1(2) by (simp add: overrun_def logger_sys0_def)
  have as: "answers s = replicate 1023 (1, True) @ [(1, True), (0, True)]" using s(3) s1(2) by (simp add: overrun_def)
  have "length (answers s) = length (calls ?es)" unfolding cl as by simp
  moreover have "list_all snd (answers s)" "fst ` set (answers s) = {0, 1}" unfolding as by (auto simp: list_all_iff)
  moreover have "(''WARN '', ''a'') \<notin> text_of ` set (calls ?es)"
    unfolding cl by (auto simp: text_of_def level_str_def c_string_def)
  moreover have "one_lost s"
  proof -
    have "filter valid (ring (core s)) = filter valid (tl (ring (core s)))"
      using s(8) by (cases "ring (core s)") simp_all
    then have "length (filter valid (ring (core s))) \<le> 1023"
      using length_filter_le [of valid "tl (ring (core s))"] s(7) by (simp add: RING_CAPACITY_def)
    then show ?thesis using s(2,6,7) as by (simp add: one_lost_def consumer_holds_def accepted_calls_def)
  qed
  then have "length (printed s') + waiting s' < accepted_calls s'" if "run_events logger_act es' s = Some s'" for es' s'
    using loss.run_keeps [OF _ that] one_lost_counts by blast
  ultimately show ?thesis using run s(2,4) by (intro exI [of _ ?es] exI [of _ s]) simp
qed

theorem logger_torn_line_witness:
  "\<exists>es s. run_events logger_act es logger_sys0 = Some s \<and> map snd (printed s) = [(''WARN '', ''a'')] \<and>
     1 + waiting s < accepted_calls s"
proof -
  obtain es s where s: "run_events logger_act es logger_sys0 = Some s" "map snd (printed s) = [(''WARN '', ''a'')]"
    "\<forall>es' s'. run_events logger_act es' s = Some s' \<longrightarrow> length (printed s') + waiting s' < accepted_calls s'"
    using logger_torn_line by (elim exE conjE) (rule that)
  then have "length (printed s) + waiting s < accepted_calls s" using s(3) [rule_format, of "[]" s] by simp
  moreover have "length (printed s) = 1" using arg_cong [OF s(2), of length] by simp
  ultimately show ?thesis using s(1,2) by (intro exI [of _ es] exI [of _ s]) simp
qed

text \<open>
  A call of \<open>log\<close> that is not interrupted is the atomic \<open>log_entry\<close> of \<open>Async_Logger\<close>, and an iteration of the consumer the atomic
  \<open>consume_one\<close>: the coarser model has exactly the runs in which the threads do not overlap.
\<close>

theorem logger_calls_refine:
  assumes "logger_inv s"
  shows "(producers s t = Free \<longrightarrow>
      (\<exists>n. run_events logger_act (call_alone t level msg now n) s =
        Some (s\<lparr> core := snd (log_entry level msg now (core s)),
          answers := answers s @ [(t, fst (log_entry level msg now (core s)))], claimed := claimed s @ [(level, msg)] \<rparr>))) \<and>
    (consumer s = TestRunning \<and> logger_running (core s) \<longrightarrow>
      (\<exists>n. run_events logger_act (replicate n Consumer) s =
        Some (s\<lparr> core := snd (consume_one (core s)),
          printed := printed s @ (case fst (consume_one (core s)) of None \<Rightarrow> [] | Some x \<Rightarrow> [x]) \<rparr>)))"
proof (intro conjI impI)
  let ?i = "slot_of (head (core s))"
  have len: "length (ring (core s)) = RING_CAPACITY" "length (message (ring (core s) ! ?i)) = 256"
    using assms cells_okD(3,4) [of "released s"] by (auto simp: logger_inv_def)
  assume t: "producers s t = Free"
  show "\<exists>n. run_events logger_act (call_alone t level msg now n) s =
        Some (s\<lparr> core := snd (log_entry level msg now (core s)),
          answers := answers s @ [(t, fst (log_entry level msg now (core s)))], claimed := claimed s @ [(level, msg)] \<rparr>)"
    using call_refused [OF t] call_accepted [OF t _ len(2,1)] by (cases "valid (ring (core s) ! ?i)") fastforce+
next
  assume c: "consumer s = TestRunning \<and> logger_running (core s)"
  let ?s = "s\<lparr> core := snd (consume_one (core s)),
    printed := printed s @ (case fst (consume_one (core s)) of None \<Rightarrow> [] | Some x \<Rightarrow> [x]) \<rparr>"
  have "?s = s\<lparr> consumer := TestRunning, core := snd (consume_one (core s)),
      printed := printed s @ (case fst (consume_one (core s)) of None \<Rightarrow> [] | Some x \<Rightarrow> [x]) \<rparr>" using c by (cases s) simp
  then have "alone (s\<lparr> consumer := TestValid \<rparr>) ?s"
    using consumer_iteration [of "s\<lparr> consumer := TestValid \<rparr>"] by simp
  then have "alone s ?s"
    using c by (intro alone_step [of s "s\<lparr> consumer := TestValid \<rparr>"]) (simp_all add: logger_step_defs)
  then show "\<exists>n. run_events logger_act (replicate n Consumer) s = Some ?s" unfolding alone_def .
qed

end
