(* ===== verification/Benchmark_Report.thy ===== *)
theory Benchmark_Report
  imports Benchmark_Suite
begin

text \<open>
  The report of the benchmarks: \<open>print_benchmark_comparison\<close> of \<open>include/benchmark/BenchmarkingSuite.hpp\<close> and \<open>main\<close> of
  \<open>src/phase16_benchmarking_suite.cpp\<close>, character by character on the stream of \<open>Stream_Format\<close>. The specification is a table of
  fields of fixed width; it says which columns a reader finds where, and how far a number shown is from the number measured.
\<close>

section \<open>Data and operations\<close>

definition table_header :: "(ostream \<Rightarrow> ostream) list" where
  "table_header =
     [set_left, setw 28, insert_text ''Architecture Paradigm'', setw 12, insert_text ''Total Ops'',
      setw 16, insert_text ''Throughput (ops/s)'', setw 10, insert_text ''P50 (us)'', setw 10, insert_text ''P90 (us)'',
      setw 10, insert_text ''P99 (us)'', setw 10, insert_text ''Max (us)'', insert_text newline]"

definition table_row :: "BenchmarkResult \<Rightarrow> (ostream \<Rightarrow> ostream) list" where
  "table_row r =
     [set_left, setw 28, insert_text (bench_name r), setw 12, put_nat (unat (total_ops r)),
      setw 16, setprecision 1, put_fixed (throughput_ops_sec r), setw 10, setprecision 2, put_fixed (p50_us r),
      setw 10, setprecision 2, put_fixed (p90_us r), setw 10, setprecision 2, put_fixed (p99_us r),
      setw 10, setprecision 2, put_fixed (max_us r), insert_text newline]"

definition print_benchmark_comparison :: "BenchmarkResult list \<Rightarrow> ostream \<Rightarrow> ostream" where
  "print_benchmark_comparison results os =
     (let os = emit ([insert_text (newline @ rule100),
            insert_text ('' EMPIRICAL PERFORMANCE BENCHMARK COMPARISON REPORT'' @ newline), insert_text rule100] @
            table_header @ [insert_text (replicate 100 CHR ''-'' @ newline)]) os;
          os = fold (\<lambda>r. emit (table_row r)) results os
      in emit [insert_text (rule100 @ newline)] os)"

text \<open>\<open>main\<close>: \<open>lat i\<close>, \<open>order i\<close> and \<open>elapsed i\<close> are the latencies, the order of the clients and the duration of the
  \<open>i\<close>-th of the six benchmarks; \<open>None\<close> while a thread-pool benchmark is waiting.\<close>

definition phase16_results ::
  "(nat \<Rightarrow> nat \<Rightarrow> nat \<Rightarrow> real) \<Rightarrow> (nat \<Rightarrow> nat list) \<Rightarrow> (nat \<Rightarrow> real) \<Rightarrow> BenchmarkResult outcome option list" where
  "phase16_results lat order elapsed =
     [Some (benchmark_thread_per_client 10 (lat 0) (order 0) (elapsed 0)),
      benchmark_thread_pool 10 4 (lat 1) (order 1) (elapsed 1),
      Some (benchmark_event_reactor 10 (lat 2 0) (elapsed 2)),
      Some (benchmark_thread_per_client 50 (lat 3) (order 3) (elapsed 3)),
      benchmark_thread_pool 50 4 (lat 4) (order 4) (elapsed 4),
      Some (benchmark_event_reactor 50 (lat 5 0) (elapsed 5))]"

fun push_all :: "BenchmarkResult outcome option list \<Rightarrow> BenchmarkResult list outcome option" where
  "push_all [] = Some (Inr [])"
| "push_all (None # rs) = None"
| "push_all (Some (Inl e) # rs) = Some (Inl e)"
| "push_all (Some (Inr r) # rs) = map_option (\<lambda>x. bind_outcome x (\<lambda>rs. Inr (r # rs))) (push_all rs)"

definition phase16_intro :: string where
  "phase16_intro = rule100 @ '' PHASE 16: EMPIRICAL PERFORMANCE BENCHMARKING SUITE'' @ newline @
     '' (Thread-per-Client vs ThreadPool vs Epoll Reactor)'' @ newline @ rule100 @ newline @
     ''[+] Running Benchmarks under low connection scale (10 concurrent clients)...'' @ newline @
     ''[+] Running Benchmarks under high connection scale (50 concurrent clients)...'' @ newline"

definition phase16_takeaways :: string where
  "phase16_takeaways = ''[+] Architectural Key Takeaways:'' @ newline @
     ''  1. Thread-per-Client degrades under scale due to kernel thread scheduling & stack memory overhead.'' @ newline @
     ''  2. ThreadPool caps thread count, maintaining steady throughput with bounded resource consumption.'' @ newline @
     ''  3. Event-Driven Reactor Core eliminates thread context switching entirely, yielding lowest latency.'' @ newline @ newline @
     ''[+] Phase 16 Complete. Benchmarking Suite executed successfully.'' @ newline"

definition phase16_main ::
  "(nat \<Rightarrow> nat \<Rightarrow> nat \<Rightarrow> real) \<Rightarrow> (nat \<Rightarrow> nat list) \<Rightarrow> (nat \<Rightarrow> real) \<Rightarrow> ostream outcome option" where
  "phase16_main lat order elapsed =
     map_option (\<lambda>x. bind_outcome x (\<lambda>rs.
         Inr (emit [insert_text phase16_intro, print_benchmark_comparison rs, insert_text phase16_takeaways] cout)))
       (push_all (phase16_results lat order elapsed))"

section \<open>Specification\<close>

text \<open>A left-adjusted field, the cells of a row with their widths, and the text of a row as its fields.\<close>

definition field :: "nat \<Rightarrow> string \<Rightarrow> string" where
  "field n s = s @ replicate (n - length s) CHR '' ''"

definition cells :: "BenchmarkResult \<Rightarrow> (nat \<times> string) list" where
  "cells r = [(28, bench_name r), (12, to_string (unat (total_ops r))), (16, fixed_text 1 (throughput_ops_sec r)),
     (10, fixed_text 2 (p50_us r)), (10, fixed_text 2 (p90_us r)), (10, fixed_text 2 (p99_us r)), (10, fixed_text 2 (max_us r))]"

definition header_cells :: "(nat \<times> string) list" where
  "header_cells = [(28, ''Architecture Paradigm''), (12, ''Total Ops''), (16, ''Throughput (ops/s)''),
     (10, ''P50 (us)''), (10, ''P90 (us)''), (10, ''P99 (us)''), (10, ''Max (us)'')]"

definition fields_text :: "(nat \<times> string) list \<Rightarrow> string" where
  "fields_text cs = concat (map (\<lambda>(n, s). field n s) cs) @ newline"

text \<open>Where the \<open>i\<close>-th field of a line starts.\<close>

definition column :: "nat \<Rightarrow> (nat \<times> string) list \<Rightarrow> nat" where
  "column i cs = length (concat (map (\<lambda>(n, s). field n s) (take i cs)))"

definition plain :: "ostream \<Rightarrow> bool" where
  "plain os \<longleftrightarrow> os_width os = 0 \<and> os_fill os = CHR '' '' \<and> \<not> os_hex os"

section \<open>Lemmas\<close>

lemma field_length [simp]: "length (field n s) = max n (length s)"
  by (simp add: field_def max_def)

lemma row_text:
  assumes "plain os"
  shows "shown (emit (table_row r) os) = shown os @ fields_text (cells r)" and "plain (emit (table_row r) os)"
  using assms by (simp_all add: table_row_def stream_defs plain_def cells_def fields_text_def field_def Let_def)

lemma header_text:
  assumes "plain os"
  shows "shown (emit table_header os) = shown os @ fields_text header_cells" and "plain (emit table_header os)"
  using assms by (simp_all add: table_header_def stream_defs plain_def header_cells_def fields_text_def field_def Let_def newline_def)

lemma rows_text:
  "plain os \<Longrightarrow> shown (fold (\<lambda>r. emit (table_row r)) rs os) = shown os @ concat (map (\<lambda>r. fields_text (cells r)) rs) \<and>
     plain (fold (\<lambda>r. emit (table_row r)) rs os)"
proof (induction rs arbitrary: os)
  case (Cons r rs)
  from Cons.IH [OF row_text(2) [OF Cons.prems]] row_text(1) [OF Cons.prems] show ?case by simp
qed simp

lemma plain_insert:
  "plain os \<Longrightarrow> shown (insert_text s os) = shown os @ s" "plain os \<Longrightarrow> plain (insert_text s os)"
  by (simp_all add: plain_def stream_defs Let_def)

lemma column_eq: "column i cs = sum_list (map (\<lambda>(n, s). max n (length s)) (take i cs))"
  by (simp add: column_def length_concat comp_def case_prod_unfold)

lemma comparison_shown:
  assumes "plain os"
  shows "shown (print_benchmark_comparison rs os) = shown os @ newline @ rule100 @
      '' EMPIRICAL PERFORMANCE BENCHMARK COMPARISON REPORT'' @ newline @ rule100 @ fields_text header_cells @
      replicate 100 CHR ''-'' @ newline @ concat (map (\<lambda>r. fields_text (cells r)) rs) @ rule100 @ newline"
    and "plain (print_benchmark_comparison rs os)"
proof -
  let ?a = "emit [insert_text (newline @ rule100),
    insert_text ('' EMPIRICAL PERFORMANCE BENCHMARK COMPARISON REPORT'' @ newline), insert_text rule100] os"
  have a: "plain ?a" "shown ?a = shown os @ newline @ rule100 @
      '' EMPIRICAL PERFORMANCE BENCHMARK COMPARISON REPORT'' @ newline @ rule100"
    using assms by (simp_all add: plain_insert del: append_Cons)
  note h = header_text [OF a(1)]
  let ?b = "emit [insert_text (replicate 100 CHR ''-'' @ newline)] (emit table_header ?a)"
  have b: "plain ?b" "shown ?b = shown ?a @ fields_text header_cells @ replicate 100 CHR ''-'' @ newline"
    using h by (simp_all add: plain_insert)
  note r = rows_text [OF b(1), of rs]
  have p: "print_benchmark_comparison rs os = emit [insert_text (rule100 @ newline)] (fold (\<lambda>r. emit (table_row r)) rs ?b)"
    unfolding print_benchmark_comparison_def Let_def emit_append ..
  show "shown (print_benchmark_comparison rs os) = shown os @ newline @ rule100 @
      '' EMPIRICAL PERFORMANCE BENCHMARK COMPARISON REPORT'' @ newline @ rule100 @ fields_text header_cells @
      replicate 100 CHR ''-'' @ newline @ concat (map (\<lambda>r. fields_text (cells r)) rs) @ rule100 @ newline"
    using r a(2) b(2) unfolding p emit_simps by (simp add: plain_insert del: append_Cons)
  show "plain (print_benchmark_comparison rs os)" using r unfolding p emit_simps by (simp add: plain_insert)
qed

lemma field_at:
  assumes "i < length cs"
  shows "\<exists>rest. drop (column i cs) (fields_text cs) = snd (cs ! i) @ rest"
proof -
  obtain n s where c: "cs ! i = (n, s)" by (cases "cs ! i")
  have "cs = take i cs @ (n, s) # drop (Suc i) cs" using id_take_nth_drop [OF assms] c by simp
  then have "fields_text cs = concat (map (\<lambda>(n, s). field n s) (take i cs)) @ s @ (replicate (n - length s) CHR '' '' @
      concat (map (\<lambda>(n, s). field n s) (drop (Suc i) cs)) @ newline)"
    unfolding fields_text_def field_def by (metis (no_types, lifting) append.assoc case_prod_conv concat.simps(2) concat_append list.simps(9) map_append)
  then show ?thesis using c by (simp add: column_def)
qed

lemma results_name: "compute_results nm e ops samples = Inr r \<Longrightarrow> bench_name r = nm"
  by (auto simp: compute_results_def bind_outcome_def at_index_def Let_def split: if_splits sum.splits)

lemma push_all_Some:
  "push_all (x # xs) = Some (Inr rs) \<longleftrightarrow> (\<exists>r rs'. x = Some (Inr r) \<and> push_all xs = Some (Inr rs') \<and> rs = r # rs')"
  by (cases "(x # xs)" rule: push_all.cases) (auto simp: bind_outcome_Inr)

lemma client_digits: "to_string 4 = ''4''" "to_string 10 = ''10''" "to_string 50 = ''50''"
  by (simp_all add: to_string.simps char_of_def bit_0)

section \<open>Properties\<close>

text \<open>
  The comparison table can be read back: for every result the output contains one line whose fields start at the columns
  given by their widths, and the four latencies shown there differ from those measured by at most 0.005 microseconds
  and the throughput by at most 0.05 operations per second.
\<close>

theorem table_readable:
  assumes "plain os" and "r \<in> set rs"
  shows "\<exists>pre post. shown (print_benchmark_comparison rs os) = shown os @ pre @ fields_text (cells r) @ post \<and>
    (\<forall>i < 7. \<exists>rest. drop (column i (cells r)) (fields_text (cells r)) = snd (cells r ! i) @ rest) \<and>
    \<bar>fixed_value 1 (snd (cells r ! 2)) - throughput_ops_sec r\<bar> \<le> 1 / 20 \<and>
    \<bar>fixed_value 2 (snd (cells r ! 3)) - p50_us r\<bar> \<le> 1 / 200 \<and> \<bar>fixed_value 2 (snd (cells r ! 4)) - p90_us r\<bar> \<le> 1 / 200 \<and>
    \<bar>fixed_value 2 (snd (cells r ! 5)) - p99_us r\<bar> \<le> 1 / 200 \<and> \<bar>fixed_value 2 (snd (cells r ! 6)) - max_us r\<bar> \<le> 1 / 200"
proof -
  obtain xs ys where rs: "rs = xs @ r # ys" using split_list [OF assms(2)] by blast
  have "length (cells r) = 7" by (simp add: cells_def)
  then have at: "\<forall>i < 7. \<exists>rest. drop (column i (cells r)) (fields_text (cells r)) = snd (cells r ! i) @ rest"
    using field_at by presburger
  have err: "\<bar>fixed_value 1 (fixed_text 1 x) - x\<bar> \<le> 1 / 20" "\<bar>fixed_value 2 (fixed_text 2 x) - x\<bar> \<le> 1 / 200" for x
    using fixed_text_error [of 1 x] fixed_text_error [of 2 x] by simp_all
  have num: "snd (cells r ! 2) = fixed_text 1 (throughput_ops_sec r)" "snd (cells r ! 3) = fixed_text 2 (p50_us r)"
    "snd (cells r ! 4) = fixed_text 2 (p90_us r)" "snd (cells r ! 5) = fixed_text 2 (p99_us r)" "snd (cells r ! 6) = fixed_text 2 (max_us r)"
    by (simp_all add: cells_def)
  have split: "concat (map (\<lambda>r. fields_text (cells r)) rs) = concat (map (\<lambda>r. fields_text (cells r)) xs) @ fields_text (cells r) @
      concat (map (\<lambda>r. fields_text (cells r)) ys)" by (simp add: rs)
  show ?thesis
    unfolding num comparison_shown(1) [OF assms(1)] split
    by (intro exI [of _ "newline @ rule100 @ '' EMPIRICAL PERFORMANCE BENCHMARK COMPARISON REPORT'' @ newline @ rule100 @
        fields_text header_cells @ replicate 100 CHR ''-'' @ newline @ concat (map (\<lambda>r. fields_text (cells r)) xs)"]
      exI [of _ "concat (map (\<lambda>r. fields_text (cells r)) ys) @ rule100 @ newline"] conjI at err) (simp only: append.assoc)
qed

theorem table_readable_witness:
  "\<exists>pre post. shown (print_benchmark_comparison [\<lparr> bench_name = ''t'', total_ops = 3, duration_sec = 1, throughput_ops_sec = 3,
       min_us = 1, p50_us = 3, p90_us = 5, p99_us = 5, max_us = 5, avg_us = 3 \<rparr>] cout) = pre @ fields_text (cells \<lparr> bench_name = ''t'',
       total_ops = 3, duration_sec = 1, throughput_ops_sec = 3, min_us = 1, p50_us = 3, p90_us = 5, p99_us = 5, max_us = 5, avg_us = 3 \<rparr>) @ post"
proof -
  let ?r = "\<lparr> bench_name = ''t'', total_ops = 3, duration_sec = 1, throughput_ops_sec = 3, min_us = 1, p50_us = 3, p90_us = 5,
    p99_us = 5, max_us = 5, avg_us = 3 \<rparr> :: BenchmarkResult"
  have "plain cout" by (simp add: plain_def cout_def)
  from table_readable [OF this, of ?r "[?r]"] obtain pre post where
    "shown (print_benchmark_comparison [?r] cout) = shown cout @ pre @ fields_text (cells ?r) @ post" by auto
  then show ?thesis by (intro exI [of _ pre] exI [of _ post]) (simp add: cout_def)
qed

text \<open>
  The columns of the table do not line up: the heading of the throughput has 18 characters in a field of 16, so from there on every
  heading stands two columns to the right of a row whose cells fit; and no row of phase 16 does, since the three names are
  longer than their field of 28.
\<close>

theorem table_misaligned:
  "column 3 header_cells = 58 \<and>
   (\<forall>r. list_all (\<lambda>(n, s). length s \<le> n) (take 3 (cells r)) \<longrightarrow> column 3 (cells r) = 56) \<and>
   (\<forall>lat order elapsed rs. push_all (phase16_results lat order elapsed) = Some (Inr rs) \<longrightarrow>
      column 1 header_cells = 28 \<and> map (\<lambda>r. column 1 (cells r)) rs = [30, 34, 31, 30, 34, 31])"
proof (intro conjI allI impI)
  fix lat order elapsed rs
  assume "push_all (phase16_results lat order elapsed) = Some (Inr rs)"
  then have "map bench_name rs = [''Thread-per-Client (10 clients)'', ''ThreadPool (4 workers, 10 clients)'',
      ''Epoll Reactor Core (10 clients)'', ''Thread-per-Client (50 clients)'', ''ThreadPool (4 workers, 50 clients)'',
      ''Epoll Reactor Core (50 clients)'']"
    by (auto simp: phase16_results_def push_all_Some benchmark_thread_per_client_def benchmark_thread_pool_def
        benchmark_event_reactor_def Let_def client_digits split: if_splits dest!: results_name)
  moreover have "map (\<lambda>r. column 1 (cells r)) rs = map (\<lambda>s. max 28 (length s)) (map bench_name rs)"
    by (simp add: column_eq cells_def)
  ultimately show "map (\<lambda>r. column 1 (cells r)) rs = [30, 34, 31, 30, 34, 31]" by simp
qed (auto simp: column_eq header_cells_def cells_def max_def)

end
