(* ===== verification/Dissector_Report.thy ===== *)
theory Dissector_Report
  imports Packet_Dissector Stream_Format
begin

text \<open>
  The text of \<open>PacketDissector::dissect_frame\<close> on \<open>std::cout\<close> and the whole \<open>main\<close> of \<open>src/phase24_packet_capture.cpp\<close>: the
  values computed in \<open>Packet_Dissector\<close> are printed with the manipulators of the source, on a stream whose state the
  next frame inherits.
\<close>

section \<open>Data and operations\<close>

fun show_line :: "DissectLine \<Rightarrow> (ostream \<Rightarrow> ostream) list" where
  "show_line FrameTruncated = [insert_text (''[!] Frame truncated: less than 14-byte Ethernet header'' @ newline)]"
| "show_line (L2 src dst et) =
     [insert_text ''[L2 Ethernet II]  Src MAC: '', insert_text src, insert_text ''  ->  Dst MAC: '', insert_text dst,
      insert_text ''  [EtherType: 0x'', set_hex True, setw 4, setfill CHR ''0'', put_nat (unat et), set_hex False,
      insert_text ('']'' @ newline)]"
| "show_line (NonIPv4 arp) =
     [insert_text ''  (Non-IPv4 Frame: '', insert_text (if arp then ''ARP'' else ''Other''), insert_text ('')'' @ newline)]"
| "show_line TruncatedIPv4 = [insert_text (''[!] Truncated IPv4 Packet'' @ newline)]"
| "show_line (L3 src dst hops len proto) =
     [insert_text ''[L3 IPv4]         Src IP : '', insert_text src, insert_text ''  ->  Dst IP : '', insert_text dst,
      insert_text ''  [TTL: '', put_nat (unat hops), insert_text '', Total Len: '', put_nat (unat len),
      insert_text '' B, Protocol: '', put_nat (unat proto), insert_text ('']'' @ newline)]"
| "show_line TruncatedTCP = [insert_text (''[!] Truncated TCP Segment'' @ newline)]"
| "show_line (L4_TCP sp dp sq ak flags) =
     [insert_text ''[L4 TCP]          Src Port: '', put_nat (unat sp), insert_text ''  ->  Dst Port: '', put_nat (unat dp),
      insert_text ''  [Seq: '', put_nat (unat sq), insert_text '', Ack: '', put_nat (unat ak), insert_text '']'',
      insert_text ''  Flags: [ ''] @ map (\<lambda>f. insert_text (f @ '' '')) flags @ [insert_text ('']'' @ newline)]"
| "show_line TruncatedUDP = [insert_text (''[!] Truncated UDP Segment'' @ newline)]"
| "show_line (L4_UDP sp dp len) =
     [insert_text ''[L4 UDP]          Src Port: '', put_nat (unat sp), insert_text ''  ->  Dst Port: '', put_nat (unat dp),
      insert_text ''  [Length: '', put_nat (unat len), insert_text ('' B]'' @ newline)]"

text \<open>After these lines the function returns without its closing rule.\<close>

fun returns_early :: "DissectLine \<Rightarrow> bool" where
  "returns_early FrameTruncated = True"
| "returns_early (NonIPv4 arp) = True"
| "returns_early TruncatedIPv4 = True"
| "returns_early TruncatedTCP = True"
| "returns_early TruncatedUDP = True"
| "returns_early l = False"

definition frame_heading :: "nat \<Rightarrow> (ostream \<Rightarrow> ostream) list" where
  "frame_heading n = [insert_text rule100, insert_text '' RAW PACKET FRAME DISSECTION ['', put_nat n,
     insert_text ('' Bytes]'' @ newline), insert_text rule100]"

definition dissect_output :: "(u32 \<Rightarrow> string) \<Rightarrow> endian \<Rightarrow> u8 list \<Rightarrow> ostream \<Rightarrow> ostream outcome" where
  "dissect_output ntop e buffer os =
     bind_outcome (dissect_frame ntop e buffer) (\<lambda>ls.
       Inr (emit (frame_heading (length buffer) @ concat (map show_line ls) @
         (if list_ex returns_early ls then [] else [insert_text (rule100 @ newline)])) os))"

definition phase24_intro :: string where
  "phase24_intro = rule100 @ '' PHASE 24: PACKET CAPTURE & DISSECTION SUBSYSTEM'' @ newline @
     '' (Linux Raw Sockets AF_PACKET, Layer 2/3/4 Header Dissection)'' @ newline @ rule100 @ newline @
     ''[+] Test 1: Dissecting Synthetic Layer 2/3/4 TCP SYN Frame...'' @ newline"

definition phase24_between :: string where
  "phase24_between = ''[+] Test 2: Dissecting Synthetic Layer 2/3/4 UDP Frame...'' @ newline"

definition phase24_end :: string where
  "phase24_end = ''[+] Linux Raw Socket Sniffer Instructions (Requires CAP_NET_RAW / sudo):'' @ newline @
     ''    To run live packet capture on Linux interface:'' @ newline @
     ''    $ int raw_sock = socket(AF_PACKET, SOCK_RAW, htons(ETH_P_ALL));'' @ newline @
     ''    $ recvfrom(raw_sock, buffer, sizeof(buffer), 0, NULL, NULL);'' @ newline @ newline @
     ''['' @ [CHR 0xE2, CHR 0x9C, CHR 0x93] @ ''] PHASE 24 COMPLETE. PACKET CAPTURE & DISSECTION ENGINE VERIFIED.'' @ newline"

definition phase24_main :: "(u32 \<Rightarrow> string) \<Rightarrow> (string \<Rightarrow> u32 option) \<Rightarrow> endian \<Rightarrow> ostream outcome" where
  "phase24_main ntop pton e =
     bind_outcome (dissect_output ntop e (craft_synthetic_tcp_syn_frame pton e) (insert_text phase24_intro cout)) (\<lambda>os.
     bind_outcome (dissect_output ntop e (craft_synthetic_udp_frame pton e)
         (insert_text phase24_between os)) (\<lambda>os.
     Inr (insert_text phase24_end os)))"

section \<open>Specification\<close>

text \<open>The text of a line when nothing is left over on the stream.\<close>

definition hex4 :: "u16 \<Rightarrow> string" where
  "hex4 w = hex_bytes (be_bytes16 w)"

fun line_text :: "DissectLine \<Rightarrow> string" where
  "line_text FrameTruncated = ''[!] Frame truncated: less than 14-byte Ethernet header'' @ newline"
| "line_text (L2 src dst et) =
     ''[L2 Ethernet II]  Src MAC: '' @ src @ ''  ->  Dst MAC: '' @ dst @ ''  [EtherType: 0x'' @ hex4 et @ '']'' @ newline"
| "line_text (NonIPv4 arp) = ''  (Non-IPv4 Frame: '' @ (if arp then ''ARP'' else ''Other'') @ '')'' @ newline"
| "line_text TruncatedIPv4 = ''[!] Truncated IPv4 Packet'' @ newline"
| "line_text (L3 src dst hops len proto) =
     ''[L3 IPv4]         Src IP : '' @ src @ ''  ->  Dst IP : '' @ dst @ ''  [TTL: '' @ to_string (unat hops) @ '', Total Len: '' @
     to_string (unat len) @ '' B, Protocol: '' @ to_string (unat proto) @ '']'' @ newline"
| "line_text TruncatedTCP = ''[!] Truncated TCP Segment'' @ newline"
| "line_text (L4_TCP sp dp sq ak flags) =
     ''[L4 TCP]          Src Port: '' @ to_string (unat sp) @ ''  ->  Dst Port: '' @ to_string (unat dp) @
     ''  [Seq: '' @ to_string (unat sq) @ '', Ack: '' @ to_string (unat ak) @ '']  Flags: [ '' @
     concat (map (\<lambda>f. f @ '' '') flags) @ '']'' @ newline"
| "line_text TruncatedUDP = ''[!] Truncated UDP Segment'' @ newline"
| "line_text (L4_UDP sp dp len) =
     ''[L4 UDP]          Src Port: '' @ to_string (unat sp) @ ''  ->  Dst Port: '' @ to_string (unat dp) @
     ''  [Length: '' @ to_string (unat len) @ '' B]'' @ newline"

definition frame_text :: "nat \<Rightarrow> DissectLine list \<Rightarrow> string" where
  "frame_text n ls = rule100 @ '' RAW PACKET FRAME DISSECTION ['' @ to_string n @ '' Bytes]'' @ newline @ rule100 @
     concat (map line_text ls) @ (if list_ex returns_early ls then [] else rule100 @ newline)"

section \<open>Lemmas\<close>

lemma to_hex_two: "n < 256 \<Longrightarrow> replicate (2 - length (to_hex n)) CHR ''0'' @ to_hex n = [hex_digit (n div 16), hex_digit (n mod 16)]"
  by (cases "n < 16") (simp_all add: to_hex.simps [of n] to_hex.simps [of "n div 16"] hex_digit_def numeral_2_eq_2)

text \<open>The hexadecimal bytes of \<open>mac_to_string\<close> are what the manipulators print on a fresh stream.\<close>

lemma hex2_printed: "shown (emit [set_hex True, setw 2, setfill CHR ''0'', put_nat (unat b)] cout) = hex2 b"
  using to_hex_two [of "unat b"] unsigned_less [of b] by (simp add: stream_defs cout_def hex2_def Let_def)

lemma to_hex_length: "n < 16 ^ k \<Longrightarrow> 0 < k \<Longrightarrow> length (to_hex n) \<le> k"
proof (induction k arbitrary: n)
  case (Suc k)
  show ?case
  proof (cases "n < 16")
    case False
    with Suc.prems have "n div 16 < 16 ^ k" "0 < k" by (auto simp: div_less_iff_less_mult mult.commute intro: gr0I)
    with Suc.IH [of "n div 16"] False show ?thesis by (simp add: to_hex.simps [of n])
  qed (simp add: to_hex.simps [of n])
qed simp

lemma to_hex_four:
  assumes "n < 16 ^ 4"
  shows "replicate (4 - length (to_hex n)) CHR ''0'' @ to_hex n =
    [hex_digit (n div 16 div 16 div 16), hex_digit (n div 16 div 16 mod 16), hex_digit (n div 16 mod 16), hex_digit (n mod 16)]"
proof -
  have pad: "replicate (j - length (to_hex m)) CHR ''0'' @ to_hex m =
      (replicate (k - length (to_hex (m div 16))) CHR ''0'' @ to_hex (m div 16)) @ [hex_digit (m mod 16)]"
    if "0 < k" "j = Suc k" for j k m
  proof (cases "m < 16")
    case True
    with that show ?thesis
      by (cases k) (simp_all add: to_hex.simps [of m] to_hex.simps [of 0] hex_digit_def replicate_append_same flip: replicate_Suc)
  qed (use that in \<open>simp add: to_hex.simps [of m]\<close>)
  have "n div 16 div 16 div 16 < 16" using assms by (simp add: div_mult2_eq [symmetric] div_less_iff_less_mult)
  then have top: "to_hex (n div 16 div 16 div 16) = [hex_digit (n div 16 div 16 div 16)]" by (simp add: to_hex.simps [of "n div 16 div 16 div 16"])
  have n: "(0 :: nat) < 3" "(4 :: nat) = Suc 3" "(0 :: nat) < 2" "(3 :: nat) = Suc 2" "(0 :: nat) < 1" "(2 :: nat) = Suc 1" by simp_all
  show ?thesis unfolding pad [OF n(1,2)] pad [OF n(3,4)] pad [OF n(5,6)] top by simp
qed

lemma hex4_digits:
  "hex4 w = [hex_digit (unat w div 16 div 16 div 16), hex_digit (unat w div 16 div 16 mod 16), hex_digit (unat w div 16 mod 16),
     hex_digit (unat w mod 16)]"
proof -
  have hi: "unat (ucast (drop_bit 8 w) :: u8) = unat w div 256"
  proof -
    have "unat w < 2 ^ 16" using unsigned_less [of w] by simp
    then have "unat w div 256 < 256" by simp
    then show ?thesis by (simp add: unsigned_ucast_eq unsigned_drop_bit_eq) (simp add: drop_bit_eq_div take_bit_eq_mod)
  qed
  have lo: "unat (ucast w :: u8) = unat w mod 256" by (simp add: unsigned_ucast_eq take_bit_eq_mod)
  have "unat w mod 256 div 16 = unat w div 16 mod 16" "unat w mod 256 mod 16 = unat w mod 16" for w :: u16
    using mod_mult2_eq [of "unat w" 16 16] by (simp_all add: mod_mod_cancel)
  then show ?thesis
    by (simp add: hex4_def hex_bytes_def hex2_def be_bytes16_def hi lo div_mult2_eq [symmetric])
qed

lemma show_line_text:
  assumes "settled os"
  shows "shown (emit (show_line l) os) = shown os @ line_text l" and "settled (emit (show_line l) os)"
    and "os_fill (emit (show_line l) os) = (case l of L2 _ _ _ \<Rightarrow> CHR ''0'' | _ \<Rightarrow> os_fill os)"
proof -
  have flags: "settled x \<Longrightarrow> shown (emit (map (\<lambda>f. insert_text (f @ '' '')) fs) x) = shown x @ concat (map (\<lambda>f. f @ '' '') fs) \<and>
      settled (emit (map (\<lambda>f. insert_text (f @ '' '')) fs) x) \<and> os_fill (emit (map (\<lambda>f. insert_text (f @ '' '')) fs) x) = os_fill x" for fs x
    by (induction fs arbitrary: x) simp_all
  have "shown (emit (show_line l) os) = shown os @ line_text l \<and> settled (emit (show_line l) os) \<and>
      os_fill (emit (show_line l) os) = (case l of L2 _ _ _ \<Rightarrow> CHR ''0'' | _ \<Rightarrow> os_fill os)"
  proof (cases l)
    case (L2 src dst et)
    have "unat et < 16 ^ 4" using unsigned_less [of et] by simp
    from to_hex_four [OF this] hex4_digits [of et] have "replicate (4 - length (to_hex (unat et))) CHR ''0'' @ to_hex (unat et) = hex4 et" by simp
    with L2 assms show ?thesis by (simp add: settled_def stream_defs Let_def)
  next
    case (L4_TCP sp dp sq ak fs)
    with assms flags show ?thesis by (simp add: emit_append)
  qed (use assms in simp_all)
  then show "shown (emit (show_line l) os) = shown os @ line_text l" "settled (emit (show_line l) os)"
    "os_fill (emit (show_line l) os) = (case l of L2 _ _ _ \<Rightarrow> CHR ''0'' | _ \<Rightarrow> os_fill os)" by blast+
qed

lemma show_lines_text:
  "settled os \<Longrightarrow> shown (emit (concat (map show_line ls)) os) = shown os @ concat (map line_text ls) \<and>
     settled (emit (concat (map show_line ls)) os)"
proof (induction ls arbitrary: os)
  case (Cons l ls)
  from Cons.IH [OF show_line_text(2) [OF Cons.prems, of l]] show_line_text(1) [OF Cons.prems, of l] show ?case
    by (simp add: emit_append)
qed simp

lemma dissect_output_text:
  assumes "settled os" and "dissect_frame ntop e buffer = Inr ls"
  shows "\<exists>os'. dissect_output ntop e buffer os = Inr os' \<and> settled os' \<and> shown os' = shown os @ frame_text (length buffer) ls"
proof -
  let ?a = "emit (frame_heading (length buffer)) os"
  have a: "settled ?a" "shown ?a = shown os @ rule100 @ '' RAW PACKET FRAME DISSECTION ['' @ to_string (length buffer) @ '' Bytes]'' @ newline @ rule100"
    using assms(1) by (simp_all add: frame_heading_def)
  note b = show_lines_text [OF a(1), of ls]
  show ?thesis
    using assms(2) a b by (simp add: dissect_output_def bind_outcome_def emit_append frame_text_def)
qed

section \<open>Properties\<close>

text \<open>
  C11: the dissector on arbitrary bytes: whatever the frame and whatever state the stream is in, \<open>dissect_frame\<close> never reads
  outside the frame and ends. On a stream that prints in decimal, right-adjusted and without a pending width, as \<open>std::cout\<close>
  is when a program starts, it leaves the stream like that for the next frame, whatever the fill character is, and writes
  the heading, one line per layer it could decode with all numbers in decimal and the EtherType as exactly four
  hexadecimal digits, and the closing rule exactly when no layer was cut off or unknown.
\<close>

theorem dissect_prints:
  "\<exists>ls os'. dissect_frame ntop e buffer = Inr ls \<and> dissect_output ntop e buffer os = Inr os' \<and>
    (settled os \<longrightarrow> settled os' \<and> shown os' = shown os @ frame_text (length buffer) ls)"
proof -
  obtain ls where ls: "dissect_frame ntop e buffer = Inr ls" using dissect_total by blast
  then obtain os' where "dissect_output ntop e buffer os = Inr os'" by (simp add: dissect_output_def bind_outcome_def)
  with ls dissect_output_text [of os, OF _ ls] show ?thesis by fastforce
qed

theorem dissect_prints_witness:
  "\<exists>os'. dissect_output (\<lambda>_. []) LittleEndian [1, 2, 3] cout = Inr os' \<and> settled os' \<and> shown os' = frame_text 3 [FrameTruncated]"
proof -
  have d: "dissect_frame (\<lambda>_. []) LittleEndian [1, 2, 3] = Inr [FrameTruncated]" by (simp add: dissect_frame_def)
  have l: "length ([1, 2, 3] :: u8 list) = 3" "shown cout = []" by simp_all
  from dissect_prints [of "\<lambda>_. []" LittleEndian "[1, 2, 3]" cout, unfolded l d] settled_cout(1) show ?thesis by auto
qed

text \<open>
  the whole output of phase 24, on a host of either byte order and for any \<open>inet_pton\<close> and \<open>inet_ntop\<close>: both frames are
  dissected down to their ports and closed with a rule.
\<close>

theorem phase24_text:
  "\<exists>os. phase24_main ntop pton e = Inr os \<and>
     shown os = phase24_intro @
       frame_text 54 [L2 ''00:1a:2b:3c:4d:5e'' ''ff:ff:ff:ff:ff:ff'' 0x0800,
         L3 (ntop (put_addr pton ''192.168.1.100'')) (ntop (put_addr pton ''10.0.0.1'')) 64 40 6, L4_TCP 54321 8080 100000 0 [''SYN'']] @
       phase24_between @
       frame_text 42 [L2 ''11:22:33:44:55:66'' ''aa:bb:cc:dd:ee:ff'' 0x0800,
         L3 (ntop (put_addr pton ''172.16.0.5'')) (ntop (put_addr pton ''192.168.1.1'')) 128 28 17, L4_UDP 9090 53 8] @ phase24_end"
    (is "\<exists>os. _ \<and> shown os = _ @ ?t1 @ _ @ ?t2 @ _")
proof -
  have len: "length (craft_synthetic_tcp_syn_frame pton e) = 54" "length (craft_synthetic_udp_frame pton e) = 42"
    by (simp_all add: craft_synthetic_tcp_syn_frame_def craft_synthetic_udp_frame_def)
  note d = conjunct1 [OF phase24_output, of ntop e pton] conjunct2 [OF phase24_output, of ntop e pton]
  obtain a where a: "dissect_output ntop e (craft_synthetic_tcp_syn_frame pton e) (insert_text phase24_intro cout) = Inr a"
    "settled a" "shown a = phase24_intro @ ?t1"
    using dissect_output_text [OF settled_insert(1) [OF settled_cout(1)] d(1)] by (auto simp: len)
  obtain b where b: "dissect_output ntop e (craft_synthetic_udp_frame pton e) (insert_text phase24_between a) = Inr b"
    "settled b" "shown b = shown a @ phase24_between @ ?t2"
    using dissect_output_text [OF settled_insert(1) [OF a(2)] d(2)] by (auto simp: a(2) len)
  have "phase24_main ntop pton e = Inr (insert_text phase24_end b)"
    unfolding phase24_main_def a(1) bind_outcome_def sum.case b(1) ..
  moreover have "shown (insert_text phase24_end b) = phase24_intro @ ?t1 @ phase24_between @ ?t2 @ phase24_end"
    using b(2,3) a(3) by (simp only: settled_insert append.assoc)
  ultimately show ?thesis unfolding append.assoc by blast
qed

end
