(* ===== verification/Env_Check.thy ===== *)
theory Env_Check
  imports Stream_Format
begin

text \<open>
  The tool \<open>tools/env_check.cpp\<close> (phase 0): it prints the number of cores, the limits on open descriptors and the range of
  ephemeral ports, and then starts four threads that print their thread id. What the host answers is an input. Every
  insertion into \<open>std::cout\<close> is one step, so the lines of the threads can mix.
\<close>

section \<open>Data and operations\<close>

text \<open>The answers of the host: \<open>hardware_concurrency\<close>, \<open>getrlimit\<close> (\<open>None\<close> when it fails), and the content of the file
  under \<open>/proc\<close>, if it can be opened.\<close>

record host =
  hardware_concurrency :: u32
  rlimit_nofile :: "(u64 \<times> u64) option"
  ip_local_port_range :: "string option"

definition first_line :: "string \<Rightarrow> string" where
  "first_line s = takeWhile (\<lambda>c. c \<noteq> CHR 0x0A) s"

definition check_proc_limits :: "host \<Rightarrow> (ostream \<Rightarrow> ostream) list" where
  "check_proc_limits h =
     [insert_text (''[+] Inspecting Linux Kernel Environment...'' @ newline),
      insert_text ''  - Available CPU Cores: '', put_nat (unat (hardware_concurrency h)), insert_text newline] @
     (case rlimit_nofile h of
        None \<Rightarrow> []
      | Some (cur, mx) \<Rightarrow>
          [insert_text ''  - Max Open File Descriptors (soft limit): '', put_nat (unat cur), insert_text newline,
           insert_text ''  - Max Open File Descriptors (hard limit): '', put_nat (unat mx), insert_text newline]) @
     (case ip_local_port_range h of
        None \<Rightarrow> [insert_text (''  - Note: /proc filesystem not accessible (Make sure you are running in Linux / WSL2)'' @ newline)]
      | Some content \<Rightarrow>
          [insert_text ''  - Ephemeral Port Range (/proc): '', insert_text (first_line content), insert_text newline])"

text \<open>A worker: its insertions in order, with the thread id it got.\<close>

definition WORKERS :: nat where
  "WORKERS = 4"

definition worker_body :: "(nat \<Rightarrow> nat) \<Rightarrow> nat \<Rightarrow> string list" where
  "worker_body tid i = [''  [Worker '', to_string i, ''] Running on Linux Kernel Thread ID (TID): '', to_string (tid i), newline]"

text \<open>The threads: what each has still to insert, and what was inserted so far, by whom.\<close>

record workers_sys =
  to_insert :: "nat \<Rightarrow> string list"
  inserted :: "(nat \<times> string) list"

definition workers_start :: "(nat \<Rightarrow> nat) \<Rightarrow> workers_sys" where
  "workers_start tid = \<lparr> to_insert = (\<lambda>i. if i < WORKERS then worker_body tid i else []), inserted = [] \<rparr>"

definition worker_step :: "nat \<Rightarrow> workers_sys \<Rightarrow> workers_sys option" where
  "worker_step i w =
     (case to_insert w i of
        [] \<Rightarrow> None
      | s # ss \<Rightarrow> Some (w\<lparr> to_insert := (to_insert w)(i := ss), inserted := inserted w @ [(i, s)] \<rparr>))"

text \<open>\<open>join\<close> on each of them returns when it has nothing more to do.\<close>

definition all_joined :: "workers_sys \<Rightarrow> bool" where
  "all_joined w \<longleftrightarrow> list_all (\<lambda>i. to_insert w i = []) [0..<WORKERS]"

definition rule49 :: string where
  "rule49 = replicate 49 CHR ''='' @ newline"

text \<open>\<open>main\<close> with the schedule of the workers; \<open>None\<close> when a worker has not ended.\<close>

definition env_check_main :: "host \<Rightarrow> (nat \<Rightarrow> nat) \<Rightarrow> nat list \<Rightarrow> ostream option" where
  "env_check_main h tid schedule =
     (let os = emit ([insert_text rule49, insert_text ('' PHASE 0: LINUX SYSTEM & TOOLCHAIN CHECK'' @ newline), insert_text rule49] @
            check_proc_limits h @ [insert_text (newline @ ''[+] Testing POSIX Multithreading (std::thread)...'' @ newline)]) cout
      in case run_events worker_step schedule (workers_start tid) of
           None \<Rightarrow> None
         | Some w \<Rightarrow>
             if all_joined w
             then Some (emit (map (\<lambda>p. insert_text (snd p)) (inserted w) @
               [insert_text (newline @ ''['' @ [CHR 0xE2, CHR 0x9C, CHR 0x93] @ ''] Environment Verification Complete!'' @ newline),
                insert_text rule49]) os)
             else None)"

section \<open>Specification\<close>

definition by_worker :: "nat \<Rightarrow> (nat \<times> string) list \<Rightarrow> string list" where
  "by_worker i out = map snd (filter (\<lambda>p. fst p = i) out)"

definition workers_inv :: "(nat \<Rightarrow> nat) \<Rightarrow> workers_sys \<Rightarrow> bool" where
  "workers_inv tid w \<longleftrightarrow> (\<forall>i. by_worker i (inserted w) @ to_insert w i = (if i < WORKERS then worker_body tid i else []))"

section \<open>Lemmas\<close>

lemma worker_step_Some:
  "worker_step i w = Some w' \<longleftrightarrow> (\<exists>s ss. to_insert w i = s # ss \<and>
     w' = w\<lparr> to_insert := (to_insert w)(i := ss), inserted := inserted w @ [(i, s)] \<rparr>)"
  by (auto simp: worker_step_def split: list.splits)

lemma by_worker_snoc: "by_worker i (out @ [(j, s)]) = by_worker i out @ (if i = j then [s] else [])"
  by (simp add: by_worker_def)

lemma worker_step_inv:
  assumes "workers_inv tid w" and "worker_step j w = Some w'"
  shows "workers_inv tid w'"
  unfolding workers_inv_def
proof
  fix i
  from assms(2) obtain s ss where s: "to_insert w j = s # ss"
    "w' = w\<lparr> to_insert := (to_insert w)(j := ss), inserted := inserted w @ [(j, s)] \<rparr>" by (auto simp: worker_step_Some)
  from assms(1) have "by_worker i (inserted w) @ to_insert w i = (if i < WORKERS then worker_body tid i else [])"
    by (simp add: workers_inv_def)
  then show "by_worker i (inserted w') @ to_insert w' i = (if i < WORKERS then worker_body tid i else [])"
    using s by (cases "i = j") (auto simp: by_worker_snoc split: if_splits)
qed

interpretation env_workers: event_machine worker_step "\<lambda>w. w = workers_start tid" "workers_inv tid" for tid
  by unfold_locales (simp add: workers_inv_def workers_start_def by_worker_def, rule worker_step_inv)

lemma insert_all: "settled os \<Longrightarrow> shown (emit (map (\<lambda>p. insert_text (snd p)) out) os) = shown os @ concat (map snd out) \<and>
    settled (emit (map (\<lambda>p. insert_text (snd p)) out) os)"
  by (induction out arbitrary: os) simp_all

lemma limits_ready: "settled os \<Longrightarrow> settled (emit (check_proc_limits h) os)"
  by (simp add: check_proc_limits_def emit_append split: option.splits)

text \<open>The work that is left, and that a worker which has some can go on.\<close>

definition work_left :: "workers_sys \<Rightarrow> nat" where
  "work_left w = sum_list (map (\<lambda>i. length (to_insert w i)) [0..<WORKERS])"

lemma work_left_step:
  assumes "workers_inv tid w" and "worker_step i w = Some w'"
  shows "work_left w = Suc (work_left w')"
proof -
  from assms(2) obtain s ss where s: "to_insert w i = s # ss" "to_insert w' = (to_insert w)(i := ss)"
    by (auto simp: worker_step_Some)
  have i: "i < WORKERS" using assms(1) s(1) by (auto simp: workers_inv_def split: if_splits dest: spec [of _ i])
  have "(\<Sum>j<WORKERS. length (to_insert w j)) = (\<Sum>j<WORKERS. length (to_insert w' j) + of_bool (j = i))"
    by (rule sum.cong) (auto simp: s)
  also have "\<dots> = (\<Sum>j<WORKERS. length (to_insert w' j)) + 1" using i by (simp add: sum.distrib of_bool_def)
  finally show ?thesis by (simp add: work_left_def interv_sum_list_conv_sum_set_nat atLeast0LessThan)
qed

lemma schedule_length:
  "workers_inv tid w \<Longrightarrow> run_events worker_step sched w = Some w' \<Longrightarrow> length sched + work_left w' = work_left w"
proof (induction sched arbitrary: w)
  case (Cons i sched)
  then obtain x where x: "worker_step i w = Some x" "run_events worker_step sched x = Some w'" by (auto split: option.splits)
  from Cons.IH [OF worker_step_inv [OF Cons.prems(1) x(1)] x(2)] work_left_step [OF Cons.prems(1) x(1)] show ?case by simp
qed simp

lemma joined_iff: "all_joined w \<longleftrightarrow> work_left w = 0"
  by (auto simp: all_joined_def work_left_def list_all_iff)

lemma workers_start_left: "work_left (workers_start tid) = 20"
  by (simp add: work_left_def workers_start_def worker_body_def WORKERS_def numeral_eq_Suc)

section \<open>Properties\<close>

text \<open>
  the environment check ends in every schedule of its four workers: a schedule has at most 20 insertions, as long as it has
  fewer some worker can go on, and with 20 all have been joined; then the output contains what every worker inserted, in
  its order and whole, between the report on the host and the closing lines.
\<close>

theorem env_check_ends:
  assumes "run_events worker_step schedule (workers_start tid) = Some w"
  shows "length schedule \<le> 20 \<and> (length schedule < 20 \<longrightarrow> (\<exists>i < WORKERS. worker_step i w \<noteq> None)) \<and>
    (length schedule = 20 \<longrightarrow> (\<exists>os pre post. env_check_main h tid schedule = Some os \<and>
       shown os = pre @ concat (map snd (inserted w)) @ post \<and>
       (\<forall>i < WORKERS. by_worker i (inserted w) = worker_body tid i)))"
proof -
  have inv: "workers_inv tid w" using env_workers.run_inv assms by blast
  have "workers_inv tid (workers_start tid)" using env_workers.inv_start by blast
  from schedule_length [OF this assms] have len: "length schedule + work_left w = 20" by (simp add: workers_start_left)
  have go: "\<exists>i < WORKERS. worker_step i w \<noteq> None" if "work_left w \<noteq> 0"
    using that unfolding joined_iff [symmetric] all_joined_def list_all_iff worker_step_def
    by (fastforce split: list.splits)
  have fin: "\<exists>os pre post. env_check_main h tid schedule = Some os \<and> shown os = pre @ concat (map snd (inserted w)) @ post \<and>
      (\<forall>i < WORKERS. by_worker i (inserted w) = worker_body tid i)" if "work_left w = 0"
  proof -
    have joined: "all_joined w" using that joined_iff by blast
    let ?os = "emit ([insert_text rule49, insert_text ('' PHASE 0: LINUX SYSTEM & TOOLCHAIN CHECK'' @ newline), insert_text rule49] @
      check_proc_limits h @ [insert_text (newline @ ''[+] Testing POSIX Multithreading (std::thread)...'' @ newline)]) cout"
    have r: "settled ?os" by (simp add: emit_append limits_ready)
    from insert_all [OF r, of "inserted w"] have
      "shown (emit (map (\<lambda>p. insert_text (snd p)) (inserted w) @
         [insert_text (newline @ ''['' @ [CHR 0xE2, CHR 0x9C, CHR 0x93] @ ''] Environment Verification Complete!'' @ newline),
          insert_text rule49]) ?os) = shown ?os @ concat (map snd (inserted w)) @
         ((newline @ ''['' @ [CHR 0xE2, CHR 0x9C, CHR 0x93] @ ''] Environment Verification Complete!'' @ newline) @ rule49)"
      unfolding emit_append emit_simps by (simp only: settled_insert append.assoc)
    moreover have "by_worker i (inserted w) = worker_body tid i" if "i < WORKERS" for i
      using inv joined that by (auto simp: workers_inv_def all_joined_def list_all_iff dest: spec [of _ i])
    ultimately show ?thesis using assms joined unfolding env_check_main_def Let_def by (auto simp del: emit_simps)
  qed
  show ?thesis using len go fin by auto
qed

theorem env_check_ends_witness:
  "\<exists>w. run_events worker_step [0, 1, 1, 0] (workers_start id) = Some w \<and> (\<exists>i < WORKERS. worker_step i w \<noteq> None) \<and>
     concat (map snd (inserted w)) = ''  [Worker   [Worker 10''"
proof -
  obtain w where w: "run_events worker_step [0, 1, 1, 0] (workers_start id) = Some w" "concat (map snd (inserted w)) = ''  [Worker   [Worker 10''"
    by (simp add: workers_start_def worker_step_def worker_body_def WORKERS_def to_string.simps char_of_def bit_0)
  from env_check_ends [OF w(1)] w show ?thesis by auto
qed

end
