(* ===== verification/Server_Programs.thy ===== *)
theory Server_Programs
  imports Server_Startup Epoll_Reactor
begin

text \<open>
  The programs of phases 6, 8, 9 and 11 from the first statement of \<open>main\<close> to the last destructor: the set-up of
  \<open>Server_Startup\<close>, the loop of \<open>Polling_Servers\<close> or \<open>Epoll_Reactor\<close>, and the clean-up, on one table of descriptors. The
  kernel hands out a descriptor only if it is not open in the whole process.
\<close>

section \<open>Data and operations\<close>

text \<open>How a program ends: with an exit code, not yet (the answers of the kernel are used up while the loop waits), by
  \<open>SIGPIPE\<close>, by an exception nobody catches, or in undefined behaviour.\<close>

datatype 'w program_end = Ended int os 'w | StillRunning | Killed | Terminated os | Crashed

subsection \<open>Phase 6\<close>

definition fresh_poll :: "int set \<Rightarrow> poll_input \<Rightarrow> poll_input" where
  "fresh_poll base i =
     i\<lparr> in_accept := (case in_accept i of Some fd \<Rightarrow> if fd \<in> base then None else Some fd | None \<Rightarrow> None) \<rparr>"

definition phase6_program ::
  "startup_answers \<Rightarrow> (int \<Rightarrow> u32) \<Rightarrow> (nat \<Rightarrow> poll_input) \<Rightarrow> os \<Rightarrow> poll_server option program_end" where
  "phase6_program a flags inp s =
     (case setup6 a s of
        (Exit code, s) \<Rightarrow> Ended code s None
      | (Listening fd, s) \<Rightarrow>
          let w = poll_loop (\<lambda>k. fresh_poll (open_fds s) (inp k)) LOOPS (start6 fd flags);
              s = s\<lparr> open_fds := open_fds s \<union> poll_socks w \<rparr>
          in if poll_killed w then Killed
             else Ended 0 (sys_close fd (fold sys_close (client_fds w) s)) (Some w)
      | (Watching x y, s) \<Rightarrow> Crashed)"

subsection \<open>Phases 8 and 9\<close>

text \<open>The state before \<open>run\<close> when the registration of the listener may fail, which neither program looks at.\<close>

definition register8 :: "bool \<Rightarrow> int \<Rightarrow> os \<Rightarrow> server" where
  "register8 ctl_ok fd s =
     (if ctl_ok then start8 fd s
      else (start8 fd s)\<lparr> reactor := \<lparr> reactor_running = True, interest = [], callbacks = [] \<rparr> \<rparr>)"

definition register9 :: "bool \<Rightarrow> int \<Rightarrow> os \<Rightarrow> conn_server" where
  "register9 ctl_ok fd s = server.extend (register8 ctl_ok fd s) \<lparr> conn_mgr = new_manager \<rparr>"

text \<open>What the end of a handler is for the program: the signal kills it, the rest is undefined behaviour.\<close>

definition handler_end :: "cpp_error \<Rightarrow> 'w program_end" where
  "handler_end e = (if e = SigPipeKill then Killed else Crashed)"

text \<open>Phase 8: the reactor is a member of the server object, so its epoll instance is created first, before \<open>start\<close>, and closed
  last, after the destructor has closed the listener.\<close>

definition phase8_main :: "startup_answers \<Rightarrow> io wait_result list \<Rightarrow> os \<Rightarrow> server option program_end" where
  "phase8_main a waits s =
     (let (epoll_fd, s) = sys_open (ans_epoll_create a) s in
      if epoll_fd < 0 then Terminated s
      else case setup8 a s of
          (Exit code, s) \<Rightarrow> Ended code (sys_close epoll_fd s) None
        | (Listening fd, s) \<Rightarrow>
            (case run_loop reactor call8 waits (register8 (ans_epoll_ctl a) fd s) of
               Inl e \<Rightarrow> handler_end e
             | Inr w \<Rightarrow>
                 if WaitFailed \<notin> set waits then StillRunning
                 else Ended 0 (sys_close epoll_fd (sys_close (server_fd w) (process w))) (Some w))
        | (Watching x y, s) \<Rightarrow> Crashed)"

text \<open>Phase 9: the reactor is a local variable, created after \<open>listen\<close>.\<close>

definition phase9_main :: "startup_answers \<Rightarrow> io wait_result list \<Rightarrow> os \<Rightarrow> conn_server option program_end" where
  "phase9_main a waits s =
     (case setup9 a s of
        (Exit code, s) \<Rightarrow> Ended code s None
      | (Listening fd, s) \<Rightarrow>
          let (epoll_fd, s) = sys_open (ans_epoll_create a) s in
          if epoll_fd < 0 then Terminated s
          else (case run_loop reactor call9 waits (register9 (ans_epoll_ctl a) fd s) of
                  Inl e \<Rightarrow> handler_end e
                | Inr w \<Rightarrow>
                    if WaitFailed \<notin> set waits then StillRunning
                    else Ended 0 (sys_close epoll_fd (sys_close fd (process w))) (Some w))
      | (Watching x y, s) \<Rightarrow> Crashed)"

subsection \<open>Phase 11\<close>

definition phase11_main :: "startup_answers \<Rightarrow> udp_wait list \<Rightarrow> os \<Rightarrow> udp_server option program_end" where
  "phase11_main a waits s =
     (case setup11 a s of
        (Exit code, s) \<Rightarrow> Ended code s None
      | (Watching udp_fd epoll_fd, s) \<Rightarrow>
          if UdpFailed \<notin> set waits then StillRunning
          else Ended 0 (sys_close udp_fd (sys_close epoll_fd s)) (Some (udp_loop udp_fd waits start11))
      | (Listening fd, s) \<Rightarrow> Crashed)"

section \<open>Lemmas\<close>

lemma register8_ok:
  assumes "fd \<in> open_fds s"
  shows "server_ok (open_fds s) (bad_closes s) (register8 ok fd s)" and "server_fd (register8 ok fd s) = fd"
proof -
  show "server_fd (register8 ok fd s) = fd" by (simp add: register8_def start8_def)
  show "server_ok (open_fds s) (bad_closes s) (register8 ok fd s)"
  proof (cases ok)
    case True
    with start8_ok [of fd s] assms show ?thesis by (simp add: register8_def insert_absorb)
  next
    case False
    with assms show ?thesis by (auto simp: register8_def start8_def server_ok_def clients_def)
  qed
qed

text \<open>The handlers do not assign the member \<open>server_fd_\<close>.\<close>

lemma call8_server_fd:
  assumes "call8 c fd ev i w = Inr w'"
  shows "server_fd w' = server_fd w"
  using assms
  by (auto simp: call8_def bind_outcome_Inr handle_accept_def handle_client_io_def register_client_def drop_client_def sys_send_def
      Let_def case_prod_beta split: cb.splits option.splits recv_result.splits if_splits)

interpretation phase8_member: reactor_app reactor call8 "\<lambda>_. True" "\<lambda>w. server_fd w = fd" for fd
  by unfold_locales (simp add: call8_server_fd)

lemma register9_ok:
  assumes "fd \<in> open_fds s"
  shows "conn_server_ok (open_fds s) (bad_closes s) (register9 ok fd s)"
proof -
  have "um_find (callbacks (reactor (register8 ok fd s))) g \<noteq> Some ClientCb" for g
    by (simp add: register8_def start8_def add_socket_def)
  moreover have "conn_mgr (register9 ok fd s) = new_manager" by (simp add: register9_def server.defs)
  ultimately show ?thesis using register8_ok(1) [OF assms, of ok] new_manager_ok
    by (simp add: conn_server_ok_def) (simp add: register9_def)
qed

text \<open>Closing the listener and the epoll instance after the loop: what stays open besides the descriptors the process was
  started with are the clients.\<close>

lemma close_both:
  assumes "server_ok base (bad_closes s) w" and "base = open_fds s \<union> {srv, ep}"
    and "srv \<noteq> ep" and "srv \<notin> open_fds s" and "ep \<notin> open_fds s"
  defines "s2 \<equiv> sys_close ep (sys_close srv (process w))"
  shows "open_fds s2 = open_fds s \<union> clients w" and "bad_closes s2 = bad_closes s"
    and "open_fds s \<inter> clients w = {}" and "srv \<notin> open_fds s2" and "ep \<notin> open_fds s2"
proof -
  have o: "open_fds (process w) = open_fds s \<union> {srv, ep} \<union> clients w" "(open_fds s \<union> {srv, ep}) \<inter> clients w = {}"
    "bad_closes (process w) = bad_closes s" using assms(1,2) by (auto simp: server_ok_def)
  with assms(3-5) show "open_fds s2 = open_fds s \<union> clients w" "bad_closes s2 = bad_closes s"
    "open_fds s \<inter> clients w = {}" "srv \<notin> open_fds s2" "ep \<notin> open_fds s2"
    by (auto simp: s2_def sys_close_def)
qed

lemma setup8_forms: "setup8 a s = (r, s1) \<Longrightarrow> (\<exists>fd. r = Listening fd) \<or> r = Exit 0"
  by (auto simp: setup_defs split: if_splits)

lemma setup9_forms: "setup9 a s = (r, s1) \<Longrightarrow> (\<exists>fd. r = Listening fd) \<or> r = Exit 1"
  by (auto simp: setup_defs split: if_splits)

lemma setup6_forms: "setup6 a s = (r, s1) \<Longrightarrow> (\<exists>fd. r = Listening fd) \<or> r = Exit 1"
  by (auto simp: setup_defs split: if_splits)

lemma setup11_forms: "setup11 a s = (r, s1) \<Longrightarrow> (\<exists>fd e. r = Watching fd e \<and> fd \<noteq> e) \<or> r = Exit 1"
  by (auto simp: setup_defs split: if_splits)

lemma fresh_poll_accept:
  assumes "base \<inter> set (client_fds w) = {}"
  shows "base \<inter> set (client_fds (accept_client (fresh_poll base i) w)) = {}"
  using assms by (auto simp: accept_client_def fresh_poll_def split: option.splits prod.splits if_splits)

lemma fresh_poll_iteration:
  assumes "poll_ok srv w" and "base \<inter> set (client_fds w) = {}"
  shows "base \<inter> set (client_fds (poll_iteration (fresh_poll base i) w)) = {}"
proof (cases "poll_killed w")
  case False
  let ?u = "accept_client (fresh_poll base i) w"
  obtain kept w' where sw: "sweep (fresh_poll base i) (client_fds ?u) ?u = (kept, w')" by fastforce
  have "distinct (client_fds ?u)" using accept_client_ok [OF assms(1)] by (simp add: poll_ok_def)
  then have "set kept \<subseteq> set (client_fds ?u)" using sweep_spec [OF sw] by blast
  with fresh_poll_accept [OF assms(2), of i] sw False show ?thesis by (auto simp: poll_iteration_def)
qed (use assms in \<open>simp add: poll_iteration_def\<close>)

lemma fresh_poll_loop:
  "base \<inter> set (client_fds (poll_loop (\<lambda>k. fresh_poll base (inp k)) n (start6 srv flags))) = {}"
proof (induction n)
  case (Suc n)
  have "poll_ok srv (poll_loop (\<lambda>k. fresh_poll base (inp k)) n (start6 srv flags))"
    by (rule poll_loop_ok) (simp add: poll_ok_def start6_def)
  from fresh_poll_iteration [OF this Suc] show ?case by (simp add: poll_loop_def)
qed (simp add: poll_loop_def start6_def)

lemma close_all:
  assumes "distinct fds" and "set fds \<subseteq> open_fds s"
  shows "open_fds (fold sys_close fds s) = open_fds s - set fds \<and> bad_closes (fold sys_close fds s) = bad_closes s"
  using assms
proof (induction fds arbitrary: s)
  case (Cons fd fds)
  from Cons.IH [of "sys_close fd s"] Cons.prems show ?case by (auto simp: sys_close_def)
qed simp

section \<open>Properties\<close>

text \<open>
  C16: the reactor server of phase 8 from start to end: whatever the kernel answers, the program never runs into undefined behaviour,
  and it is killed by \<open>SIGPIPE\<close> only if a \<open>send\<close> meets a broken connection. When it ends, with code 0 in every case, no call of
  \<open>close\<close> was on a descriptor that was not open; the listener is closed, and so is the epoll instance: open are the
  descriptors the program was started with and, besides them, exactly the clients that were still connected, registered or
  not. A set-up that fails, or a reactor that cannot be constructed, leaves nothing open.
\<close>

theorem phase8_program:
  "phase8_main a waits s \<noteq> Crashed \<and>
    (list_all (batch_ok (\<lambda>i. io_send i \<noteq> SendErr EPIPE)) waits \<longrightarrow> phase8_main a waits s \<noteq> Killed) \<and>
    (\<forall>s'. phase8_main a waits s = Terminated s' \<longrightarrow> s' = s) \<and>
    (\<forall>code s' r. phase8_main a waits s = Ended code s' r \<longrightarrow> code = 0 \<and> bad_closes s' = bad_closes s \<and>
      (case r of
         None \<Rightarrow> open_fds s' = open_fds s
       | Some w \<Rightarrow> server_fd w \<notin> open_fds s' \<and> open_fds s' = open_fds s \<union> clients w \<and> open_fds s \<inter> clients w = {}))"
proof -
  obtain ep s1 where ep: "sys_open (ans_epoll_create a) s = (ep, s1)" by fastforce
  obtain r s2 where r: "setup8 a s1 = (r, s2)" by fastforce
  show ?thesis
  proof (cases "ep < 0")
    case True
    with ep sys_open_failed [OF ep] show ?thesis by (simp add: phase8_main_def)
  next
    case False
    then have o: "ep \<notin> open_fds s" "open_fds s1 = insert ep (open_fds s)" "bad_closes s1 = bad_closes s"
      using open_close [OF ep] by auto
    note acc = start8.account [OF r]
    from setup8_forms [OF r] show ?thesis
    proof (elim disjE exE)
      assume "r = Exit 0"
      with ep False r acc o close_listed [of ep s2] show ?thesis by (auto simp: phase8_main_def)
    next
      fix srv assume l: "r = Listening srv"
      have fds: "open_fds s2 = open_fds s \<union> {srv, ep}" "srv \<noteq> ep" "srv \<notin> open_fds s" "bad_closes s2 = bad_closes s"
        using acc l o by auto
      let ?w = "register8 (ans_epoll_ctl a) srv s2" and ?run = "run_loop reactor call8 waits (register8 (ans_epoll_ctl a) srv s2)"
      have start: "server_ok (open_fds s2) (bad_closes s) ?w" "server_fd ?w = srv"
        using register8_ok [of srv s2] fds(1,4) by auto
      have any: "list_all (batch_ok (\<lambda>_ :: io. True)) waits" by (simp add: list_all_iff)
      have main: "phase8_main a waits s = (case ?run of Inl e \<Rightarrow> handler_end e
          | Inr w \<Rightarrow> if WaitFailed \<notin> set waits then StillRunning
              else Ended 0 (sys_close ep (sys_close (server_fd w) (process w))) (Some w))"
        using ep False r l by (simp add: phase8_main_def)
      show ?thesis
      proof (cases ?run)
        case (Inl e)
        with phase8.loop_safe [OF start(1) any] have "e = SigPipeKill" by blast
        moreover have "\<not> list_all (batch_ok (\<lambda>i. io_send i \<noteq> SendErr EPIPE)) waits"
          using phase8_alive.loop_safe [OF start(1) _ Inl] by blast
        ultimately show ?thesis using main Inl by (simp add: handler_end_def)
      next
        case (Inr w)
        have ok: "server_ok (open_fds s2) (bad_closes s) w" "server_fd w = srv"
          using phase8.loop_inv [OF start(1) any Inr] phase8_member.loop_inv [OF start(2) any Inr] by auto
        note c = close_both [OF ok(1) fds(1-3) o(1)]
        show ?thesis using main Inr c ok(2) by auto
      qed
    qed
  qed
qed

theorem phase8_program_witness:
  "\<exists>s' w. phase8_main \<lparr> ans_socket = 4, ans_setsockopt = True, ans_nonblock = True, ans_bind = True, ans_listen = True,
      ans_epoll_create = 3, ans_epoll_ctl = True \<rparr>
      [WaitEvents [(4, EPOLLIN, \<lparr> io_accept = Some (7, [], 0), io_ctl_ok = True, io_recv = RecvWouldBlock, io_send = Took 0,
        io_clock = (\<lambda>_. 0) \<rparr>)], WaitFailed]
      \<lparr> open_fds = {0, 1, 2}, bad_closes = 0 \<rparr> = Ended 0 s' (Some w) \<and> open_fds s' = {0, 1, 2, 7} \<and> bad_closes s' = 0 \<and> clients w = {7}"
proof -
  let ?a = "\<lparr> ans_socket = 4, ans_setsockopt = True, ans_nonblock = True, ans_bind = True, ans_listen = True,
    ans_epoll_create = 3, ans_epoll_ctl = True \<rparr>" and ?s = "\<lparr> open_fds = {0, 1, 2}, bad_closes = 0 \<rparr> :: os"
  let ?ws = "[WaitEvents [(4, EPOLLIN, \<lparr> io_accept = Some (7, [], 0), io_ctl_ok = True, io_recv = RecvWouldBlock, io_send = Took 0,
    io_clock = (\<lambda>_. 0) \<rparr>)], WaitFailed]"
  have "\<exists>s' w. phase8_main ?a ?ws ?s = Ended 0 s' (Some w) \<and> open_fds s' = {0, 1, 2, 7}"
    by (auto simp: phase8_main_def setup8_def sys_open_def sys_close_def register8_def start8_def add_socket_def
        call8_def captured_def handle_accept_def sys_accept_def register_client_def bind_outcome_def)
  then obtain s' w where e: "phase8_main ?a ?ws ?s = Ended 0 s' (Some w)" "open_fds s' = {0, 1, 2, 7}" by blast
  with phase8_program [of ?a ?ws ?s] have "bad_closes s' = 0" "{0, 1, 2, 7} = {0, 1, 2} \<union> clients w" "{0, 1, 2} \<inter> clients w = {}"
    by simp_all
  moreover from this have "clients w = {0, 1, 2, 7} - {0, 1, 2}" by blast
  then have "clients w = {7}" by auto
  ultimately show ?thesis using e by blast
qed

text \<open>
  phase 9 from start to end: if the program ends at all, that is, if no client has disconnected, the same holds, except that a
  set-up that fails leaves its socket open.
\<close>

theorem phase9_program:
  assumes "phase9_main a waits s = Ended code s' (Some w)"
  shows "code = 0 \<and> bad_closes s' = bad_closes s \<and> open_fds s' = open_fds s \<union> clients w \<and> open_fds s \<inter> clients w = {}"
proof -
  obtain r s1 where r: "setup9 a s = (r, s1)" by fastforce
  with setup9_forms [OF r] assms obtain srv where l: "r = Listening srv" by (auto simp: phase9_main_def)
  obtain ep s2 where ep: "sys_open (ans_epoll_create a) s1 = (ep, s2)" by fastforce
  have pos: "\<not> ep < 0" using assms r l ep by (auto simp: phase9_main_def)
  then have o: "ep \<notin> open_fds s1" "open_fds s2 = insert ep (open_fds s1)" "bad_closes s2 = bad_closes s1"
    using open_close [OF ep] by auto
  have f: "open_fds s1 = open_fds s \<union> {srv}" "srv \<notin> open_fds s" "bad_closes s1 = bad_closes s"
    using start9.success [OF r] start9.fresh [OF r] start9.no_bad_close [OF r] l by auto
  have run: "run_loop reactor call9 waits (register9 (ans_epoll_ctl a) srv s2) = Inr w"
    and e: "code = 0" "s' = sys_close ep (sys_close srv (process w))"
    using assms r l ep pos by (auto simp: phase9_main_def handler_end_def split: if_splits sum.splits)
  have "conn_server_ok (open_fds s2) (bad_closes s) w"
    using phase9.loop_inv [OF register9_ok _ run] o(2,3) f(1,3) by (simp add: list_all_iff)
  then have "server_ok (open_fds s2) (bad_closes s) w" by (simp add: conn_server_ok_def)
  moreover have "open_fds s2 = open_fds s \<union> {srv, ep}" "srv \<noteq> ep" "ep \<notin> open_fds s" using o f by auto
  ultimately show ?thesis using close_both [of "open_fds s2" s w srv ep] f(2) e by simp
qed

theorem phase9_program_witness:
  "\<exists>s' w. phase9_main \<lparr> ans_socket = 4, ans_setsockopt = True, ans_nonblock = True, ans_bind = True, ans_listen = True,
      ans_epoll_create = 3, ans_epoll_ctl = True \<rparr> [WaitFailed] \<lparr> open_fds = {0, 1, 2}, bad_closes = 0 \<rparr> = Ended 0 s' (Some w) \<and>
      bad_closes s' = 0"
proof -
  let ?a = "\<lparr> ans_socket = 4, ans_setsockopt = True, ans_nonblock = True, ans_bind = True, ans_listen = True,
    ans_epoll_create = 3, ans_epoll_ctl = True \<rparr>" and ?s = "\<lparr> open_fds = {0, 1, 2}, bad_closes = 0 \<rparr> :: os"
  obtain s' w where e: "phase9_main ?a [WaitFailed] ?s = Ended 0 s' (Some w)"
    by (simp add: phase9_main_def setup9_def sys_open_def register9_def register8_def start8_def add_socket_def server.defs)
  with phase9_program [OF e] show ?thesis by auto
qed

text \<open>
  Phases 6 and 11 from start to end: once the set-up has succeeded, a program that ends has exit code 0, has closed every
  descriptor it has opened, and has closed none twice; phase 11 leaves nothing open when its set-up fails either.
\<close>

theorem phase6_program_closes:
  assumes "phase6_program a flags inp s = Ended code s' (Some w)"
  shows "code = 0 \<and> open_fds s' = open_fds s \<and> bad_closes s' = bad_closes s"
proof -
  obtain r s1 where r: "setup6 a s = (r, s1)" by fastforce
  with setup6_forms [OF r] assms obtain srv where l: "r = Listening srv" by (auto simp: phase6_program_def)
  have f: "open_fds s1 = insert srv (open_fds s)" "srv \<notin> open_fds s" "bad_closes s1 = bad_closes s"
    using start6.success [OF r] start6.fresh [OF r] start6.no_bad_close [OF r] l by auto
  let ?s = "s1\<lparr> open_fds := open_fds s1 \<union> poll_socks w \<rparr>"
  have w: "w = poll_loop (\<lambda>k. fresh_poll (open_fds s1) (inp k)) LOOPS (start6 srv flags)" "code = 0"
    "s' = sys_close srv (fold sys_close (client_fds w) ?s)"
    using assms r l by (auto simp: phase6_program_def Let_def split: if_splits)
  have ok: "poll_ok srv w" unfolding w(1) by (rule poll_loop_ok) (simp add: poll_ok_def start6_def)
  have fresh: "open_fds s1 \<inter> set (client_fds w) = {}" unfolding w(1) by (rule fresh_poll_loop)
  have c: "open_fds (fold sys_close (client_fds w) ?s) = open_fds s1" "bad_closes (fold sys_close (client_fds w) ?s) = bad_closes s"
    using close_all [of "client_fds w" ?s] ok fresh f(1,3) by (auto simp: poll_ok_def)
  then show ?thesis using w(2,3) f close_listed [of srv "fold sys_close (client_fds w) ?s"] by auto
qed

theorem phase6_program_closes_witness:
  "\<exists>s' w. phase6_program \<lparr> ans_socket = 4, ans_setsockopt = True, ans_nonblock = True, ans_bind = True, ans_listen = True,
      ans_epoll_create = 3, ans_epoll_ctl = True \<rparr> (\<lambda>_. 0) (\<lambda>k. \<lparr> in_accept = None, in_fcntl = (True, True), in_recv = (\<lambda>_. Got []),
      in_send = (\<lambda>_. Took 0) \<rparr>) \<lparr> open_fds = {0, 1, 2}, bad_closes = 0 \<rparr> = Ended 0 s' (Some w) \<and> open_fds s' = {0, 1, 2}"
proof -
  let ?a = "\<lparr> ans_socket = 4, ans_setsockopt = True, ans_nonblock = True, ans_bind = True, ans_listen = True,
    ans_epoll_create = 3, ans_epoll_ctl = True \<rparr>" and ?s = "\<lparr> open_fds = {0, 1, 2}, bad_closes = 0 \<rparr> :: os"
  let ?i = "\<lparr> in_accept = None, in_fcntl = (True, True), in_recv = (\<lambda>_. Got []), in_send = (\<lambda>_. Took 0) \<rparr>"
  have "poll_iteration (fresh_poll base ?i) (start6 4 (\<lambda>_. 0)) = start6 4 (\<lambda>_. 0)" for base
    by (simp add: poll_iteration_def accept_client_def fresh_poll_def start6_def)
  then have "poll_loop (\<lambda>_. fresh_poll base ?i) n (start6 4 (\<lambda>_. 0)) = start6 4 (\<lambda>_. 0)" for base n
    by (induction n) (simp_all add: poll_loop_def)
  then obtain s' w where e: "phase6_program ?a (\<lambda>_. 0) (\<lambda>_. ?i) ?s = Ended 0 s' (Some w)"
    by (simp add: phase6_program_def setup6_def sys_open_def Let_def) (simp add: start6_def)
  with phase6_program_closes [OF e] show ?thesis by auto
qed

theorem phase11_program_closes:
  "phase11_main a waits s \<noteq> Crashed \<and>
     (\<forall>code s' w. phase11_main a waits s = Ended code s' w \<longrightarrow> open_fds s' = open_fds s \<and> bad_closes s' = bad_closes s \<and> (code = 0 \<longleftrightarrow> w \<noteq> None))"
proof -
  obtain r s1 where r: "setup11 a s = (r, s1)" by fastforce
  note acc = start11.account [OF r]
  from setup11_forms [OF r] show ?thesis
  proof (elim disjE exE conjE)
    fix fd e assume l: "r = Watching fd e" "fd \<noteq> e"
    with acc close_listed [of e s1] close_listed [of fd "sys_close e s1"] r show ?thesis by (auto simp: phase11_main_def)
  qed (use r acc in \<open>simp add: phase11_main_def\<close>)
qed

end
