(* ===== verification/Test_Programs.thy ===== *)
theory Test_Programs
  imports Gateway_Tests Config_Parser Demo_Programs Sanitizer_Demo Limiter_Stress
begin

text \<open>
  The test programs from start to end: \<open>main\<close> of phases 13, 17, 19, 21 and 22. A program runs its tests in order; a
  false \<open>assert\<close> aborts it, unless it is compiled with \<open>NDEBUG\<close> (the \<open>Release\<close> and \<open>RelWithDebInfo\<close> builds of
  \<open>CMakeLists.txt\<close>), where the conditions, with the calls inside them, are not evaluated at all.
\<close>

section \<open>Data and operations\<close>

datatype build = Debug_Build | NDebug_Build

text \<open>How \<open>main\<close> ends: it returns, an assertion aborts it, an error leaves it, or a thread is still to be joined.\<close>

datatype main_end = Returns int | Aborts | Leaves cpp_error | Waiting

text \<open>A test: what it has printed when its last assertion is reached, and the conditions it asserts; \<open>None\<close> while it waits.\<close>

type_synonym 'r test = "('r \<times> bool list) outcome option"

fun run_tests :: "build \<Rightarrow> 'r test list \<Rightarrow> 'r list \<times> main_end" where
  "run_tests b [] = ([], Returns 0)"
| "run_tests b (None # ts) = ([], Waiting)"
| "run_tests b (Some (Inl e) # ts) = ([], Leaves e)"
| "run_tests b (Some (Inr (r, cs)) # ts) =
     (if b = NDebug_Build \<or> list_all id cs then (let (rs, e) = run_tests b ts in (r # rs, e)) else ([r], Aborts))"

text \<open>A test that prints nothing but its heading.\<close>

definition titled :: "string \<Rightarrow> bool list outcome \<Rightarrow> string test" where
  "titled h t = Some (bind_outcome t (\<lambda>cs. Inr (h, cs)))"

subsection \<open>Phase 17\<close>

text \<open>What the four tests print: tests passed, tests run and buffers rejected; connections before and after the clean-up;
  connections after the churn; requests allowed and denied.\<close>

datatype report17 = Fuzzed nat nat nat | Slowloris nat nat | Churned nat | Burst u64 u64

definition burst_report :: "burst_totals crew outcome \<Rightarrow> report17 test" where
  "burst_report r =
     (case r of
        Inl e \<Rightarrow> Some (Inl e)
      | Inr c \<Rightarrow> if joined_all c THREADS then Some (Inr (Burst (total_allowed (tallied c)) (total_denied (tallied c)), [])) else None)"

definition phase17_main ::
  "build \<Rightarrow> endian \<Rightarrow> u8 list \<Rightarrow> u8 list list \<Rightarrow> (int \<Rightarrow> time_ns) \<Rightarrow> time_ns \<Rightarrow> (int \<Rightarrow> time_ns) \<Rightarrow>
     (nat \<Rightarrow> time_ns) \<Rightarrow> time_ns \<Rightarrow> action list \<Rightarrow> report17 list \<times> main_end" where
  "phase17_main b e uninit fuzz t t_recv t_check t_churn now as =
     run_tests b
       [Some (Inr (case run_packet_fuzzer e uninit fuzz of (passed, run, rejected) \<Rightarrow> (Fuzzed passed run rejected, []))),
        Some (Inr (case run_slowloris_timeout_test t t_recv t_check of (before, left) \<Rightarrow> (Slowloris before left, [left = 1]))),
        Some (Inr (Churned (run_connection_churn_test t_churn), [])),
        burst_report (run_burst_contention_test now as)]"

subsection \<open>Phases 19, 21 and 22\<close>

definition phase19_main :: "build \<Rightarrow> endian \<Rightarrow> nat list \<Rightarrow> string list \<times> main_end" where
  "phase19_main b e order =
     run_tests b
       [titled ''1. AddressSanitizer'' (map_sum id fst (verify_address_sanitizer_bounds e)),
        map_option (\<lambda>r. Inr (''2. ThreadSanitizer'', fst r)) (verify_thread_sanitizer_concurrency order),
        titled ''3. UndefinedBehaviorSanitizer'' (Inr (verify_undefined_behavior_sanitizer e))]"

text \<open>The tests remove the files they write, so each finds the file system \<open>main\<close> found.\<close>

definition phase21_main :: "build \<Rightarrow> file_system \<Rightarrow> string list \<times> main_end" where
  "phase21_main b fs =
     run_tests b
       [titled ''Test 1'' (test_default_configuration fs), titled ''Test 2'' (test_custom_file_configuration fs),
        titled ''Test 3'' (test_config_validation (fs(''tmp_invalid.conf'' := None))),
        titled ''Test 4'' (test_hot_reloading (fs(''tmp_reload.conf'' := None)))]"

text \<open>The third audit drains the bucket inside \<open>assert\<close>: without assertions the ten calls are gone. The last condition is
  \<open>dropped\<close>.\<close>

definition flood_audit :: "build \<Rightarrow> time_ns \<Rightarrow> time_ns list \<Rightarrow> time_ns \<Rightarrow> bool list outcome" where
  "flood_audit b t0 ts t_last =
     (case b of
        Debug_Build \<Rightarrow> audit_rate_limiting_dos_mitigation t0 ts t_last
      | NDebug_Build \<Rightarrow> bind_outcome (make_limiter 10 10 t0) (\<lambda>limiter.
          bind_outcome (try_consume 1 t_last limiter) (\<lambda>(ok, _). Inr [\<not> ok])))"

definition phase22_main ::
  "build \<Rightarrow> endian \<Rightarrow> u8 list \<Rightarrow> u64 \<Rightarrow> time_ns \<Rightarrow> time_ns \<Rightarrow> u64 \<Rightarrow> time_ns \<Rightarrow> time_ns \<Rightarrow> time_ns \<Rightarrow> time_ns list \<Rightarrow> time_ns \<Rightarrow>
     string list \<times> main_end" where
  "phase22_main b e uninit raw1 a0 a1 raw2 b0 b1 t0 ts t_last =
     run_tests b
       [titled ''Audit 1'' (audit_allocation_dos_mitigation e uninit),
        titled ''Audit 2'' (audit_replay_attack_mitigation raw1 a0 a1 raw2 b0 b1),
        titled ''Audit 3'' (flood_audit b t0 ts t_last),
        titled ''Audit 4'' audit_header_packing_safety]"

subsection \<open>Phase 13\<close>

text \<open>The results of the first three tests and the summary of the sessions.\<close>

definition session_summary :: "Sessions \<Rightarrow> (int \<times> string) list" where
  "session_summary sessions = map (\<lambda>(fd, sess). (fd, auth_state_str (auth_state sess))) sessions"

definition phase13_main ::
  "u64 \<Rightarrow> u64 \<Rightarrow> u64 \<Rightarrow> u64 \<Rightarrow> (int \<Rightarrow> u64) \<Rightarrow> (nat \<Rightarrow> time_ns) \<Rightarrow> ((bool \<times> AuthState) list \<times> (int \<times> string) list \<times> int) outcome" where
  "phase13_main raw1 raw2 raw_a raw_b raw t =
     bind_outcome (test_valid_auth raw1 (t 0) (t 1)) (\<lambda>r1.
     bind_outcome (test_invalid_auth raw2 (t 2) (t 3)) (\<lambda>r2.
     bind_outcome (test_replay_attack raw_a (t 4) (t 5) raw_b (t 6) (t 7)) (\<lambda>r3.
     bind_outcome (test_session_manager raw (t 8) (t 9)) (\<lambda>sessions.
       Inr ([r1, r2, r3], session_summary sessions, 0)))))"

section \<open>Lemmas\<close>

text \<open>Without assertions nothing a test finds can end the program.\<close>

lemma run_tests_ndebug: "snd (run_tests NDebug_Build ts) \<noteq> Aborts"
  by (induction NDebug_Build ts rule: run_tests.induct) (simp_all add: case_prod_beta)

lemma titled_Inr [simp]: "titled h (Inr cs) = Some (Inr (h, cs))"
  by (simp add: titled_def bind_outcome_def)

lemma summary_find: "map_of (session_summary m) fd = map_option (\<lambda>s. auth_state_str (auth_state s)) (um_find m fd)"
  by (simp add: session_summary_def um_find_def map_of_map [of "\<lambda>s. auth_state_str (auth_state s)", simplified])

lemma fuzzer_report:
  obtains n where "run_packet_fuzzer e uninit fuzz = (4, 4, n)"
  using phase17_results [of e uninit fuzz] by (metis prod.collapse)

lemma first_request_granted:
  assumes "t0 \<le> t" and "t - t0 < 10 ^ 8"
  shows "flood_audit NDebug_Build t0 ts t = Inr [False]"
proof -
  obtain l where l: "make_limiter 10 10 t0 = Inr l" using make_limiter_small [of 10 10 t0] by auto
  then have "level 10 t 10 t0 l" using fresh_level [of 10 10 t0 l t] assms(2) by simp
  from level_consume [OF this assms(1)] l show ?thesis by (auto simp: flood_audit_def bind_outcome_def)
qed

section \<open>Properties\<close>

text \<open>
  Phase 17 cannot pass in a debug build: after a sleep of 1.5 seconds the second test always finds no connection where
  it asserts one, so the program aborts and neither the churn nor the burst is ever run. Without assertions it runs all four
  tests and announces success, with the same finding.
\<close>

theorem phase17_aborts:
  assumes "\<forall>fd \<in> {10, 11, 12, 13, 14}. t fd \<le> t_recv" and "\<forall>fd. t_recv + 1500000000 \<le> t_check fd"
  shows "\<exists>n. phase17_main Debug_Build e uninit fuzz t t_recv t_check t_churn now as = ([Fuzzed 4 4 n, Slowloris 5 0], Aborts) \<and>
    (\<forall>c. run_burst_contention_test now as = Inr c \<and> joined_all c THREADS \<longrightarrow>
      phase17_main NDebug_Build e uninit fuzz t t_recv t_check t_churn now as =
        ([Fuzzed 4 4 n, Slowloris 5 0, Churned 0, Burst (total_allowed (tallied c)) (total_denied (tallied c))], Returns 0))"
proof -
  obtain n where "run_packet_fuzzer e uninit fuzz = (4, 4, n)" by (rule fuzzer_report)
  with slowloris_expires_all [OF assms] phase17_results [of e uninit fuzz t_churn] show ?thesis
    by (auto simp: phase17_main_def burst_report_def)
qed

theorem phase17_aborts_witness:
  "\<exists>n. phase17_main Debug_Build LittleEndian [] [] (\<lambda>_. 0) 1 (\<lambda>_. 2000000000) (\<lambda>_. 0) 0 [] = ([Fuzzed 4 4 n, Slowloris 5 0], Aborts)"
  using phase17_aborts [of "\<lambda>_. 0" 1 "\<lambda>_. 2000000000"] by fastforce

text \<open>
  Phase 22 says the same in both builds and means less in one: with calls in time and different nonces both return 0 after
  the four audits, but without assertions the bucket was never drained, so the request that should be dropped is granted while
  the audit reports that it was dropped.
\<close>

theorem phase22_ndebug_vacuous:
  assumes "raw1 \<noteq> raw2" and "ns_to_s (a1 - a0) < 5" and "ns_to_s (b1 - b0) < 5"
    and "length ts = 10" and "sorted (t0 # ts @ [t_last])" and "10 * (t_last - t0) < 10 ^ 9"
  shows "phase22_main b e uninit raw1 a0 a1 raw2 b0 b1 t0 ts t_last =
      ([''Audit 1'', ''Audit 2'', ''Audit 3'', ''Audit 4''], Returns 0) \<and>
    flood_audit Debug_Build t0 ts t_last = Inr (replicate 11 True) \<and> flood_audit NDebug_Build t0 ts t_last = Inr [False]"
proof -
  note debug = phase22_audits_pass [OF assms, of e uninit]
  have "t0 \<le> t_last" using assms(5) by (auto simp: sorted_append)
  then have nd: "flood_audit NDebug_Build t0 ts t_last = Inr [False]" using assms(6) by (intro first_request_granted) simp_all
  moreover have "flood_audit Debug_Build t0 ts t_last = Inr (replicate 11 True)" using debug by (simp add: flood_audit_def)
  moreover have "audit_allocation_dos_mitigation e uninit = Inr [True]"
    "audit_replay_attack_mitigation raw1 a0 a1 raw2 b0 b1 = Inr [True, True, True]" using debug by simp_all
  ultimately show ?thesis
    by (cases b) (simp_all add: phase22_main_def list_all_iff audit_header_packing_safety_def sizeof_PacketHeader_def)
qed

theorem phase22_ndebug_vacuous_witness:
  "flood_audit NDebug_Build 0 (replicate 10 4) 7 = Inr [False]"
  using phase22_ndebug_vacuous [of 1 2 0 0 0 0 "replicate 10 4" 0 7]
  by (simp add: sorted_append sorted_replicate ns_to_s_def cdiv_def)

text \<open>
  Phases 19 and 21 pass in every build: phase 19 on either byte order and in every order of its increments (it is still
  waiting while some are left), phase 21 in a directory with the repository's \<open>config/gateway.conf\<close>.
\<close>

theorem phases_19_21_pass:
  assumes "fs ''non_existent_file.conf'' = None" and "fs ''config/gateway.conf'' = Some gateway_conf"
  shows "snd (phase21_main b fs) = Returns 0 \<and>
    snd (phase19_main b e order) = (if verify_thread_sanitizer_concurrency order = None then Waiting else Returns 0)"
proof
  have "test_config_validation (fs(''tmp_invalid.conf'' := None)) = Inr [True]"
    "test_hot_reloading (fs(''tmp_reload.conf'' := None)) = Inr (replicate 4 True)"
    using phase21_passes [of "fs(''tmp_invalid.conf'' := None)"] phase21_passes [of "fs(''tmp_reload.conf'' := None)"] assms by simp_all
  with phase21_passes [OF assms] show "snd (phase21_main b fs) = Returns 0"
    by (simp add: phase21_main_def list_all_iff)
  show "snd (phase19_main b e order) = (if verify_thread_sanitizer_concurrency order = None then Waiting else Returns 0)"
    using phase19_passes [of e order "the (verify_thread_sanitizer_concurrency order)"]
    by (cases "verify_thread_sanitizer_concurrency order") (auto simp: phase19_main_def)
qed

theorem phases_19_21_pass_witness:
  "snd (phase21_main Debug_Build [''config/gateway.conf'' \<mapsto> gateway_conf]) = Returns 0"
  using phases_19_21_pass [of "[''config/gateway.conf'' \<mapsto> gateway_conf]"] by simp

text \<open>
  Phase 13 prints what its comments announce when every answer comes within five seconds, the two random values of the
  replay differ and the garbage is not by chance the token of descriptor 13.
\<close>

theorem phase13_prints:
  assumes "\<forall>i \<in> {0, 2, 6, 8}. ns_to_s (t (i + 1) - t i) < 5" and "raw_a \<noteq> raw_b"
    and "compute_token (generate_nonce (raw 13)) SHARED_SECRET \<noteq> Inr ''deadbeefcafebabe''"
  shows "\<exists>summary. phase13_main raw1 raw2 raw_a raw_b raw t =
      Inr ([(True, AUTHENTICATED), (False, REJECTED), (False, REJECTED)], summary, 0) \<and>
    map (map_of summary) [10, 11, 12, 13, 14] =
      map Some [''AUTHENTICATED'', ''AUTHENTICATED'', ''AUTHENTICATED'', ''REJECTED'', ''CHALLENGE_SENT'']"
proof -
  have late: "ns_to_s (t 1 - t 0) < 5" "ns_to_s (t 3 - t 2) < 5" "ns_to_s (t 7 - t 6) < 5" "ns_to_s (t 9 - t 8) < 5"
    using assms(1) by (simp_all add: numeral_eq_Suc)
  note res = phase13_results [of _ _ raw_a raw_b raw, OF _ assms(2,3)]
  obtain m where m: "test_session_manager raw (t 8) (t 9) = Inr m"
    "map (\<lambda>fd. map_option auth_state (um_find m fd)) [10, 11, 12, 13, 14] =
       [Some AUTHENTICATED, Some AUTHENTICATED, Some AUTHENTICATED, Some REJECTED, Some CHALLENGE_SENT]"
    using res [OF late(4), THEN conjunct2, THEN conjunct2, THEN conjunct2] by (elim exE conjE) (rule that)
  have "map_of (session_summary m) fd = map_option auth_state_str (map_option auth_state (um_find m fd))" for fd
    by (simp add: summary_find option.map_comp comp_def)
  then have "map (map_of (session_summary m)) [10, 11, 12, 13, 14] =
      map Some [''AUTHENTICATED'', ''AUTHENTICATED'', ''AUTHENTICATED'', ''REJECTED'', ''CHALLENGE_SENT'']"
    using m(2) by (auto simp: auth_state_str_def)
  moreover have "test_valid_auth raw1 (t 0) (t 1) = Inr (True, AUTHENTICATED)" "test_invalid_auth raw2 (t 2) (t 3) = Inr (False, REJECTED)"
    "test_replay_attack raw_a (t 4) (t 5) raw_b (t 6) (t 7) = Inr (False, REJECTED)"
    using res [OF late(1), THEN conjunct1] res [OF late(2), THEN conjunct2, THEN conjunct1]
      res [OF late(3), THEN conjunct2, THEN conjunct2, THEN conjunct1] by simp_all
  ultimately show ?thesis using m(1) by (simp add: phase13_main_def bind_outcome_def)
qed

theorem phase13_prints_witness:
  "\<exists>summary. phase13_main 5 6 1 2 (\<lambda>_. 0) (\<lambda>_. 0) =
    Inr ([(True, AUTHENTICATED), (False, REJECTED), (False, REJECTED)], summary, 0)"
proof -
  have "compute_token (generate_nonce 0) SHARED_SECRET \<noteq> Inr ''deadbeefcafebabe''" by code_simp
  with phase13_prints [of "\<lambda>_. 0" 1 2 "\<lambda>_. 0" 5 6] show ?thesis by (auto simp: ns_to_s_def cdiv_def)
qed

end
