(* ===== verification/Config_Report.thy ===== *)
theory Config_Report
  imports Kernel_Stats
begin

text \<open>
  \<open>GatewayConfig::print\<close> of \<open>include/config/ConfigParser.hpp\<close>, which phase 21 shows every configuration with: what is printed of
  a loaded configuration, and that it can be read off the output, the shared secret included.
\<close>

section \<open>Data and operations\<close>

definition print_config :: "GatewayConfig \<Rightarrow> (ostream \<Rightarrow> ostream) list" where
  "print_config c =
     [insert_text ''  - Listening Port       : '', put_nat (unat (port c)), insert_text newline,
      insert_text ''  - Thread Pool Workers  : '', put_nat (unat (thread_pool_size c)), insert_text newline,
      insert_text ''  - Rate Limit Capacity  : '', insert_text (int_text (rate_limit_capacity c)), insert_text ('' tokens'' @ newline),
      insert_text ''  - Rate Limit Refill    : '', insert_text (int_text (rate_limit_refill_rate c)), insert_text ('' tokens/sec'' @ newline),
      insert_text ''  - Log Level            : '', insert_text (log_level c), insert_text newline,
      insert_text ''  - Shared Auth Secret   : '', insert_text (shared_secret c), insert_text newline,
      insert_text ''  - Log File Output      : '', insert_text (log_file c), insert_text newline]"

section \<open>Specification\<close>

definition config_lines :: "GatewayConfig \<Rightarrow> string list" where
  "config_lines c =
     [''  - Listening Port       : '' @ to_string (unat (port c)),
      ''  - Thread Pool Workers  : '' @ to_string (unat (thread_pool_size c)),
      ''  - Rate Limit Capacity  : '' @ int_text (rate_limit_capacity c) @ '' tokens'',
      ''  - Rate Limit Refill    : '' @ int_text (rate_limit_refill_rate c) @ '' tokens/sec'',
      ''  - Log Level            : '' @ log_level c,
      ''  - Shared Auth Secret   : '' @ shared_secret c,
      ''  - Log File Output      : '' @ log_file c]"

text \<open>A parser as it is constructed, or as a load or reload leaves it that returns true, after any history of
  calls.\<close>

definition loaded :: "ConfigParser \<Rightarrow> bool" where
  "loaded p \<longleftrightarrow> p = new_parser \<or> (\<exists>ops op. perform op (state_after ops) = (Inr True, p))"

definition one_line :: "string \<Rightarrow> bool" where
  "one_line s \<longleftrightarrow> CHR 0x0A \<notin> set s"

section \<open>Lemmas\<close>

lemma int_text_inj:
  assumes "int_text m = int_text n"
  shows "m = n"
proof -
  have minus: "to_string k \<noteq> CHR ''-'' # s" "CHR ''-'' # s \<noteq> to_string k" for k s
    using to_string_digits [of k] digit_not_special by (cases "to_string k"; auto)+
  from assms show ?thesis
    by (cases "m < 0"; cases "n < 0") (auto simp: int_text_def minus dest!: to_string_inj)
qed

lemma int_text_one_line: "one_line (int_text n)"
  by (simp add: int_text_def one_line_def to_string_no_newline)

lemma config_lines_inj: "config_lines c = config_lines d \<Longrightarrow> c = d"
  by (rule GatewayConfig.equality) (auto simp: config_lines_def dest!: to_string_inj int_text_inj intro: unsigned_word_eqI)

lemma getlines_one_line: "one_line cur \<Longrightarrow> l \<in> set (getlines cur cs) \<Longrightarrow> one_line l"
  by (induction cur cs rule: getlines.induct) (auto simp: one_line_def split: if_splits)

lemma set_trim: "set (trim s) \<subseteq> set s"
  by (auto simp: trim_def dest!: set_dropWhileD)

lemma parse_line_value:
  assumes "parse_line l = Some (k, v)" and "one_line l"
  shows "one_line v"
proof -
  obtain n where "v = trim (drop n (trim l))" using assms(1) by (auto simp: parse_line_def Let_def split: if_splits)
  then have "set v \<subseteq> set l" using set_trim set_drop_subset by (metis subset_trans)
  with assms(2) show ?thesis by (auto simp: one_line_def)
qed

lemma setting_one_line:
  assumes "setting ls k = Some v" and "list_all one_line ls"
  shows "one_line v"
proof -
  have "(k, v) \<in> set (List.map_filter parse_line ls)" using map_of_SomeD [of "rev (List.map_filter parse_line ls)" k v] assms(1)
    by (simp add: setting_def)
  then obtain l where "l \<in> set ls" "parse_line l = Some (k, v)" by (auto simp: map_filter_def)
  with assms(2) show ?thesis using parse_line_value by (auto simp: list_all_iff)
qed

lemma field_one_line:
  "field_of (setting ls k) Inr dflt = Inr v \<Longrightarrow> list_all one_line ls \<Longrightarrow> one_line dflt \<Longrightarrow> one_line v"
  by (auto simp: field_of_def intro: setting_one_line split: option.splits)

lemma denoted_one_line:
  assumes "denotes (setting ls) c" and "list_all one_line ls"
  shows "one_line (log_level c)" and "one_line (shared_secret c)" and "one_line (log_file c)"
proof -
  have "field_of (setting ls ''log_level'') Inr ''INFO'' = Inr (log_level c)"
    "field_of (setting ls ''shared_secret'') Inr ''qualcomm_gateway_s3cr3t'' = Inr (shared_secret c)"
    "field_of (setting ls ''log_file'') Inr ''gateway.log'' = Inr (log_file c)"
    using assms(1) by (simp_all add: denotes_def)
  note field_one_line [OF this(1) assms(2)] field_one_line [OF this(2) assms(2)] field_one_line [OF this(3) assms(2)]
  then show "one_line (log_level c)" "one_line (shared_secret c)" "one_line (log_file c)" by (simp_all add: one_line_def)
qed

lemma lines_read_one_line: "list_all one_line (lines_read ops)"
  using getlines_one_line [of "[]"] by (auto simp: lines_read_def list_all_iff one_line_def)

lemma loaded_one_line:
  assumes "loaded p"
  shows "list_all one_line (config_lines (config p))"
proof -
  obtain ls where "list_all one_line ls" "denotes (setting ls) (config p)"
  proof (cases "p = new_parser")
    case True
    then have "denotes (setting []) (config p)"
      by (simp add: denotes_def field_of_def new_parser_def default_config_def)
    with that [of "[]"] show thesis by simp
  next
    case False
    with assms obtain ops op where "perform op (state_after ops) = (Inr True, p)" by (auto simp: loaded_def)
    from perform_denotes [OF this] that lines_read_one_line show thesis by blast
  qed
  then show ?thesis using denoted_one_line int_text_one_line
    by (simp add: config_lines_def one_line_def to_string_no_newline)
qed

lemma print_config_text: "settled os \<Longrightarrow> shown (emit (print_config c) os) = shown os @ with_newlines (config_lines c)"
  by (simp add: print_config_def config_lines_def with_newlines_def newline_def)

section \<open>Properties\<close>

text \<open>
  Whatever files were loaded, the seven lines printed give the whole configuration away: they are the labelled fields, two
  loaded configurations print alike only if they are equal, and the sixth line is the shared secret in clear.
\<close>

theorem print_reveals:
  assumes "loaded p" and "loaded q"
  shows "getlines [] (shown (emit (print_config (config p)) cout)) = config_lines (config p) \<and>
    config_lines (config p) ! 5 = ''  - Shared Auth Secret   : '' @ shared_secret (config p) \<and>
    (shown (emit (print_config (config p)) cout) = shown (emit (print_config (config q)) cout) \<longleftrightarrow> config p = config q)"
proof -
  have lines: "getlines [] (shown (emit (print_config (config r)) cout)) = config_lines (config r)"
    if "loaded r" for r
    using loaded_one_line [OF that] by (simp add: print_config_text getlines_with_newlines one_line_def [abs_def])
  have "config_lines (config p) ! 5 = ''  - Shared Auth Secret   : '' @ shared_secret (config p)" by (simp add: config_lines_def)
  with lines [OF assms(1)] lines [OF assms(2)] config_lines_inj show ?thesis by metis
qed

theorem print_reveals_witness:
  "getlines [] (shown (emit (print_config default_config) cout)) ! 5 = ''  - Shared Auth Secret   : qualcomm_gateway_s3cr3t''"
proof -
  have c: "config new_parser = default_config" by (simp add: new_parser_def)
  show ?thesis using print_reveals [of new_parser new_parser] by (simp add: c loaded_def) (simp add: default_config_def)
qed

end
