(* ===== verification/Spec2Isabelle.thy ===== *)
theory Spec2Isabelle
  imports Gateway_Tests Config_Parser Packet_Dissector Async_Logger RAII_Socket Epoll_Reactor
    Echo_Servers Polling_Servers Benchmark_Suite Telemetry_Counters Demo_Programs
    Epoll_Demo Resilience_Audit Limiter_Stress Logger_Demo Dashboard Sanitizer_Demo
    Kernel_Stats Logger_Threads Benchmark_Report Dissector_Report Env_Check
    Server_Programs Test_Programs Config_Report
begin

text \<open>
  This development verifies the C++ network gateway of this repository: the reusable components under
  \<open>include/\<close> and the programs \<open>src/phase1_tcp_server.cpp\<close> to \<open>src/phase24_packet_capture.cpp\<close> that
  build servers, tests, audits and demonstrations from them, with the kernel module under \<open>kernel/\<close> and the tool
  \<open>tools/env_check.cpp\<close>.

  \<^bold>\<open>The program and its parts.\<close> A gateway accepts TCP and UDP clients, frames what they send as packets, looks
  up routes, authenticates clients, limits their rate, manages their connections, logs and counts. Every
  part is one header: the wire protocol (\<open>Packet\<close>), the routing trie (\<open>RouteTable\<close>), the token bucket
  (\<open>TokenBucketRateLimiter\<close>), the challenge-response session (\<open>AuthSession\<close>), the configuration
  (\<open>ConfigParser\<close>), connections and their manager (\<open>Connection\<close>, \<open>ConnectionManager\<close>), the frame dissector
  (\<open>PacketDissector\<close>), the thread pool (\<open>ThreadPool\<close>), the ring-buffer logger (\<open>AsyncLogger\<close>), the descriptor
  wrapper (\<open>RAIISocket\<close>), socket helpers (\<open>SocketUtils\<close>), the event loop (\<open>EpollReactor\<close>), the counters
  (\<open>Telemetry\<close>) and the latency statistics (\<open>BenchmarkingSuite\<close>). The phases combine them: phases 1 to 4, 6, 7 and
  11 are servers on plain system calls (4 on the thread pool), 8 and 9 are servers on the reactor (9 with the
  connection manager), and the others drive one or more components and print or assert what they observe.

  \<^bold>\<open>Theories.\<close> A definition has the name of the function or type it translates, where Isabelle allows it;
  a \<open>class\<close> or \<open>struct\<close> is a record, a fallible call an outcome (a value, an exception, \<open>Undefined\<close> for
  undefined behaviour, or \<open>SigPipeKill\<close>), and machine integers are words or integers whose overflow is written out.

  \<^item> \<^theory_text>\<open>Gateway_Prelude\<close>: machine integers, outcomes, byte order, \<open>std::stoi\<close> and its kin, \<open>std::unordered_map\<close>
    behind the locale \<open>keyed_store\<close>, and the locale \<open>event_machine\<close> for invariants of interleaved programs.
    \<^theory_text>\<open>Stream_Format\<close>: \<open>std::cout\<close> with its manipulators, which reports are printed on. \<^theory_text>\<open>Double_Arith\<close>: operations on
    \<open>double\<close> rounded to 53 bits, with the error of sums (locale \<open>relative_rounding\<close>).
  \<^item> \<^theory_text>\<open>Packet_Protocol\<close> (\<open>protocol/Packet.hpp\<close>): round trip between hosts of any byte order, the exact set of
    accepted buffers with what is stored and what is left alone, well-formedness of every packet obtainable, the wire format, partial packets.
  \<^item> \<^theory_text>\<open>Route_Table\<close> (\<open>routing/RouteTable.hpp\<close>, phase 10): the trie refines a linear scan of the routes
    (locale \<open>lpm_table\<close>) and finds the longest matching prefix; when \<open>add_route\<close> is undefined.
  \<^item> \<^theory_text>\<open>Rate_Limiter\<close> (\<open>ratelimit/RateLimiter.hpp\<close>): the bound on what is granted in an interval, tokens after a wait,
    overflow after long idling; the same code as a machine of atomic accesses of any number of threads,
    which neither loses nor duplicates tokens, and the race in \<open>refill\<close> that credits an interval twice.
    \<^theory_text>\<open>Limiter_Stress\<close> adds the threads of phases 12 and 17 that share one limiter.
  \<^item> \<^theory_text>\<open>Auth_Session\<close> (\<open>auth/AuthSession.hpp\<close>, phase 13): the session as a state machine with one attempt and a time
    limit, rejection of replayed tokens, and forgery from one observed exchange.
  \<^item> \<^theory_text>\<open>Config_Parser\<close> (\<open>config/ConfigParser.hpp\<close>, phase 21): what \<open>load_from_file\<close> and \<open>reload\<close> do after any
    history of calls, against a definition of the line format that does not mention the parser; wrap-around of ports; an error
    that persists. \<^theory_text>\<open>Config_Report\<close> is what \<open>print\<close> shows of it.
  \<^item> \<^theory_text>\<open>Connection_Manager\<close> (\<open>network/Connection.hpp\<close>, \<open>network/ConnectionManager.hpp\<close>): refinement of a finite map,
    with handles as addresses in a store, and the exact set of expired connections.
  \<^item> \<^theory_text>\<open>Packet_Dissector\<close> (\<open>network/PacketDissector.hpp\<close>, frames of phase 24): no read outside the frame, for every
    frame; the reported fields. \<^theory_text>\<open>Dissector_Report\<close> is the text it prints and \<open>main\<close> of phase 24.
  \<^item> \<^theory_text>\<open>Thread_Pool\<close> (\<open>concurrency/ThreadPool.hpp\<close>): tasks start in order and once, no wake-up is lost, and the
    destructor returns after all tasks have run.
  \<^item> \<^theory_text>\<open>Async_Logger\<close> (\<open>logging/AsyncLogger.hpp\<close>): a bounded FIFO (locale \<open>fifo_buffer\<close>) that is flushed by
    \<open>stop\<close>, as long as nothing is dropped; the stall after a drop. \<^theory_text>\<open>Logger_Demo\<close> is phase 14 on it. There a
    call is one step; in \<^theory_text>\<open>Logger_Threads\<close> every access to memory is, for any number of producers: no line is lost or torn
    as long as no call starts with all slots claimed, a call that runs alone is one step of \<open>Async_Logger\<close>, and
    a call overtaken by a whole round of the ring shares its slot with another one, which tears a line and loses a message for good.
  \<^item> \<^theory_text>\<open>RAII_Socket\<close> (\<open>network/RAIISocket.hpp\<close>): single ownership of descriptors in every program that hands each open
    descriptor to one wrapper, and the double closes of a program that does not.
    \<^theory_text>\<open>Resilience_Audit\<close> is phase 18: the audits on the wrapper and on the retrying calls.
  \<^item> \<^theory_text>\<open>Epoll_Reactor\<close> (\<open>core/EpollReactor.hpp\<close>, phases 8 and 9): a locale for applications on the reactor, with the two
    servers as interpretations, on the descriptor table of the process; phase 9 reads a captured variable of a closure it has
    destroyed.
    \<^theory_text>\<open>Server_Programs\<close> has the programs of phases 6, 8, 9 and 11 with set-up, loop and destructors.
  \<^item> \<^theory_text>\<open>Socket_IO\<close> (\<open>send_all\<close>, \<open>send_with_retry\<close>, \<open>recv_with_retry\<close> and the client loops of phases 2, 3, 4 and 18):
    locales for writers of a stream; what exactly is echoed and why a session stops; death by \<open>SIGPIPE\<close>. \<^theory_text>\<open>Echo_Servers\<close> adds the accept
    loops of phases 3 and 4 in every interleaving, \<^theory_text>\<open>Polling_Servers\<close> phases 6 and 11, \<^theory_text>\<open>Epoll_Demo\<close> phase 7, and
    \<^theory_text>\<open>Server_Startup\<close> the set-up of all servers with its error paths (locales \<open>server_setup\<close>, \<open>clean_setup\<close>,
    \<open>reporting_setup\<close>, \<open>sound_setup\<close>) and phases 1 and 2 from start to end.
  \<^item> \<^theory_text>\<open>Telemetry_Counters\<close> (\<open>telemetry/Telemetry.hpp\<close>, traffic of phase 15): exact totals under concurrency, rates of a
    snapshot, parsing of \<open>/proc\<close>. \<^theory_text>\<open>Dashboard\<close> is the display of phase 15.
  \<^item> \<^theory_text>\<open>Benchmark_Suite\<close> (\<open>benchmark/BenchmarkingSuite.hpp\<close>, phase 16): in double arithmetic the reported percentiles are exact
    quantiles, and the average is the mean up to rounding.
    \<^theory_text>\<open>Benchmark_Report\<close> is the table it prints, read back up to rounding.
  \<^item> \<^theory_text>\<open>Gateway_Tests\<close> (phases 17 and 20), \<^theory_text>\<open>Demo_Programs\<close> (phases 5, 12, 22), \<^theory_text>\<open>Sanitizer_Demo\<close> (phase 19) and
    \<^theory_text>\<open>Kernel_Stats\<close> (phase 23 and \<open>kernel/gateway_stats_mod.c\<close>): what the test and demonstration programs assert
    and print, for all clock readings, random values and schedules they can meet. \<^theory_text>\<open>Test_Programs\<close> has \<open>main\<close> of phases
    13, 17, 19, 21 and 22 in builds with and without \<open>NDEBUG\<close>, \<^theory_text>\<open>Env_Check\<close> the tool of phase 0.

  This theory composes the wire protocol with the echo servers.

  \<^bold>\<open>Environment.\<close> The kernel, the clock, the random number generator and the scheduler are inputs: a socket is the list
  of answers it will give (a call that finds none is \<open>Blocked\<close>), the descriptors are a set with a count of closes of
  what is not open, a clock reading is an argument, and concurrent programs are machines that take one atomic step at
  a time in any order, so a theorem about a run is about every schedule. \<open>inet_pton\<close> and \<open>inet_ntop\<close> are parameters.
  Atomics are sequentially consistent. Values of type \<open>double\<close> are real numbers, rounded after every operation in
  \<^theory_text>\<open>Benchmark_Suite\<close> (with an unbounded exponent) and not rounded in the rates and gauges of \<^theory_text>\<open>Telemetry_Counters\<close> and \<^theory_text>\<open>Dashboard\<close>.

  \<^bold>\<open>Bounds and termination.\<close> Loops over the answers of the kernel end with them, so their functions are total; that they
  reach a result is proved as such where the kernel makes progress. The consumer loop of the logger takes fuel: more than
  \<open>RING_CAPACITY\<close> iterations always suffice when nothing was dropped, and no fuel does in the stall. The shutdown of the
  pool is bounded by the work that remains. The bounds of the code (20 waits in phase 7, 30 iterations in phase 6, 8
  threads with 100 requests in phase 17, and so on) are constants of the model.

  \<^bold>\<open>Not modelled.\<close> Messages whose content is not a result (the reports of phases 16 and 24 and of the environment check are
  modelled in full), the rounding of \<open>double\<close> in the telemetry, its overflow and special values everywhere, weak memory order, allocation failure, and a failing constructor of
  \<open>std::thread\<close>. The wrappers \<open>debug\<close> to \<open>error\<close>, the singletons and the macros of the logger only forward. The table of file
  operations in the kernel module and the build files are not programs of their own.
\<close>

section \<open>Packets through the echo servers\<close>

text \<open>The bytes a client sends for a message: the packet it constructs, serialized.\<close>

definition frame :: "endian \<Rightarrow> PacketType \<times> u8 list \<Rightarrow> u8 list outcome" where
  "frame e m = bind_outcome (make_packet e (fst m) (snd m)) (serialize e)"

definition sendable :: "PacketType \<times> u8 list \<Rightarrow> bool" where
  "sendable m \<longleftrightarrow> sizeof_PacketHeader + length (snd m) \<le> BUFFER_SIZE"

definition on_wire :: "PacketType \<times> u8 list \<Rightarrow> u8 list" where
  "on_wire m = wire_format (packet_type_code (fst m)) (snd m)"

lemma sendable_payload: "sendable m \<Longrightarrow> length (snd m) \<le> unat MAX_PAYLOAD_SIZE"
  by (simp add: sendable_def BUFFER_SIZE_def packet_consts)

lemma sendable_packet: "sendable m \<Longrightarrow> \<exists>p. make_packet e (fst m) (snd m) = Inr p"
  using sendable_payload [of m] by (simp add: make_packet_def not_less)

lemma frame_on_wire: "sendable m \<Longrightarrow> frame e m = Inr (on_wire m)"
  using sendable_packet [of m e] serialize_constructed by (auto simp: frame_def bind_outcome_def on_wire_def)

lemma on_wire_fits:
  assumes "sendable m"
  shows "length (on_wire m) \<le> BUFFER_SIZE" and "on_wire m \<noteq> []" and "\<not> wants_quit (fill_buffer (on_wire m))"
proof -
  show "length (on_wire m) \<le> BUFFER_SIZE"
    using wire_format_parts(1) [OF sendable_payload [OF assms]] assms by (simp add: on_wire_def sendable_def sizeof_PacketHeader_def)
  show "on_wire m \<noteq> []" by (simp add: on_wire_def wire_format_def)
  show "\<not> wants_quit (fill_buffer (on_wire m))"
    by (simp add: on_wire_def wire_format_def fill_buffer_def wants_quit_def is_command_def PROTOCOL_VERSION_def u8_of_char_def)
qed

lemma on_wire_message:
  assumes "sendable m"
  shows "message_of (Got (on_wire m)) = on_wire m" and "\<not> ends_session (Got (on_wire m))"
  using on_wire_fits [OF assms] by (simp_all add: message_of_def ends_session_Got)

lemma client_loop_frames:
  assumes "list_all sendable ms" and "recv_answers io = map (\<lambda>m. Got (on_wire m)) ms @ [Got []]"
    and "list_all (\<lambda>a. \<exists>n>0. a = Took n) (send_answers io)"
    and "length (concat (map on_wire ms)) \<le> length (send_answers io)"
  shows "\<exists>io'. client_loop io = Returned io' \<and> delivered io' = delivered io @ concat (map on_wire ms)"
proof -
  have msgs: "map message_of (map (\<lambda>m. Got (on_wire m)) ms) = map on_wire ms"
    using assms(1) on_wire_message(1) by (simp add: list_all_iff)
  have "\<exists>t. client_loop io = Returned t \<and> recv_answers t = [] \<and>
      delivered t = delivered io @ concat (map message_of (map (\<lambda>m. Got (on_wire m)) ms))"
  proof (rule client_loop_completes)
    show "recv_answers io = map (\<lambda>m. Got (on_wire m)) ms @ Got [] # []" using assms(2) by simp
    show "ends_session (Got [])" by (simp add: ends_session_Got)
    show "\<forall>b\<in>set (map (\<lambda>m. Got (on_wire m)) ms). \<not> ends_session b"
      using assms(1) on_wire_message(2) by (auto simp: list_all_iff)
    show "list_all (\<lambda>x. \<not> fails x) (send_answers io)" using assms(3) by (auto simp: list_all_iff fails_def)
    show "length (concat (map message_of (map (\<lambda>m. Got (on_wire m)) ms))) \<le> length (send_answers io)"
      using assms(4) unfolding msgs .
  qed
  then show ?thesis unfolding msgs by blast
qed

text \<open>
  C21: packets survive the echo servers of phases 3 and 4: if a client sends packets whose frames fit into the
  buffer of the server, each arriving in one \<open>recv\<close>, and the kernel keeps taking what is written, then
  no packet is mistaken for a \<open>quit\<close> or \<open>exit\<close> command, the client loop returns after having sent
  back exactly the frames in order, and from the point where a frame begins a host of either byte order
  parses the packet that was sent.
\<close>

theorem packets_echoed:
  assumes "list_all sendable ms" and "recv_answers io = map (\<lambda>m. Got (on_wire m)) ms @ [Got []]"
    and "list_all (\<lambda>a. \<exists>n>0. a = Took n) (send_answers io)"
    and "length (concat (map on_wire ms)) \<le> length (send_answers io)" and "delivered io = []"
  shows "(\<forall>m \<in> set ms. frame e1 m = Inr (on_wire m)) \<and>
    (\<exists>io'. client_loop io = Returned io' \<and> delivered io' = concat (map on_wire ms) \<and>
      (\<forall>xs m ys out. ms = xs @ m # ys \<longrightarrow>
        (\<exists>q. deserialize e2 (drop (length (concat (map on_wire xs))) (delivered io')) out = (True, q) \<and>
          payload q = snd m \<and> get_type q = packet_type_code (fst m))))"
proof -
  obtain io' where io': "client_loop io = Returned io'" "delivered io' = concat (map on_wire ms)"
    using client_loop_frames [OF assms(1-4)] assms(5) by auto
  have frames: "frame e m = Inr (on_wire m)" if "m \<in> set ms" for e m
    using that assms(1) frame_on_wire by (simp add: list_all_iff)
  have "\<exists>q. deserialize e2 (drop (length (concat (map on_wire xs))) (delivered io')) out = (True, q) \<and>
      payload q = snd m \<and> get_type q = packet_type_code (fst m)" if ms: "ms = xs @ m # ys" for xs m ys out
  proof -
    obtain p where p: "make_packet e2 (fst m) (snd m) = Inr p"
      using sendable_packet assms(1) ms by fastforce
    then have "serialize e2 p = Inr (on_wire m)" using serialize_constructed by (simp add: on_wire_def)
    from deserialize_constructed [OF p this, of e2 "concat (map on_wire ys)" out] ms io'(2) show ?thesis by auto
  qed
  with io' frames show ?thesis by blast
qed

theorem packets_echoed_witness:
  "\<exists>io'. client_loop \<lparr> send_answers = replicate 20 (Took 1), recv_answers = [Got (on_wire (PING, [])), Got (on_wire (DATA, [7])), Got []],
      delivered = [], received = [] \<rparr> = Returned io' \<and> delivered io' = [1, 4, 0, 0, 0, 0, 1, 3, 0, 0, 0, 1, 7]"
proof -
  have w: "on_wire (PING, []) = [1, 4, 0, 0, 0, 0]" "on_wire (DATA, [7]) = [1, 3, 0, 0, 0, 1, 7]"
    by (simp_all add: on_wire_def wire_format_def packet_type_code_def be_bytes32_def PROTOCOL_VERSION_def)
  show ?thesis
    using packets_echoed [of "[(PING, []), (DATA, [7])]" "\<lparr> send_answers = replicate 20 (Took 1),
        recv_answers = [Got (on_wire (PING, [])), Got (on_wire (DATA, [7])), Got []], delivered = [], received = [] \<rparr>" LittleEndian BigEndian]
    by (auto simp: w sendable_def BUFFER_SIZE_def sizeof_PacketHeader_def list_all_iff)
qed

end
